(* ===== verification/Prelude.thy ===== *)
theory Prelude
  imports Main "HOL-Library.Word" "HOL-Library.Multiset"
begin

text \<open>
  What the component theories share: the collections their automation draws on, sums over
  a list of threads with one entry replaced, and the machine integer types of the C++
  sources (\<open>unsigned int\<close> is 32 bits wide, \<open>int\<close> is its two's complement reading).
\<close>

named_theorems outcome_simps \<open>equations of the handlers, by outcome\<close>
named_theorems sum_update \<open>sums over a list with one entry replaced\<close>

type_synonym u8 = "8 word"
type_synonym u16 = "16 word"
type_synonym u32 = "32 word"
type_synonym u64 = "64 word"

section \<open>Sums over a list of threads\<close>

definition tsum :: "('a \<Rightarrow> 'b::comm_monoid_add) \<Rightarrow> 'a list \<Rightarrow> 'b" where
  "tsum f xs = sum_list (map f xs)"

lemma tsum_Nil [simp]: "tsum f [] = 0"
  by (simp add: tsum_def)

lemma tsum_Cons [simp]: "tsum f (x # xs) = f x + tsum f xs"
  by (simp add: tsum_def)

lemma tsum_append [simp]: "tsum f (xs @ ys) = tsum f xs + tsum f ys"
  by (simp add: tsum_def)

lemma tsum_replicate_0 [simp]: "f x = 0 \<Longrightarrow> tsum f (replicate n x) = 0"
  by (induction n) auto

text \<open>
  Replacing one entry moves the sum by the difference of the two contributions. The law is
  stated with additions on both sides, so it holds in every commutative monoid and linear
  arithmetic can use it on \<open>nat\<close>.
\<close>

lemma tsum_update [sum_update]:
  "i < length xs \<Longrightarrow> tsum f (xs[i := x]) + f (xs ! i) = tsum f xs + f x"
proof (induction xs arbitrary: i)
  case Nil
  then show ?case by simp
next
  case (Cons y ys)
  show ?case
  proof (cases i)
    case 0
    then show ?thesis by (simp add: ac_simps)
  next
    case (Suc k)
    with Cons.prems have "k < length ys" by simp
    then have "tsum f (ys[k := x]) + f (ys ! k) = tsum f ys + f x" by (rule Cons.IH)
    with Suc show ?thesis by (simp add: add.assoc)
  qed
qed

lemma tsum_update_same:
  "i < length xs \<Longrightarrow> f x = f (xs ! i) \<Longrightarrow> tsum f (xs[i := x]) = (tsum f xs :: 'b::cancel_comm_monoid_add)"
  using tsum_update [of i xs f x] by simp

lemma tsum_map_same: "(\<And>x. f (g x) = f x) \<Longrightarrow> tsum f (map g xs) = tsum f xs"
  by (induction xs) auto

lemma tsum_member_le: "x \<in> set xs \<Longrightarrow> f x \<le> (tsum f xs :: nat)"
  by (induction xs) auto

lemma tsum_eq_0_iff: "tsum f xs = (0::nat) \<longleftrightarrow> (\<forall>x \<in> set xs. f x = 0)"
  by (induction xs) auto

lemma tsum_le_length: "(\<And>x. f x \<le> k) \<Longrightarrow> tsum f xs \<le> k * length xs" for k :: nat
  by (induction xs) (auto simp: add_mono)

lemma tsum_pos_ex: "0 < (tsum f xs :: nat) \<Longrightarrow> \<exists>i < length xs. 0 < f (xs ! i)"
  by (metis gr_zeroI in_set_conv_nth less_numeral_extra(3) tsum_eq_0_iff)

lemma tsum_nth_le: "i < length xs \<Longrightarrow> f (xs ! i) \<le> (tsum f xs :: nat)"
  by (rule tsum_member_le) simp

lemma tsum_two_le:
  "i < length xs \<Longrightarrow> j < length xs \<Longrightarrow> i \<noteq> j \<Longrightarrow> f (xs ! i) + f (xs ! j) \<le> (tsum f xs :: nat)"
proof (induction xs arbitrary: i j)
  case Nil
  then show ?case by simp
next
  case (Cons y ys)
  then show ?case
    by (cases i; cases j) (auto simp: tsum_nth_le add.commute trans_le_add2)
qed

end
