(* ===== verification/CheckQueue.thy ===== *)
theory CheckQueue
  imports Prelude
begin

text \<open>
  The data and the critical sections of \<open>CCheckQueue<T>\<close> (boostthreadcontrol/checkqueue.h).
  Every access of the queue's fields happens while its mutex is held, so each critical
  section is one function on the record of the fields; the threads that run them are in
  the theory of the system. The element type \<open>T\<close> of the template is a parameter: what the
  queue calls of it (default constructor, \<open>swap\<close>, \<open>operator()\<close>) is the record
  \<open>check_ops\<close>, and \<open>TaskCheck\<close> (task_check.h) is the program's instance.
\<close>

section \<open>The element type of the template\<close>

record 'a check_ops =
  ctor :: 'a
  swap_with :: "'a \<Rightarrow> 'a \<Rightarrow> 'a \<times> 'a"
  run_check :: "'a \<Rightarrow> bool"

datatype TaskCheck = TaskCheck

text \<open>
  \<open>TaskCheck\<close> has no data members; the body of its \<open>swap\<close> is commented out, so it leaves
  both objects as they are, and its \<open>operator()\<close> prints a line and returns true.
\<close>

definition TaskCheck_ctor :: TaskCheck where
  "TaskCheck_ctor = TaskCheck"

definition TaskCheck_swap :: "TaskCheck \<Rightarrow> TaskCheck \<Rightarrow> TaskCheck \<times> TaskCheck" where
  "TaskCheck_swap this check = (this, check)"

definition TaskCheck_call :: "TaskCheck \<Rightarrow> bool" where
  "TaskCheck_call this = True"

definition task_check_ops :: "TaskCheck check_ops" where
  "task_check_ops = \<lparr>ctor = TaskCheck_ctor, swap_with = TaskCheck_swap, run_check = TaskCheck_call\<rparr>"

section \<open>The queue's fields\<close>

record 'a chkq =
  queue :: "'a list"
  nIdle :: int
  nTotal :: int
  fAllOk :: bool
  nTodo :: u32
  fQuit :: bool
  nBatchSize :: u32

definition new_CCheckQueue :: "u32 \<Rightarrow> 'a chkq" where
  "new_CCheckQueue nBatchSizeIn =
     \<lparr>queue = [], nIdle = 0, nTotal = 0, fAllOk = True, nTodo = 0, fQuit = False,
      nBatchSize = nBatchSizeIn\<rparr>"

text \<open>
  The back of the \<open>std::vector\<close> is the last element of the list. The batch loop swaps the
  default constructed slots of \<open>vChecks\<close> one by one with the back of the queue and pops it.
\<close>

fun swap_jobs :: "'a check_ops \<Rightarrow> nat \<Rightarrow> nat \<Rightarrow> 'a list \<Rightarrow> 'a list \<Rightarrow> 'a list \<times> 'a list" where
  "swap_jobs T i 0 vChecks q = (vChecks, q)"
| "swap_jobs T i (Suc k) vChecks q =
     (let (v, _) = swap_with T (vChecks ! i) (last q)
      in swap_jobs T (Suc i) k (vChecks[i := v]) (butlast q))"

lemma swap_jobs_numeral [simp]:
  "swap_jobs T i (numeral k) vChecks q =
     (let (v, _) = swap_with T (vChecks ! i) (last q)
      in swap_jobs T (Suc i) (pred_numeral k) (vChecks[i := v]) (butlast q))"
  by (simp add: numeral_eq_Suc)

text \<open>
  \<open>(unsigned int)queue.size() / (nTotal + nIdle + 1)\<close> is an unsigned division: the \<open>int\<close>
  divisor is converted to \<open>unsigned int\<close>. A zero divisor has no defined behaviour, so it is
  \<open>None\<close> here and not the \<open>0\<close> HOL would give.
\<close>

definition batch_size :: "'a chkq \<Rightarrow> u32 option" where
  "batch_size s =
     (let d = word_of_int (nTotal s + nIdle s + 1)
      in if d = 0 then None
         else Some (max 1 (min (nBatchSize s) (of_nat (length (queue s)) div d))))"

text \<open>How one critical section of \<open>Loop\<close> ends: \<open>return fRet\<close>, inside \<open>cond.wait(lock)\<close>,
  or at the end of the block with a batch to execute.\<close>

datatype 'a outcome = Return bool | CondWait | Batch u32 bool "'a list" | Undefined

text \<open>The inner \<open>while (queue.empty())\<close> test, and what follows it in the block.\<close>

definition loop_test :: "'a check_ops \<Rightarrow> bool \<Rightarrow> 'a chkq \<Rightarrow> 'a chkq \<times> 'a outcome" where
  "loop_test T fMaster s =
     (if queue s = [] then
        if (fMaster \<or> fQuit s) \<and> nTodo s = 0 then
          (s\<lparr>nTotal := nTotal s - 1, fAllOk := (if fMaster then True else fAllOk s)\<rparr>,
           Return (fAllOk s))
        else (s\<lparr>nIdle := nIdle s + 1\<rparr>, CondWait)
      else
        (case batch_size s of
           None \<Rightarrow> (s, Undefined)
         | Some nNow \<Rightarrow>
             (let (vs, q) = swap_jobs T 0 (unat nNow) (replicate (unat nNow) (ctor T)) (queue s)
              in (s\<lparr>queue := q\<rparr>, Batch nNow (fAllOk s) vs))))"

text \<open>The clean-up of the previous round at the top of the block, with the condition under
  which the master is notified.\<close>

definition loop_cleanup :: "bool \<Rightarrow> u32 \<Rightarrow> bool \<Rightarrow> 'a chkq \<Rightarrow> 'a chkq \<times> bool" where
  "loop_cleanup fMaster nNow fOk s =
     (if nNow \<noteq> 0 then
        (let s' = s\<lparr>fAllOk := (fAllOk s \<and> fOk), nTodo := nTodo s - nNow\<rparr>
         in (s', nTodo s' = 0 \<and> \<not> fMaster))
      else (s\<lparr>nTotal := nTotal s + 1\<rparr>, False))"

definition loop_top ::
  "'a check_ops \<Rightarrow> bool \<Rightarrow> u32 \<Rightarrow> bool \<Rightarrow> 'a chkq \<Rightarrow> 'a chkq \<times> bool \<times> 'a outcome" where
  "loop_top T fMaster nNow fOk s =
     (let (s1, notify) = loop_cleanup fMaster nNow fOk s; (s2, r) = loop_test T fMaster s1
      in (s2, notify, r))"

text \<open>After \<open>cond.wait(lock)\<close> returned: \<open>nIdle--\<close>, then the test again.\<close>

definition loop_wake :: "'a check_ops \<Rightarrow> bool \<Rightarrow> 'a chkq \<Rightarrow> 'a chkq \<times> 'a outcome" where
  "loop_wake T fMaster s = loop_test T fMaster (s\<lparr>nIdle := nIdle s - 1\<rparr>)"

text \<open>\<open>Add\<close>: default construct a slot at the back, swap the check into it.\<close>

fun push_jobs :: "'a check_ops \<Rightarrow> 'a list \<Rightarrow> 'a list \<Rightarrow> 'a list \<times> 'a list" where
  "push_jobs T [] q = ([], q)"
| "push_jobs T (check # cs) q =
     (let (check', slot) = swap_with T check (ctor T); (cs', q') = push_jobs T cs (q @ [slot])
      in (check' # cs', q'))"

datatype notification = NoNotify | NotifyOne | NotifyAll

definition Add :: "'a check_ops \<Rightarrow> 'a list \<Rightarrow> 'a chkq \<Rightarrow> 'a list \<times> 'a chkq \<times> notification" where
  "Add T vChecks s =
     (let (vs, q) = push_jobs T vChecks (queue s)
      in (vs, s\<lparr>queue := q, nTodo := nTodo s + of_nat (length vChecks)\<rparr>,
          if length vChecks = 1 then NotifyOne
          else if 1 < length vChecks then NotifyAll else NoNotify))"

text \<open>The work outside the lock: \<open>for (T& check : vChecks) if (fOk) fOk = check();\<close>, one
  element at a time.\<close>

definition check_step :: "'a check_ops \<Rightarrow> bool \<Rightarrow> 'a \<Rightarrow> bool" where
  "check_step T fOk check = (if fOk then run_check T check else fOk)"

section \<open>The contract of the element type\<close>

locale check_type =
  fixes T :: "'a check_ops"
  assumes swap_exchanges: "swap_with T a b = (b, a)"
begin

text \<open>Under it the batch is the reversed tail of the queue (last in, first out), and \<open>Add\<close>
  appends the caller's checks in their order and leaves default constructed ones behind.\<close>

lemma swap_jobs_eq:
  "i + k \<le> length vs \<Longrightarrow> k \<le> length q \<Longrightarrow>
   swap_jobs T i k vs q =
     (take i vs @ rev (drop (length q - k) q) @ drop (i + k) vs, take (length q - k) q)"
proof (induction k arbitrary: i vs q)
  case 0
  then show ?case by simp
next
  case (Suc k)
  then have q: "q \<noteq> []" by auto
  then obtain q0 x where qx: "q = q0 @ [x]" by (metis rev_exhaust)
  have "swap_jobs T i (Suc k) vs q = swap_jobs T (Suc i) k (vs[i := x]) q0"
    by (simp add: swap_exchanges qx)
  also have "\<dots> = (take (Suc i) (vs[i := x]) @ rev (drop (length q0 - k) q0) @ drop (Suc i + k) (vs[i := x]),
      take (length q0 - k) q0)"
    using Suc.prems qx by (intro Suc.IH) auto
  finally show ?case
    using Suc.prems qx by (simp add: take_Suc_conv_app_nth drop_update_cancel)
qed

lemma swap_jobs_batch:
  "n \<le> length q \<Longrightarrow>
   swap_jobs T 0 n (replicate n x) q = (rev (drop (length q - n) q), take (length q - n) q)"
  by (simp add: swap_jobs_eq)

lemma push_jobs_eq: "push_jobs T vs q = (replicate (length vs) (ctor T), q @ vs)"
  by (induction vs arbitrary: q) (auto simp: swap_exchanges)

end

lemma TaskCheck_unique: "(a :: TaskCheck) = b"
  by (cases a; cases b) simp

interpretation task_check: check_type task_check_ops
  by unfold_locales (simp add: task_check_ops_def TaskCheck_swap_def TaskCheck_unique)

section \<open>The critical sections\<close>

text \<open>\<open>std::max(1U, std::min(nBatchSize, ...))\<close> stays within the batch limit and, whatever the
  thread counters are, within the queue.\<close>

lemma batch_size_Some:
  assumes "batch_size s = Some n"
  shows "0 < unat n" and "n \<noteq> 0"
    and "unat n \<le> max 1 (unat (nBatchSize s))"
    and "queue s \<noteq> [] \<Longrightarrow> unat n \<le> length (queue s)"
proof -
  let ?d = "word_of_int (nTotal s + nIdle s + 1) :: u32"
  let ?l = "of_nat (length (queue s)) :: u32"
  from assms have n: "n = max 1 (min (nBatchSize s) (?l div ?d))"
    by (auto simp: batch_size_def Let_def split: if_splits)
  have "1 \<le> n" by (simp add: n)
  then have "1 \<le> unat n" by (simp add: word_le_nat_alt)
  then show "0 < unat n" and "n \<noteq> 0" by auto
  show "unat n \<le> max 1 (unat (nBatchSize s))"
    unfolding n by (simp add: max_def min_def word_le_nat_alt)
  have "unat (?l div ?d) \<le> unat ?l" by (simp add: unat_div)
  moreover have "unat ?l \<le> length (queue s)" by (simp add: unat_of_nat)
  ultimately have le: "unat (?l div ?d) \<le> length (queue s)" by simp
  assume "queue s \<noteq> []"
  then have "1 \<le> length (queue s)" by (cases "queue s") auto
  then show "unat n \<le> length (queue s)"
    unfolding n using le by (simp add: max_def min_def word_le_nat_alt)
qed

lemma batch_size_defined:
  assumes "0 < nTotal s + nIdle s + 1" "nTotal s + nIdle s + 1 < 2 ^ 32"
  shows "\<exists>n. batch_size s = Some n"
proof -
  have "(word_of_int (nTotal s + nIdle s + 1) :: u32) \<noteq> 0"
  proof
    assume "(word_of_int (nTotal s + nIdle s + 1) :: u32) = 0"
    then have "uint (word_of_int (nTotal s + nIdle s + 1) :: u32) = 0"
      by (simp only: unsigned_0)
    then have "(nTotal s + nIdle s + 1) mod 2 ^ 32 = 0"
      unfolding uint_word_of_int by simp
    with assms show False by simp
  qed
  then show ?thesis by (simp add: batch_size_def Let_def)
qed

context check_type
begin

text \<open>The four ways out of the test.\<close>

lemma loop_test_cases [consumes 1, case_names ret sleep batch undefined]:
  assumes "loop_test T m s = (s', out)"
  obtains "queue s = []" "m \<or> fQuit s" "nTodo s = 0" "out = Return (fAllOk s)"
      "s' = s\<lparr>nTotal := nTotal s - 1, fAllOk := (if m then True else fAllOk s)\<rparr>"
  | "queue s = []" "\<not> ((m \<or> fQuit s) \<and> nTodo s = 0)" "out = CondWait"
      "s' = s\<lparr>nIdle := nIdle s + 1\<rparr>"
  | n q vs where "queue s = q @ rev vs" "batch_size s = Some n" "n \<noteq> 0" "length vs = unat n"
      "out = Batch n (fAllOk s) vs" "s' = s\<lparr>queue := q\<rparr>"
  | "queue s \<noteq> []" "batch_size s = None" "out = Undefined" "s' = s"
proof (cases "queue s = []")
  case True
  show ?thesis
  proof (cases "(m \<or> fQuit s) \<and> nTodo s = 0")
    case ret: True
    with assms True have "out = Return (fAllOk s)"
      "s' = s\<lparr>nTotal := nTotal s - 1, fAllOk := (if m then True else fAllOk s)\<rparr>"
      by (simp_all add: loop_test_def)
    with that(1) True ret show ?thesis by blast
  next
    case sleep: False
    with assms True have "out = CondWait" "s' = s\<lparr>nIdle := nIdle s + 1\<rparr>"
      by (auto simp: loop_test_def)
    with that(2) True sleep show ?thesis by blast
  qed
next
  case False
  show ?thesis
  proof (cases "batch_size s")
    case None
    with assms False have "s' = s" "out = Undefined" by (simp_all add: loop_test_def)
    with that(4) False None show ?thesis by simp
  next
    case (Some n)
    let ?q = "take (length (queue s) - unat n) (queue s)"
    let ?vs = "rev (drop (length (queue s) - unat n) (queue s))"
    have le: "unat n \<le> length (queue s)" using batch_size_Some(4) [OF Some] False .
    have "loop_test T m s = (s\<lparr>queue := ?q\<rparr>, Batch n (fAllOk s) ?vs)"
      by (simp add: loop_test_def False Some swap_jobs_batch [OF le])
    with assms have eq: "s' = s\<lparr>queue := ?q\<rparr>" "out = Batch n (fAllOk s) ?vs" by auto
    show ?thesis
    proof (rule that(3))
      show "queue s = ?q @ rev ?vs" by simp
      show "batch_size s = Some n" by fact
      show "n \<noteq> 0" using Some by (rule batch_size_Some)
      show "length ?vs = unat n" using le by simp
    qed (use eq in simp_all)
  qed
qed

end

end
