(* ===== verification/CheckQueue_System.thy ===== *)
theory CheckQueue_System
  imports CheckQueue
begin

text \<open>
  The threads of a \<open>CCheckQueue\<close>: a fixed number of threads, each outside \<open>Loop\<close> or at one of
  its points where the mutex is free. An event is one critical section of one thread, one
  check executed outside the lock, a call of \<open>Add\<close>, or a spurious wake-up. The scheduler and
  the choice of the waiter that \<open>notify_one\<close> wakes are arguments of the events. Two history
  variables record the checks added, and those executed, since the last master returned.
\<close>

section \<open>Threads and events\<close>

text \<open>\<open>AtTop\<close> is before the lock at the top of the do loop, \<open>InWait\<close> inside \<open>cond.wait\<close> and
  \<open>Woken\<close> notified there but without the lock yet, \<open>Working\<close> in the loop over \<open>vChecks\<close>. The
  first argument is \<open>fMaster\<close>, the others are the locals \<open>nNow\<close>, \<open>fOk\<close> and the checks of the
  batch not looked at yet. \<open>Inside\<close> holds the lock, between the clean-up and the test: it
  occurs within an event only. \<open>Aborted\<close> is a thread that ran into undefined behaviour.\<close>

datatype 'a thread =
    Dormant
  | AtTop bool u32 bool
  | Inside bool
  | InWait bool
  | Woken bool
  | Working bool u32 bool "'a list"
  | Finished bool bool
  | Aborted

record 'a cq_sys =
  cq :: "'a chkq"
  thr :: "'a thread list"
  added :: "'a list"
  ran :: "'a list"

datatype 'a cq_event =
    EvStart nat bool
  | EvTop nat "nat option"
  | EvWake nat
  | EvSpurious nat
  | EvRun nat
  | EvAdd "'a list" "nat option"

fun waiting_on :: "bool \<Rightarrow> 'a thread \<Rightarrow> bool" where
  "waiting_on m (InWait m') = (m = m')"
| "waiting_on m _ = False"

fun can_start :: "'a thread \<Rightarrow> bool" where
  "can_start Dormant = True"
| "can_start (Finished m r) = True"
| "can_start _ = False"

text \<open>\<open>cond.notify_one()\<close> on the master's (\<open>True\<close>) or the workers' condition variable: some
  waiter, named by the argument, becomes runnable; without a waiter nothing happens.\<close>

definition notify_one :: "bool \<Rightarrow> nat option \<Rightarrow> 'a thread list \<Rightarrow> 'a thread list option" where
  "notify_one m c ts =
     (case c of
        None \<Rightarrow> if list_ex (waiting_on m) ts then None else Some ts
      | Some j \<Rightarrow> if j < length ts \<and> waiting_on m (ts ! j) then Some (ts[j := Woken m]) else None)"

definition notify_all :: "bool \<Rightarrow> 'a thread list \<Rightarrow> 'a thread list" where
  "notify_all m ts = map (\<lambda>t. if waiting_on m t then Woken m else t) ts"

fun after :: "bool \<Rightarrow> 'a outcome \<Rightarrow> 'a thread" where
  "after m (Return r) = Finished m r"
| "after m CondWait = InWait m"
| "after m (Batch n ok vs) = Working m n ok vs"
| "after m Undefined = Aborted"

text \<open>The end of thread \<open>i\<close>'s critical section. A master that returns starts a new history.\<close>

definition settle ::
  "bool \<Rightarrow> nat \<Rightarrow> 'a chkq \<Rightarrow> 'a outcome \<Rightarrow> 'a thread list \<Rightarrow> 'a cq_sys \<Rightarrow> 'a cq_sys" where
  "settle m i q out ts s =
     (let s' = s\<lparr>cq := q, thr := ts[i := after m out]\<rparr>
      in case out of Return r \<Rightarrow> (if m then s'\<lparr>added := [], ran := []\<rparr> else s') | _ \<Rightarrow> s')"

fun cq_step :: "'a check_ops \<Rightarrow> 'a cq_event \<Rightarrow> 'a cq_sys \<Rightarrow> 'a cq_sys option" where
  "cq_step T (EvStart i m) s =
     (if i < length (thr s) \<and> can_start (thr s ! i)
      then Some (s\<lparr>thr := (thr s)[i := AtTop m 0 True]\<rparr>) else None)"
| "cq_step T (EvTop i c) s =
     (if i < length (thr s) then
        (case thr s ! i of
           AtTop m nNow fOk \<Rightarrow>
             (let (q, notify, out) = loop_top T m nNow fOk (cq s)
              in map_option (\<lambda>ts. settle m i q out ts s)
                   (if notify then notify_one True c (thr s) else Some (thr s)))
         | _ \<Rightarrow> None)
      else None)"
| "cq_step T (EvWake i) s =
     (if i < length (thr s) then
        (case thr s ! i of
           Woken m \<Rightarrow> (let (q, out) = loop_wake T m (cq s) in Some (settle m i q out (thr s) s))
         | _ \<Rightarrow> None)
      else None)"
| "cq_step T (EvSpurious i) s =
     (if i < length (thr s) then
        (case thr s ! i of InWait m \<Rightarrow> Some (s\<lparr>thr := (thr s)[i := Woken m]\<rparr>) | _ \<Rightarrow> None)
      else None)"
| "cq_step T (EvRun i) s =
     (if i < length (thr s) then
        (case thr s ! i of
           Working m n ok [] \<Rightarrow> Some (s\<lparr>thr := (thr s)[i := AtTop m n ok]\<rparr>)
         | Working m n ok (c # cs) \<Rightarrow>
             Some (s\<lparr>thr := (thr s)[i := Working m n (check_step T ok c) cs],
                     ran := (if ok then c # ran s else ran s)\<rparr>)
         | _ \<Rightarrow> None)
      else None)"
| "cq_step T (EvAdd vs c) s =
     (let (vs', q, nt) = Add T vs (cq s)
      in map_option (\<lambda>ts. s\<lparr>cq := q, thr := ts, added := added s @ vs\<rparr>)
           (case nt of
              NoNotify \<Rightarrow> Some (thr s)
            | NotifyOne \<Rightarrow> notify_one False c (thr s)
            | NotifyAll \<Rightarrow> Some (notify_all False (thr s))))"

fun cq_run :: "'a check_ops \<Rightarrow> 'a cq_event list \<Rightarrow> 'a cq_sys \<Rightarrow> 'a cq_sys option" where
  "cq_run T [] s = Some s"
| "cq_run T (e # es) s = Option.bind (cq_step T e s) (cq_run T es)"

section \<open>What a thread contributes\<close>

fun live_n :: "'a thread \<Rightarrow> nat" where
  "live_n (AtTop m n ok) = (if n = 0 then 0 else 1)"
| "live_n (Inside m) = 1"
| "live_n (InWait m) = 1"
| "live_n (Woken m) = 1"
| "live_n (Working m n ok vs) = 1"
| "live_n _ = 0"

fun idle_n :: "'a thread \<Rightarrow> nat" where
  "idle_n (InWait m) = 1"
| "idle_n (Woken m) = 1"
| "idle_n _ = 0"

fun inflight :: "'a thread \<Rightarrow> nat" where
  "inflight (AtTop m n ok) = unat n"
| "inflight (Working m n ok vs) = unat n"
| "inflight _ = 0"

fun unseen :: "'a thread \<Rightarrow> 'a multiset" where
  "unseen (Working m n ok vs) = mset vs"
| "unseen _ = {#}"

fun bad :: "'a check_ops \<Rightarrow> 'a thread \<Rightarrow> nat" where
  "bad T (AtTop m n ok) = (if ok then 0 else 1)"
| "bad T (Working m n ok vs) = (if ok \<and> (\<forall>c \<in> set vs. run_check T c) then 0 else 1)"
| "bad T _ = 0"

fun master_n :: "'a thread \<Rightarrow> nat" where
  "master_n (AtTop m n ok) = (if m then 1 else 0)"
| "master_n (Inside m) = (if m then 1 else 0)"
| "master_n (InWait m) = (if m then 1 else 0)"
| "master_n (Woken m) = (if m then 1 else 0)"
| "master_n (Working m n ok vs) = (if m then 1 else 0)"
| "master_n _ = 0"

fun waits_n :: "bool \<Rightarrow> 'a thread \<Rightarrow> nat" where
  "waits_n m (InWait m') = (if m = m' then 1 else 0)"
| "waits_n m _ = 0"

fun active_n :: "'a thread \<Rightarrow> nat" where
  "active_n (AtTop m n ok) = 1"
| "active_n (Inside m) = 1"
| "active_n (Woken m) = 1"
| "active_n (Working m n ok vs) = 1"
| "active_n _ = 0"

fun wf_thread :: "'a thread \<Rightarrow> bool" where
  "wf_thread (AtTop m n ok) = (n = 0 \<longrightarrow> ok)"
| "wf_thread (Working m n ok vs) = (n \<noteq> 0 \<and> length vs \<le> unat n)"
| "wf_thread Aborted = False"
| "wf_thread _ = True"

text \<open>The checks not accounted for yet: queued, or in some thread's batch.\<close>

definition pending :: "'a cq_sys \<Rightarrow> nat" where
  "pending s = length (queue (cq s)) + tsum inflight (thr s)"

section \<open>The clients' protocol and the reachable states\<close>

text \<open>
  The class comment's assumption: one master, which adds its batches before it waits. The
  controller's mutex enforces it. \<open>nTodo\<close> is 32 bits wide, so fewer than \<open>2 ^ 32\<close> checks
  may be pending.
\<close>

fun client_ok :: "'a cq_event \<Rightarrow> 'a cq_sys \<Rightarrow> bool" where
  "client_ok (EvStart i m) s = (m \<longrightarrow> tsum master_n (thr s) = 0)"
| "client_ok (EvAdd vs c) s = (tsum master_n (thr s) = 0 \<and> pending s + length vs < 2 ^ 32)"
| "client_ok _ s = True"

definition cq_init :: "u32 \<Rightarrow> nat \<Rightarrow> 'a cq_sys" where
  "cq_init b n = \<lparr>cq = new_CCheckQueue b, thr = replicate n Dormant, added = [], ran = []\<rparr>"

inductive cq_reach :: "'a check_ops \<Rightarrow> u32 \<Rightarrow> nat \<Rightarrow> 'a cq_sys \<Rightarrow> bool" for T b n where
  init: "cq_reach T b n (cq_init b n)"
| step: "cq_reach T b n s \<Longrightarrow> client_ok e s \<Longrightarrow> cq_step T e s = Some s' \<Longrightarrow> cq_reach T b n s'"

text \<open>A run of events that respect the protocol, as a function: each run it accepts leads to a
  reachable state.\<close>

fun cq_play :: "'a check_ops \<Rightarrow> 'a cq_event list \<Rightarrow> 'a cq_sys \<Rightarrow> 'a cq_sys option" where
  "cq_play T [] s = Some s"
| "cq_play T (e # es) s =
     (if client_ok e s then Option.bind (cq_step T e s) (cq_play T es) else None)"

lemma play_reach: "cq_reach T b n s \<Longrightarrow> cq_play T es s = Some s' \<Longrightarrow> cq_reach T b n s'"
  by (induction es arbitrary: s)
    (auto simp: bind_eq_Some_conv split: if_splits intro: cq_reach.step)

lemmas play_init = play_reach [OF cq_reach.init]

section \<open>The invariant\<close>

definition counters_ok :: "'a cq_sys \<Rightarrow> bool" where
  "counters_ok s \<longleftrightarrow>
     nTotal (cq s) = int (tsum live_n (thr s)) \<and> nIdle (cq s) = int (tsum idle_n (thr s))"

definition todo_ok :: "'a cq_sys \<Rightarrow> bool" where
  "todo_ok s \<longleftrightarrow> nTodo (cq s) = of_nat (pending s) \<and> pending s < 2 ^ 32"

definition all_pass :: "'a check_ops \<Rightarrow> 'a list \<Rightarrow> bool" where
  "all_pass T cs = list_all (run_check T) cs"

definition verdict_ok :: "'a check_ops \<Rightarrow> 'a cq_sys \<Rightarrow> bool" where
  "verdict_ok T s \<longleftrightarrow>
     (fAllOk (cq s) \<and> all_pass T (queue (cq s)) \<and> tsum (bad T) (thr s) = 0) = all_pass T (added s)"

definition jobs_ok :: "'a check_ops \<Rightarrow> 'a cq_sys \<Rightarrow> bool" where
  "jobs_ok T s \<longleftrightarrow>
     (let accounted = mset (ran s) + mset (queue (cq s)) + tsum unseen (thr s)
      in accounted \<subseteq># mset (added s) \<and> (all_pass T (added s) \<longrightarrow> accounted = mset (added s)))"

definition master_ok :: "'a cq_sys \<Rightarrow> bool" where
  "master_ok s \<longleftrightarrow>
     tsum master_n (thr s) \<le> 1 \<and>
     (0 < tsum (waits_n True) (thr s) \<longrightarrow> queue (cq s) = [] \<and> nTodo (cq s) \<noteq> 0)"

definition awake_ok :: "'a cq_sys \<Rightarrow> bool" where
  "awake_ok s \<longleftrightarrow>
     (queue (cq s) \<noteq> [] \<longrightarrow> 0 < tsum (waits_n False) (thr s) \<longrightarrow> 0 < tsum active_n (thr s))"

definition threads_ok :: "'a cq_sys \<Rightarrow> bool" where
  "threads_ok s \<longleftrightarrow> (\<forall>t \<in> set (thr s). wf_thread t) \<and> \<not> fQuit (cq s)"

definition cq_inv :: "'a check_ops \<Rightarrow> 'a cq_sys \<Rightarrow> bool" where
  "cq_inv T s \<longleftrightarrow>
     counters_ok s \<and> todo_ok s \<and> verdict_ok T s \<and> jobs_ok T s \<and> master_ok s \<and> awake_ok s \<and>
     threads_ok s"

section \<open>Notifications\<close>

lemma waiting_onE: "waiting_on m t \<longleftrightarrow> t = InWait m"
  by (cases t) auto

lemma waits_n_pos: "0 < waits_n m t \<longleftrightarrow> t = InWait m"
  by (cases t) auto

lemma no_waiter_iff: "\<not> list_ex (waiting_on m) ts \<longleftrightarrow> tsum (waits_n m) ts = 0"
proof -
  have "waiting_on m t \<longleftrightarrow> waits_n m t \<noteq> 0" for t :: "'a thread"
    using waits_n_pos [of m t] by (simp add: waiting_onE)
  then show ?thesis by (auto simp: list_ex_iff tsum_eq_0_iff)
qed

lemma notify_oneE:
  assumes "notify_one m c ts = Some ts'"
  obtains (nobody) "ts' = ts" "tsum (waits_n m) ts = 0"
  | (woken) j where "j < length ts" "ts ! j = InWait m" "ts' = ts[j := Woken m]"
proof (cases c)
  case None
  with assms have "\<not> list_ex (waiting_on m) ts" and "ts' = ts"
    by (auto simp: notify_one_def split: if_splits)
  then show ?thesis using nobody by (simp add: no_waiter_iff)
next
  case (Some j)
  with assms show ?thesis
    by (auto simp: notify_one_def waiting_onE split: if_splits intro: woken)
qed

text \<open>A notification leaves every contribution alone that does not tell a waiter from a
  notified thread.\<close>

lemma notify_one_tsum:
  fixes f :: "'a thread \<Rightarrow> 'b::cancel_comm_monoid_add"
  assumes "notify_one m c ts = Some ts'" "\<And>m. f (Woken m) = f (InWait m)"
  shows "tsum f ts' = tsum f ts"
  using assms(1) by (cases rule: notify_oneE) (auto simp: tsum_update_same assms(2))

lemma notify_all_tsum:
  fixes f :: "'a thread \<Rightarrow> 'b::cancel_comm_monoid_add"
  assumes "\<And>m. f (Woken m) = f (InWait m)"
  shows "tsum f (notify_all m ts) = tsum f ts"
  unfolding notify_all_def using assms by (intro tsum_map_same) (auto simp: waiting_onE)

lemma notify_one_length: "notify_one m c ts = Some ts' \<Longrightarrow> length ts' = length ts"
  by (auto elim: notify_oneE)

lemma notify_all_length: "length (notify_all m ts) = length ts"
  by (simp add: notify_all_def)

lemma notify_one_nth:
  "notify_one m c ts = Some ts' \<Longrightarrow> \<forall>m. ts ! i \<noteq> InWait m \<Longrightarrow> ts' ! i = ts ! i"
  by (auto elim!: notify_oneE simp: nth_list_update)

lemma notify_one_wf:
  "notify_one m c ts = Some ts' \<Longrightarrow> \<forall>t \<in> set ts. wf_thread t \<Longrightarrow> \<forall>t \<in> set ts'. wf_thread t"
  by (auto elim!: notify_oneE dest!: set_update_subset_insert [THEN subsetD])

lemma notify_all_wf: "\<forall>t \<in> set ts. wf_thread t \<Longrightarrow> \<forall>t \<in> set (notify_all m ts). wf_thread t"
  by (auto simp: notify_all_def)

lemma waits_n_0_iff: "waits_n m t = 0 \<longleftrightarrow> t \<noteq> InWait m"
  using waits_n_pos [of m t] by auto

lemma notify_one_waits:
  assumes "notify_one m c ts = Some ts'"
  shows "tsum (waits_n m) ts' = tsum (waits_n m) ts - 1 \<and>
    tsum (waits_n (\<not> m)) ts' = tsum (waits_n (\<not> m)) ts \<and>
    (0 < tsum (waits_n m) ts \<longrightarrow> tsum active_n ts' = tsum active_n ts + 1) \<and>
    tsum active_n ts \<le> tsum active_n ts'"
  using assms
proof (cases rule: notify_oneE)
  case nobody
  then show ?thesis by simp
next
  case (woken j)
  have *: "tsum f ts' + f (InWait m) = tsum f ts + f (Woken m)" for f :: "'a thread \<Rightarrow> nat"
    using tsum_update [of j ts f "Woken m"] woken by simp
  show ?thesis
    using * [of "waits_n m"] * [of "waits_n (\<not> m)"] * [of active_n] by auto
qed

lemma notify_all_waits:
  "tsum (waits_n m) (notify_all m ts) = 0"
  "tsum (waits_n (\<not> m)) (notify_all m ts) = tsum (waits_n (\<not> m)) ts"
  by (induction ts) (auto simp: notify_all_def waiting_onE waits_n_0_iff)

lemma notify_all_active:
  "tsum active_n (notify_all m ts) = tsum active_n ts + tsum (waits_n m) ts"
proof (induction ts)
  case (Cons t ts)
  then show ?case by (cases t) (auto simp: notify_all_def)
qed (simp add: notify_all_def)

section \<open>Every event keeps the invariant\<close>

lemmas cq_inv_defs = cq_inv_def counters_ok_def todo_ok_def pending_def verdict_ok_def jobs_ok_def
  master_ok_def awake_ok_def threads_ok_def

lemma all_pass_simps [simp]:
  "all_pass T []"
  "all_pass T (c # cs) \<longleftrightarrow> run_check T c \<and> all_pass T cs"
  "all_pass T (cs @ ds) \<longleftrightarrow> all_pass T cs \<and> all_pass T ds"
  "all_pass T (rev cs) \<longleftrightarrow> all_pass T cs"
  by (auto simp: all_pass_def list_all_iff)

lemma live_le_1: "live_n t \<le> 1" and idle_le_live: "idle_n t \<le> live_n t"
  by (cases t; simp)+

lemma tsum_mono_n: "(\<And>x. f x \<le> g x) \<Longrightarrow> tsum f xs \<le> (tsum g xs :: nat)"
  by (induction xs) (auto simp: add_mono)

text \<open>Without a check in flight no batch is open and nothing is left to record.\<close>

lemma no_inflight:
  assumes "tsum inflight ts = 0" "\<forall>t \<in> set ts. wf_thread t"
  shows "tsum unseen ts = {#}" "tsum (bad T) ts = 0"
proof -
  have "unseen t = {#} \<and> bad T t = 0" if "t \<in> set ts" for t
  proof -
    have "inflight t = 0" "wf_thread t" using that assms by (auto simp: tsum_eq_0_iff)
    then show ?thesis by (cases t) (auto simp: unat_eq_zero)
  qed
  then show "tsum unseen ts = {#}" "tsum (bad T) ts = 0"
    by (induction ts) auto
qed

lemma batch_size_defined_if:
  assumes "counters_ok s" "2 * length (thr s) + 1 < 2 ^ 31"
  shows "batch_size (cq s) \<noteq> None"
proof -
  have "tsum live_n (thr s) \<le> 1 * length (thr s)"
    by (rule tsum_le_length) (rule live_le_1)
  moreover have "tsum idle_n (thr s) \<le> tsum live_n (thr s)"
    by (rule tsum_mono_n) (rule idle_le_live)
  ultimately have "nTotal (cq s) + nIdle (cq s) + 1 < 2 ^ 32" "0 < nTotal (cq s) + nIdle (cq s) + 1"
    using assms by (auto simp: counters_ok_def)
  then show ?thesis using batch_size_defined [of "cq s"] by auto
qed

lemma of_nat_u32_0: "(of_nat n :: u32) = 0 \<Longrightarrow> n < 2 ^ 32 \<Longrightarrow> n = 0"
  by (auto simp: word_of_nat_eq_0_iff dest: dvd_imp_le)

lemma todo_zero: "todo_ok s \<Longrightarrow> nTodo (cq s) = 0 \<Longrightarrow> pending s = 0"
  unfolding todo_ok_def by (metis of_nat_u32_0)

lemma own_update:
  fixes f :: "'a thread \<Rightarrow> nat"
  shows "i < length ts \<Longrightarrow> ts ! i = t \<Longrightarrow> tsum f (ts[i := x]) + f t = tsum f ts + f x"
  using tsum_update [of i ts f x] by simp

lemma own_update_unseen:
  "i < length ts \<Longrightarrow> ts ! i = t \<Longrightarrow> tsum unseen (ts[i := x]) + unseen t = tsum unseen ts + unseen x"
  using tsum_update [of i ts unseen x] by simp

lemma wf_update:
  "\<forall>t \<in> set ts. wf_thread t \<Longrightarrow> wf_thread x \<Longrightarrow> \<forall>t \<in> set (ts[i := x]). wf_thread t"
  by (auto dest!: set_update_subset_insert [THEN subsetD])

text \<open>The three regular ways out of the test, for a thread that holds the lock.\<close>

lemma inside_return:
  assumes inv: "cq_inv T s" and i: "i < length (thr s)" "thr s ! i = Inside True"
    and z: "queue (cq s) = []" "nTodo (cq s) = 0"
  shows "cq_inv T (s\<lparr>cq := (cq s)\<lparr>nTotal := nTotal (cq s) - 1, fAllOk := True\<rparr>,
    thr := (thr s)[i := Finished True r], added := [], ran := []\<rparr>)"
proof -
  define ts where "ts = (thr s)[i := Finished True r]"
  have "pending s = 0" using z inv todo_zero by (auto simp: cq_inv_def)
  then have "tsum inflight (thr s) = 0" by (simp add: pending_def)
  then have none: "tsum unseen (thr s) = {#}" "tsum (bad T) (thr s) = 0"
    using inv no_inflight [of "thr s"] by (auto simp: cq_inv_def threads_ok_def)
  have "tsum f ts + f (Inside True) = tsum f (thr s) + f (Finished True r)" for f :: "'a thread \<Rightarrow> nat"
    unfolding ts_def using i by (rule own_update)
  note up = this [of live_n] this [of idle_n] this [of inflight] this [of "bad T"] this [of master_n]
    this [of "waits_n True"] this [of "waits_n False"] own_update_unseen [OF i, of "Finished True r"]
  have "\<forall>t \<in> set ts. wf_thread t"
    unfolding ts_def using inv by (intro wf_update) (simp_all add: cq_inv_def threads_ok_def)
  then show ?thesis
    using inv z up none unfolding ts_def [symmetric] by (auto simp: cq_inv_defs)
qed

lemma inside_sleep:
  assumes inv: "cq_inv T s" and i: "i < length (thr s)" "thr s ! i = Inside m"
    and z: "queue (cq s) = []" "\<not> ((m \<or> fQuit (cq s)) \<and> nTodo (cq s) = 0)"
  shows "cq_inv T (s\<lparr>cq := (cq s)\<lparr>nIdle := nIdle (cq s) + 1\<rparr>, thr := (thr s)[i := InWait m]\<rparr>)"
proof -
  define ts where "ts = (thr s)[i := InWait m]"
  have "tsum f ts + f (Inside m) = tsum f (thr s) + f (InWait m)" for f :: "'a thread \<Rightarrow> nat"
    unfolding ts_def using i by (rule own_update)
  note up = this [of live_n] this [of idle_n] this [of inflight] this [of "bad T"] this [of master_n]
    this [of "waits_n True"] own_update_unseen [OF i, of "InWait m", folded ts_def]
  have "\<forall>t \<in> set ts. wf_thread t"
    unfolding ts_def using inv by (intro wf_update) (simp_all add: cq_inv_def threads_ok_def)
  then show ?thesis
    using inv z up unfolding ts_def [symmetric] by (cases m) (auto simp: cq_inv_defs)
qed

lemma inside_batch:
  assumes inv: "cq_inv T s" and i: "i < length (thr s)" "thr s ! i = Inside m"
    and z: "queue (cq s) = q @ rev vs" "n \<noteq> 0" "length vs = unat n"
  shows "cq_inv T (s\<lparr>cq := (cq s)\<lparr>queue := q\<rparr>, thr := (thr s)[i := Working m n (fAllOk (cq s)) vs]\<rparr>)"
    (is "cq_inv T ?s")
proof -
  let ?w = "Working m n (fAllOk (cq s)) vs"
  define ts where "ts = (thr s)[i := ?w]"
  have up: "tsum f ts + f (Inside m) = tsum f (thr s) + f ?w" for f :: "'a thread \<Rightarrow> nat"
    unfolding ts_def using i by (rule own_update)
  have w: "tsum (waits_n b) ts = tsum (waits_n b) (thr s)" for b using up [of "waits_n b"] by simp
  have upm: "tsum unseen ts = tsum unseen (thr s) + mset vs"
    using own_update_unseen [OF i, of ?w, folded ts_def] by simp
  have act: "0 < tsum active_n ts"
    using up [of active_n] tsum_nth_le [OF i(1), of active_n] i(2) by simp
  have wf: "\<forall>t \<in> set ts. wf_thread t" unfolding ts_def
    using inv z by (intro wf_update) (simp_all add: cq_inv_def threads_ok_def)
  have ne: "queue (cq s) \<noteq> []" using z by (auto simp: unat_eq_zero)
  have ts: "thr ?s = ts" by (simp add: ts_def)
  have I: "counters_ok s" "todo_ok s" "verdict_ok T s" "jobs_ok T s" "master_ok s" "threads_ok s"
    using inv by (simp_all add: cq_inv_def)
  have "counters_ok ?s" using I(1) ts up [of live_n] up [of idle_n] by (simp add: counters_ok_def)
  moreover have "pending ?s = pending s" using ts up [of inflight] z by (simp add: pending_def)
  then have "todo_ok ?s" using I(2) by (simp add: todo_ok_def)
  moreover have "verdict_ok T ?s"
    using I(3) ts up [of "bad T"] z(1) by (auto simp: verdict_ok_def all_pass_def list_all_iff)
  moreover have "mset q + tsum unseen ts = mset (queue (cq s)) + tsum unseen (thr s)"
    using upm z by (simp add: ac_simps)
  then have "jobs_ok T ?s" using I(4) ts by (simp add: jobs_ok_def add.assoc)
  moreover have "master_ok ?s" using I(5) w up [of master_n] ts ne by (simp add: master_ok_def)
  moreover have "awake_ok ?s" using act ts by (simp add: awake_ok_def)
  moreover have "threads_ok ?s" using I(6) ts wf by (simp add: threads_ok_def)
  ultimately show ?thesis unfolding cq_inv_def by blast
qed

text \<open>Taking the lock: the clean-up at the top, and the wake-up from a wait.\<close>

lemma waits_le_master: "waits_n True t \<le> master_n t"
  by (cases t) auto

lemma sole_master:
  assumes "tsum master_n ts \<le> 1" "i < length ts" "master_n (ts ! i) = 1" "ts ! i \<noteq> InWait True"
  shows "tsum (waits_n True) ts = 0"
proof (rule ccontr)
  assume "tsum (waits_n True) ts \<noteq> 0"
  then obtain j where j: "j < length ts" "0 < waits_n True (ts ! j)"
    using tsum_pos_ex [of "waits_n True" ts] by auto
  then have "ts ! j = InWait True" by (simp add: waits_n_pos)
  then have "j \<noteq> i" "master_n (ts ! j) = 1" using assms(4) by auto
  then show False using tsum_two_le [of j ts i master_n] j(1) assms(1-3) by simp
qed

lemma wake_inside:
  assumes inv: "cq_inv T s" and i: "i < length (thr s)" "thr s ! i = Woken m"
  shows "cq_inv T (s\<lparr>cq := (cq s)\<lparr>nIdle := nIdle (cq s) - 1\<rparr>, thr := (thr s)[i := Inside m]\<rparr>)"
proof -
  define ts where "ts = (thr s)[i := Inside m]"
  have "tsum f ts + f (Woken m) = tsum f (thr s) + f (Inside m)" for f :: "'a thread \<Rightarrow> nat"
    unfolding ts_def using i by (rule own_update)
  note up = this [of live_n] this [of idle_n] this [of inflight] this [of "bad T"] this [of master_n]
    this [of "waits_n True"] this [of "waits_n False"] this [of active_n]
    own_update_unseen [OF i, of "Inside m", folded ts_def]
  have "\<forall>t \<in> set ts. wf_thread t"
    unfolding ts_def using inv by (intro wf_update) (simp_all add: cq_inv_def threads_ok_def)
  then show ?thesis
    using inv up unfolding ts_def [symmetric] by (auto simp: cq_inv_defs)
qed

lemma enter_first:
  assumes inv: "cq_inv T s" and i: "i < length (thr s)" "thr s ! i = AtTop m 0 ok"
  shows "cq_inv T (s\<lparr>cq := (cq s)\<lparr>nTotal := nTotal (cq s) + 1\<rparr>, thr := (thr s)[i := Inside m]\<rparr>)"
proof -
  define ts where "ts = (thr s)[i := Inside m]"
  have "thr s ! i \<in> set (thr s)" using i(1) by (rule nth_mem)
  then have ok: "ok" using inv i(2) by (auto simp: cq_inv_def threads_ok_def)
  have "tsum f ts + f (AtTop m 0 ok) = tsum f (thr s) + f (Inside m)" for f :: "'a thread \<Rightarrow> nat"
    unfolding ts_def using i by (rule own_update)
  note up = this [of live_n] this [of idle_n] this [of inflight] this [of "bad T"] this [of master_n]
    this [of "waits_n True"] this [of "waits_n False"] this [of active_n]
    own_update_unseen [OF i, of "Inside m", folded ts_def]
  have "\<forall>t \<in> set ts. wf_thread t"
    unfolding ts_def using inv by (intro wf_update) (simp_all add: cq_inv_def threads_ok_def)
  then show ?thesis
    using inv up ok unfolding ts_def [symmetric] by (auto simp: cq_inv_defs)
qed

lemma enter_again:
  assumes inv: "cq_inv T s" and i: "i < length (thr s)" "thr s ! i = AtTop m n ok" and n: "n \<noteq> 0"
    and ts: "(if nTodo (cq s) - n = 0 \<and> \<not> m then notify_one True c (thr s) else Some (thr s)) = Some ts"
  shows "cq_inv T (s\<lparr>cq := (cq s)\<lparr>fAllOk := fAllOk (cq s) \<and> ok, nTodo := nTodo (cq s) - n\<rparr>,
    thr := ts[i := Inside m]\<rparr>)" (is "cq_inv T ?s")
proof -
  define ts' where "ts' = ts[i := Inside m]"
  have same: "tsum f ts = tsum f (thr s)" if "\<And>m. f (Woken m) = f (InWait m)"
    for f :: "'a thread \<Rightarrow> 'b::cancel_comm_monoid_add"
    using ts that by (auto split: if_splits dest: notify_one_tsum)
  have i': "i < length ts" "ts ! i = AtTop m n ok"
    using ts i by (auto split: if_splits dest: notify_one_length notify_one_nth [where i = i])
  have up: "tsum f ts' + f (AtTop m n ok) = tsum f ts + f (Inside m)" for f :: "'a thread \<Rightarrow> nat"
    unfolding ts'_def using i' by (rule own_update)
  have upm: "tsum unseen ts' = tsum unseen (thr s)"
    using own_update_unseen [OF i', of "Inside m", folded ts'_def] same [of unseen] by simp
  have pend: "pending s = pending ?s + unat n"
    using up [of inflight] same [of inflight] by (simp add: pending_def ts'_def)
  have mast: "tsum master_n (thr s) \<le> 1" and waits: "tsum (waits_n True) (thr s) \<le> tsum master_n (thr s)"
    using inv tsum_mono_n [of "waits_n True" master_n, OF waits_le_master]
    by (auto simp: cq_inv_def master_ok_def)
  have sole: "m \<Longrightarrow> tsum (waits_n True) (thr s) = 0"
    using sole_master [OF mast i(1)] i(2) by simp
  have I: "counters_ok s" "todo_ok s" "verdict_ok T s" "jobs_ok T s" "master_ok s" "threads_ok s"
    using inv by (simp_all add: cq_inv_def)
  have tt: "thr ?s = ts'" by (simp add: ts'_def)
  have "counters_ok ?s"
    using I(1) tt n up [of live_n] up [of idle_n] same [of live_n] same [of idle_n]
    by (simp add: counters_ok_def)
  moreover obtain k where k: "pending ?s = k" by blast
  then have "todo_ok ?s" using I(2) pend unfolding todo_ok_def k by simp
  moreover have "verdict_ok T ?s"
    using I(3) tt up [of "bad T"] same [of "bad T"]
    by (auto simp: verdict_ok_def split: if_split_asm)
  moreover have "jobs_ok T ?s" using I(4) tt upm by (simp add: jobs_ok_def)
  moreover have "master_ok ?s"
  proof -
    have "tsum (waits_n True) ts' = tsum (waits_n True) ts" using up [of "waits_n True"] by simp
    moreover have "nTodo (cq s) - n = 0 \<Longrightarrow> tsum (waits_n True) ts = 0"
      using ts notify_one_waits [of True c "thr s" ts] mast waits sole by (cases m) auto
    moreover have "tsum (waits_n True) ts \<le> tsum (waits_n True) (thr s)"
      using ts notify_one_waits [of True c "thr s" ts] by (auto split: if_splits)
    ultimately show ?thesis
      using I(5) up [of master_n] same [of master_n] by (auto simp: master_ok_def ts'_def)
  qed
  moreover have "awake_ok ?s" using tt up [of active_n] tsum_nth_le [OF i'(1), of active_n] i'(2)
    by (simp add: awake_ok_def)
  moreover have "\<forall>t \<in> set ts'. wf_thread t" unfolding ts'_def
    using I(6) ts by (intro wf_update) (auto simp: threads_ok_def split: if_splits dest: notify_one_wf)
  then have "threads_ok ?s" using I(6) tt by (simp add: threads_ok_def)
  ultimately show ?thesis unfolding cq_inv_def by blast
qed

text \<open>The events outside the critical sections of \<open>Loop\<close>.\<close>

lemma start_inv:
  assumes inv: "cq_inv T s" and i: "i < length (thr s)" "can_start (thr s ! i)"
    and m: "m \<longrightarrow> tsum master_n (thr s) = 0"
  shows "cq_inv T (s\<lparr>thr := (thr s)[i := AtTop m 0 True]\<rparr>)"
proof -
  define ts where "ts = (thr s)[i := AtTop m 0 True]"
  have zero: "f (thr s ! i) = 0" if "f Dormant = 0" "\<And>m r. f (Finished m r) = 0"
    for f :: "'a thread \<Rightarrow> 'b::zero"
    using i(2) that by (cases "thr s ! i") auto
  have "tsum f ts + f (thr s ! i) = tsum f (thr s) + f (AtTop m 0 True)" for f :: "'a thread \<Rightarrow> nat"
    unfolding ts_def using i by (intro own_update) simp_all
  note up = this [of live_n] this [of idle_n] this [of inflight] this [of "bad T"] this [of master_n]
    this [of "waits_n True"] this [of "waits_n False"] this [of active_n]
    own_update_unseen [OF i(1) refl, of "AtTop m 0 True", folded ts_def]
  note zs = zero [of live_n] zero [of idle_n] zero [of inflight] zero [of "bad T"] zero [of master_n]
    zero [of "waits_n True"] zero [of "waits_n False"] zero [of active_n] zero [of unseen]
  have "tsum (waits_n True) (thr s) \<le> tsum master_n (thr s)"
    by (rule tsum_mono_n) (rule waits_le_master)
  moreover have "\<forall>t \<in> set ts. wf_thread t"
    unfolding ts_def using inv by (intro wf_update) (simp_all add: cq_inv_def threads_ok_def)
  ultimately show ?thesis
    using inv up zs m unfolding ts_def [symmetric] by (cases m) (auto simp: cq_inv_defs)
qed

lemma spurious_inv:
  assumes inv: "cq_inv T s" and i: "i < length (thr s)" "thr s ! i = InWait m"
  shows "cq_inv T (s\<lparr>thr := (thr s)[i := Woken m]\<rparr>)"
proof -
  define ts where "ts = (thr s)[i := Woken m]"
  have "tsum f ts + f (InWait m) = tsum f (thr s) + f (Woken m)" for f :: "'a thread \<Rightarrow> nat"
    unfolding ts_def using i by (rule own_update)
  note up = this [of live_n] this [of idle_n] this [of inflight] this [of "bad T"] this [of master_n]
    this [of "waits_n True"] this [of "waits_n False"] this [of active_n]
    own_update_unseen [OF i, of "Woken m", folded ts_def]
  have "\<forall>t \<in> set ts. wf_thread t"
    unfolding ts_def using inv by (intro wf_update) (simp_all add: cq_inv_def threads_ok_def)
  then show ?thesis
    using inv up unfolding ts_def [symmetric] by (cases m) (auto simp: cq_inv_defs)
qed

lemma run_nil_inv:
  assumes inv: "cq_inv T s" and i: "i < length (thr s)" "thr s ! i = Working m n ok []"
  shows "cq_inv T (s\<lparr>thr := (thr s)[i := AtTop m n ok]\<rparr>)"
proof -
  define ts where "ts = (thr s)[i := AtTop m n ok]"
  have "thr s ! i \<in> set (thr s)" using i(1) by (rule nth_mem)
  then have n: "n \<noteq> 0" using inv i(2) by (auto simp: cq_inv_def threads_ok_def)
  have "tsum f ts + f (Working m n ok []) = tsum f (thr s) + f (AtTop m n ok)" for f :: "'a thread \<Rightarrow> nat"
    unfolding ts_def using i by (rule own_update)
  note up = this [of live_n] this [of idle_n] this [of inflight] this [of "bad T"] this [of master_n]
    this [of "waits_n True"] this [of "waits_n False"] this [of active_n]
    own_update_unseen [OF i, of "AtTop m n ok", folded ts_def]
  have "\<forall>t \<in> set ts. wf_thread t"
    unfolding ts_def using inv n by (intro wf_update) (simp_all add: cq_inv_def threads_ok_def)
  then show ?thesis
    using inv up n unfolding ts_def [symmetric] by (auto simp: cq_inv_defs)
qed

lemma run_check_inv:
  assumes inv: "cq_inv T s" and i: "i < length (thr s)" "thr s ! i = Working m n ok (c # cs)"
  shows "cq_inv T (s\<lparr>thr := (thr s)[i := Working m n (check_step T ok c) cs],
    ran := (if ok then c # ran s else ran s)\<rparr>)" (is "cq_inv T ?s")
proof -
  let ?w = "Working m n (check_step T ok c) cs"
  define ts where "ts = (thr s)[i := ?w]"
  have "thr s ! i \<in> set (thr s)" using i(1) by (rule nth_mem)
  then have w: "wf_thread ?w" using inv i(2) by (auto simp: cq_inv_def threads_ok_def)
  have up: "tsum f ts + f (Working m n ok (c # cs)) = tsum f (thr s) + f ?w" for f :: "'a thread \<Rightarrow> nat"
    unfolding ts_def using i by (rule own_update)
  have upm: "tsum unseen (thr s) = add_mset c (tsum unseen ts)"
    using own_update_unseen [OF i, of ?w, folded ts_def] by simp
  have bad: "tsum (bad T) ts = tsum (bad T) (thr s)"
    using up [of "bad T"] by (simp add: check_step_def split: if_splits)
  have skip: "\<not> ok \<Longrightarrow> 0 < tsum (bad T) (thr s)"
    using tsum_nth_le [OF i(1), of "bad T"] i(2) by simp
  have I: "counters_ok s" "todo_ok s" "verdict_ok T s" "jobs_ok T s" "master_ok s" "awake_ok s"
    "threads_ok s" using inv by (simp_all add: cq_inv_def)
  have tt: "thr ?s = ts" by (simp add: ts_def)
  have "counters_ok ?s" using I(1) tt up [of live_n] up [of idle_n] by (simp add: counters_ok_def)
  moreover have "todo_ok ?s" using I(2) tt up [of inflight] by (simp add: todo_ok_def pending_def)
  moreover have "verdict_ok T ?s" using I(3) tt bad by (simp add: verdict_ok_def)
  moreover have "jobs_ok T ?s"
    using I(3,4) tt upm skip
    by (cases ok) (auto simp: jobs_ok_def verdict_ok_def Let_def dest: mset_subset_eq_insertD)
  moreover have "master_ok ?s"
    using I(5) tt up [of master_n] up [of "waits_n True"] by (simp add: master_ok_def)
  moreover have "awake_ok ?s" using I(6) tt up [of active_n] up [of "waits_n False"]
    by (simp add: awake_ok_def)
  moreover have "threads_ok ?s"
    using I(7) tt wf_update [OF _ w, of "thr s" i] by (simp add: threads_ok_def)
  ultimately show ?thesis unfolding cq_inv_def by blast
qed

context check_type
begin

lemma test_inv:
  assumes inv: "cq_inv T s" and i: "i < length (thr s)" "thr s ! i = Inside m"
    and test: "loop_test T m (cq s) = (q, out)" and len: "2 * length (thr s) + 1 < 2 ^ 31"
  shows "cq_inv T (settle m i q out (thr s) s)"
  using test
proof (cases rule: loop_test_cases)
  case ret
  then have "m" using inv by (simp add: cq_inv_def threads_ok_def)
  then show ?thesis using ret i inside_return [OF inv] by (simp add: settle_def)
next
  case sleep
  then show ?thesis using i inside_sleep [OF inv] by (simp add: settle_def)
next
  case (batch n q' vs)
  then show ?thesis using i inside_batch [OF inv] by (simp add: settle_def)
next
  case undefined
  with inv len batch_size_defined_if [of s] show ?thesis by (simp add: cq_inv_def)
qed

lemma Add_eq:
  "Add T vs s = (replicate (length vs) (ctor T),
     s\<lparr>queue := queue s @ vs, nTodo := nTodo s + of_nat (length vs)\<rparr>,
     if length vs = 1 then NotifyOne else if 1 < length vs then NotifyAll else NoNotify)"
  by (simp add: Add_def push_jobs_eq)

lemma add_inv:
  assumes inv: "cq_inv T s" and m: "tsum master_n (thr s) = 0" "pending s + length vs < 2 ^ 32"
    and add: "Add T vs (cq s) = (vs', q, nt)"
    and ts: "(case nt of NoNotify \<Rightarrow> Some (thr s) | NotifyOne \<Rightarrow> notify_one False c (thr s)
      | NotifyAll \<Rightarrow> Some (notify_all False (thr s))) = Some ts"
  shows "cq_inv T (s\<lparr>cq := q, thr := ts, added := added s @ vs\<rparr>)" (is "cq_inv T ?s")
proof -
  have q: "q = (cq s)\<lparr>queue := queue (cq s) @ vs, nTodo := nTodo (cq s) + of_nat (length vs)\<rparr>"
    and nt: "nt = (if length vs = 1 then NotifyOne else if 1 < length vs then NotifyAll else NoNotify)"
    using add by (auto simp: Add_eq)
  have same: "tsum f ts = tsum f (thr s)" if "\<And>m. f (Woken m) = f (InWait m)"
    for f :: "'a thread \<Rightarrow> 'b::cancel_comm_monoid_add"
    using ts that notify_one_tsum [of False c "thr s" ts f] notify_all_tsum [of f False "thr s"]
    by (cases nt) auto
  have I: "counters_ok s" "todo_ok s" "verdict_ok T s" "jobs_ok T s" "awake_ok s" "threads_ok s"
    using inv by (simp_all add: cq_inv_def)
  have "counters_ok ?s" using I(1) q same [of live_n] same [of idle_n] by (simp add: counters_ok_def)
  moreover have "pending ?s = pending s + length vs"
    using q same [of inflight] by (simp add: pending_def)
  then have "todo_ok ?s" using I(2) m(2) q by (simp add: todo_ok_def)
  moreover have "verdict_ok T ?s" using I(3) q same [of "bad T"] by (auto simp: verdict_ok_def)
  moreover have "jobs_ok T ?s" using I(4) q same [of unseen] by (simp add: jobs_ok_def Let_def ac_simps)
  moreover have "tsum (waits_n True) ts \<le> tsum master_n ts"
    by (rule tsum_mono_n) (rule waits_le_master)
  then have "master_ok ?s" using m(1) same [of master_n] by (simp add: master_ok_def)
  moreover have "length vs \<noteq> 1 \<Longrightarrow> \<not> 1 < length vs \<Longrightarrow> vs = []" by (cases vs) auto
  then have "awake_ok ?s"
    using I(5) q nt ts notify_one_waits [of False c "thr s" ts] notify_all_waits(1) [of False "thr s"]
    by (auto simp: awake_ok_def split: if_split_asm)
  moreover have "threads_ok ?s"
    using I(6) q ts notify_one_wf [of False c "thr s" ts] notify_all_wf [of "thr s" False]
    by (cases nt) (auto simp: threads_ok_def)
  ultimately show ?thesis unfolding cq_inv_def by blast
qed

text \<open>An event that takes the lock is the entry, with the thread \<open>Inside\<close>, and then the test.\<close>

lemma settle_Inside:
  "settle m i q out (ts[i := Inside m]) (s\<lparr>cq := q1, thr := ts[i := Inside m]\<rparr>) = settle m i q out ts s"
  by (simp add: settle_def split: outcome.split)

lemma top_enters:
  assumes inv: "cq_inv T s" and i: "i < length (thr s)" "thr s ! i = AtTop m n ok"
    and top: "loop_top T m n ok (cq s) = (q, notify, out)"
    and ts: "(if notify then notify_one True c (thr s) else Some (thr s)) = Some ts"
  obtains q1 where "cq_inv T (s\<lparr>cq := q1, thr := ts[i := Inside m]\<rparr>)" "loop_test T m q1 = (q, out)"
    "i < length ts" "queue q1 = queue (cq s)"
proof -
  obtain q1 where clean: "loop_cleanup m n ok (cq s) = (q1, notify)" and test: "loop_test T m q1 = (q, out)"
    using top by (auto simp: loop_top_def split: prod.splits)
  have "i < length ts" using ts i by (auto split: if_splits dest: notify_one_length)
  moreover have "cq_inv T (s\<lparr>cq := q1, thr := ts[i := Inside m]\<rparr>)"
  proof (cases "n = 0")
    case True
    with clean ts enter_first [OF inv i(1)] i(2) show ?thesis by (auto simp: loop_cleanup_def)
  next
    case False
    with clean ts enter_again [OF inv i False, of c ts] show ?thesis
      by (auto simp: loop_cleanup_def Let_def)
  qed
  moreover have "queue q1 = queue (cq s)"
    using clean by (auto simp: loop_cleanup_def Let_def split: if_splits)
  ultimately show ?thesis using that test by blast
qed

lemma top_inv:
  assumes "cq_inv T s" "i < length (thr s)" "thr s ! i = AtTop m n ok"
    and "loop_top T m n ok (cq s) = (q, notify, out)"
    and ts: "(if notify then notify_one True c (thr s) else Some (thr s)) = Some ts"
    and len: "2 * length (thr s) + 1 < 2 ^ 31"
  shows "cq_inv T (settle m i q out ts s)"
proof -
  from assms(1-5) obtain q1 where q1: "cq_inv T (s\<lparr>cq := q1, thr := ts[i := Inside m]\<rparr>)"
    "loop_test T m q1 = (q, out)" "i < length ts" by (rule top_enters)
  have "length ts = length (thr s)" using ts by (auto split: if_splits dest: notify_one_length)
  then show ?thesis using test_inv [OF q1(1), of i m q out] q1 len by (simp add: settle_Inside)
qed

lemma wake_inv:
  assumes inv: "cq_inv T s" and i: "i < length (thr s)" "thr s ! i = Woken m"
    and wake: "loop_wake T m (cq s) = (q, out)" and len: "2 * length (thr s) + 1 < 2 ^ 31"
  shows "cq_inv T (settle m i q out (thr s) s)"
  using test_inv [OF wake_inside [OF inv i], of i m q out] i wake len
  by (simp add: settle_Inside loop_wake_def)

lemma step_inv:
  assumes "cq_inv T s" "client_ok e s" "cq_step T e s = Some s'" "2 * length (thr s) + 1 < 2 ^ 31"
  shows "cq_inv T s'"
  using assms
proof (cases e)
  case (EvStart i m)
  with assms show ?thesis using start_inv [of T s i m] by (auto split: if_splits)
next
  case (EvTop i c)
  with assms show ?thesis
    by (auto split: if_splits thread.splits prod.splits intro!: top_inv)
next
  case (EvWake i)
  with assms show ?thesis by (auto split: if_splits thread.splits prod.splits intro!: wake_inv)
next
  case (EvSpurious i)
  with assms show ?thesis by (auto split: if_splits thread.splits intro!: spurious_inv)
next
  case (EvRun i)
  with assms show ?thesis
    using run_nil_inv [of T s i] run_check_inv [of T s i]
    by (auto split: if_splits thread.splits list.splits)
next
  case (EvAdd vs c)
  with assms show ?thesis using add_inv [of s vs]
    by (auto split: prod.splits)
qed

end

end
