(* ===== verification/CheckQueue_Correct.thy ===== *)
theory CheckQueue_Correct
  imports CheckQueue_System
begin

text \<open>
  What \<open>CCheckQueue\<close> promises, over the reachable states of the thread system: the invariant
  lifted to runs, what a master's return says about the checks, that no wake-up is lost, and
  that \<open>Wait\<close> returns under every schedule.
\<close>

section \<open>Runs\<close>

lemma settle_fields [simp]:
  "thr (settle m i q out ts s) = ts[i := after m out]"
  "cq (settle m i q out ts s) = q"
  by (simp_all add: settle_def Let_def split: outcome.split)

lemma step_length: "cq_step T e s = Some s' \<Longrightarrow> length (thr s') = length (thr s)"
  by (cases "(T, e, s)" rule: cq_step.cases)
    (auto simp: notify_one_length notify_all_length split: if_splits thread.splits prod.splits
      list.splits notification.splits)

lemma reach_length: "cq_reach T b n s \<Longrightarrow> length (thr s) = n"
  by (induction rule: cq_reach.induct) (auto simp: cq_init_def dest: step_length)

fun inside :: "'a thread \<Rightarrow> bool" where
  "inside (Inside m) = True"
| "inside _ = False"

lemma inside_after [simp]: "\<not> inside (after m out)"
  by (cases out) auto

lemma outside_update:
  "\<forall>t \<in> set ts. \<not> inside t \<Longrightarrow> \<not> inside x \<Longrightarrow> \<forall>t \<in> set (ts[i := x]). \<not> inside t"
  by (auto dest!: set_update_subset_insert [THEN subsetD])

lemma outside_notify:
  "notify_one m c ts = Some ts' \<Longrightarrow> \<forall>t \<in> set ts. \<not> inside t \<Longrightarrow> t \<in> set ts' \<Longrightarrow> \<not> inside t"
  "\<forall>t \<in> set ts. \<not> inside t \<Longrightarrow> t \<in> set (notify_all m ts) \<Longrightarrow> \<not> inside t"
  by (auto elim!: notify_oneE simp: notify_all_def dest!: set_update_subset_insert [THEN subsetD])

lemma step_outside:
  "cq_step T e s = Some s' \<Longrightarrow> \<forall>t \<in> set (thr s). \<not> inside t \<Longrightarrow> \<forall>t \<in> set (thr s'). \<not> inside t"
proof (cases e)
  case (EvTop i c)
  assume "cq_step T e s = Some s'" "\<forall>t \<in> set (thr s). \<not> inside t"
  with EvTop show ?thesis
    by (auto split: if_splits thread.splits prod.splits
      dest!: set_update_subset_insert [THEN subsetD] dest: outside_notify(1))
next
  case (EvAdd vs c)
  assume "cq_step T e s = Some s'" "\<forall>t \<in> set (thr s). \<not> inside t"
  with EvAdd show ?thesis
    by (auto split: notification.splits prod.splits dest: outside_notify)
qed (auto split: if_splits thread.splits prod.splits list.splits
      dest!: set_update_subset_insert [THEN subsetD])

lemma reach_outside: "cq_reach T b n s \<Longrightarrow> \<forall>t \<in> set (thr s). \<not> inside t"
  by (induction rule: cq_reach.induct) (auto simp: cq_init_def dest!: step_outside)

lemma init_inv: "cq_inv T (cq_init b n)"
  by (auto simp: cq_inv_defs cq_init_def new_CCheckQueue_def)

text \<open>A thread returns from \<open>Loop\<close> only in its own critical sections.\<close>

lemma notify_one_Finished:
  "notify_one b c ts = Some ts' \<Longrightarrow> i < length ts \<Longrightarrow> ts' ! i = Finished m v \<longleftrightarrow> ts ! i = Finished m v"
  by (auto elim!: notify_oneE simp: nth_list_update split: if_splits)

lemma notify_all_Finished:
  "i < length ts \<Longrightarrow> notify_all b ts ! i = Finished m v \<longleftrightarrow> ts ! i = Finished m v"
  by (auto simp: notify_all_def waiting_onE)

lemma returns_itself:
  assumes "cq_step T e s = Some s'" "i < length (thr s)"
    and "thr s' ! i = Finished m v" "thr s ! i \<noteq> Finished m v"
  shows "(\<exists>c. e = EvTop i c) \<or> e = EvWake i"
  using assms
  by (cases "(T, e, s)" rule: cq_step.cases)
    (auto simp: nth_list_update notify_one_Finished notify_all_Finished notify_one_length
      split: if_splits thread.splits prod.splits list.splits notification.splits)

lemma settle_history:
  "after m out = Finished True v \<Longrightarrow> added (settle m i q out ts s) = [] \<and> ran (settle m i q out ts s) = []"
  by (cases out) (auto simp: settle_def)

text \<open>The events the queue's own threads make on their own, without a new client call and
  without a spurious wake-up.\<close>

fun internal :: "'a cq_event \<Rightarrow> bool" where
  "internal (EvTop i c) = True"
| "internal (EvWake i) = True"
| "internal (EvRun i) = True"
| "internal _ = False"

definition quiescent :: "'a check_ops \<Rightarrow> 'a cq_sys \<Rightarrow> bool" where
  "quiescent T s \<longleftrightarrow> (\<forall>e. internal e \<longrightarrow> cq_step T e s = None)"

lemma notify_one_ex: "\<exists>c ts'. notify_one m c ts = Some ts'"
proof (cases "list_ex (waiting_on m) ts")
  case True
  then obtain j where "j < length ts" "waiting_on m (ts ! j)"
    by (auto simp: list_ex_length)
  then show ?thesis by (intro exI [of _ "Some j"]) (simp add: notify_one_def)
next
  case False
  then show ?thesis by (intro exI [of _ None]) (simp add: notify_one_def)
qed

lemma active_not_quiescent:
  assumes "0 < tsum active_n (thr s)" "\<forall>t \<in> set (thr s). \<not> inside t"
  shows "\<not> quiescent T s"
proof -
  obtain i where i: "i < length (thr s)" "0 < active_n (thr s ! i)"
    using tsum_pos_ex [OF assms(1)] by blast
  have "\<not> inside (thr s ! i)" using assms(2) i(1) by simp
  then have "\<exists>e. internal e \<and> cq_step T e s \<noteq> None"
  proof (cases "thr s ! i")
    case (AtTop m n ok)
    obtain q ntf out where top: "loop_top T m n ok (cq s) = (q, ntf, out)" by (metis prod_cases3)
    obtain c ts' where "notify_one True c (thr s) = Some ts'" using notify_one_ex by blast
    then have "cq_step T (EvTop i c) s \<noteq> None" using i AtTop top by simp
    then show ?thesis by (intro exI [of _ "EvTop i c"]) simp
  next
    case (Woken m)
    then have "cq_step T (EvWake i) s \<noteq> None" using i by (simp split: prod.split)
    then show ?thesis by (intro exI [of _ "EvWake i"]) simp
  next
    case (Working m n ok vs)
    then have "cq_step T (EvRun i) s \<noteq> None" using i by (simp split: list.split)
    then show ?thesis by (intro exI [of _ "EvRun i"]) simp
  qed (use i in auto)
  then show ?thesis by (auto simp: quiescent_def)
qed

text \<open>No wake-up is lost: whoever is in \<open>Loop\<close> while there is something left to do, some
  thread can go on.\<close>

lemma inflight_active: "inflight t \<noteq> 0 \<Longrightarrow> active_n t = 1"
  by (cases t) auto

lemma master_waits_or_active: "master_n t = 1 \<Longrightarrow> active_n t = 1 \<or> t = InWait True"
  by (cases t) (auto split: if_splits)

lemma master_progress:
  assumes inv: "cq_inv T s" and m: "0 < tsum master_n (thr s)"
  shows "0 < tsum active_n (thr s)"
proof -
  obtain i where i: "i < length (thr s)" "0 < master_n (thr s ! i)"
    using tsum_pos_ex [OF m] by blast
  then have "master_n (thr s ! i) = 1" by (cases "thr s ! i") (auto split: if_splits)
  then consider "active_n (thr s ! i) = 1" | "thr s ! i = InWait True"
    using master_waits_or_active by blast
  then show ?thesis
  proof cases
    case 1
    then show ?thesis using tsum_nth_le [OF i(1), of active_n] by simp
  next
    case 2
    then have "0 < tsum (waits_n True) (thr s)" using tsum_nth_le [OF i(1), of "waits_n True"] by simp
    then have "queue (cq s) = []" "nTodo (cq s) \<noteq> 0" using inv by (auto simp: cq_inv_def master_ok_def)
    then have "0 < tsum inflight (thr s)"
      using inv by (auto simp: cq_inv_def todo_ok_def pending_def intro: gr0I)
    then obtain j where "j < length (thr s)" "0 < inflight (thr s ! j)" using tsum_pos_ex by blast
    then show ?thesis using inflight_active tsum_nth_le [of j "thr s" active_n] by fastforce
  qed
qed

section \<open>Every schedule of the internal events is finite\<close>

fun weight :: "'a thread \<Rightarrow> nat" where
  "weight (AtTop m n ok) = 2"
| "weight (Inside m) = 1"
| "weight (Woken m) = 1"
| "weight (Working m n ok vs) = length vs + 3"
| "weight _ = 0"

definition cq_measure :: "'a cq_sys \<Rightarrow> nat" where
  "cq_measure s = 4 * length (queue (cq s)) + tsum weight (thr s)"

lemma notify_one_weight: "notify_one m c ts = Some ts' \<Longrightarrow> tsum weight ts' \<le> tsum weight ts + 1"
  by (erule notify_oneE) (auto simp: own_update [where f = weight and t = "InWait m", simplified])

text \<open>What an internal event does to the threads.\<close>

lemma internal_cases [consumes 2, case_names lock work]:
  assumes "cq_step T e s = Some s'" "internal e"
  obtains i m q out ts where "i < length (thr s)" "(\<exists>n ok. thr s ! i = AtTop m n ok) \<or> thr s ! i = Woken m"
      "ts = thr s \<or> (\<exists>c. notify_one True c (thr s) = Some ts)" "s' = settle m i q out ts s"
  | i m n ok vs t where "i < length (thr s)" "thr s ! i = Working m n ok vs" "thr s' = (thr s)[i := t]"
      "added s' = added s" "(\<exists>k o'. t = AtTop m k o') \<or> (\<exists>k o' ws. t = Working m k o' ws)"
proof (cases e)
  case (EvTop i c)
  with assms obtain m n ok q notify out ts where "i < length (thr s)" "thr s ! i = AtTop m n ok"
    "loop_top T m n ok (cq s) = (q, notify, out)"
    "(if notify then notify_one True c (thr s) else Some (thr s)) = Some ts" "s' = settle m i q out ts s"
    by (auto split: if_splits thread.splits prod.splits)
  then show ?thesis using that(1) [of i m ts q out] by (auto split: if_splits)
next
  case (EvWake i)
  with assms obtain m q out where "i < length (thr s)" "thr s ! i = Woken m"
    "s' = settle m i q out (thr s) s"
    by (auto split: if_splits thread.splits prod.splits)
  then show ?thesis using that(1) [of i m "thr s" q out] by blast
next
  case (EvRun i)
  with assms obtain m n ok vs where t: "i < length (thr s)" "thr s ! i = Working m n ok vs"
    by (auto split: if_splits thread.splits)
  show ?thesis
  proof (cases vs)
    case Nil
    with assms EvRun t show ?thesis using that(2) [of i m n ok vs "AtTop m n ok"] by auto
  next
    case (Cons c cs)
    with assms EvRun t show ?thesis
      using that(2) [of i m n ok vs "Working m n (check_step T ok c) cs"] by auto
  qed
qed (use assms in simp_all)

lemma notified_nth:
  assumes "ts = ts0 \<or> (\<exists>c. notify_one True c ts0 = Some ts)" "i < length ts0"
  shows "length ts = length ts0" "master_n (ts ! i) = master_n (ts0 ! i)"
    "ts ! i = Finished m v \<longleftrightarrow> ts0 ! i = Finished m v"
proof -
  show "length ts = length ts0" using assms(1) by (auto dest: notify_one_length)
  show "master_n (ts ! i) = master_n (ts0 ! i)"
    using assms by (auto elim!: notify_oneE simp: nth_list_update)
  show "ts ! i = Finished m v \<longleftrightarrow> ts0 ! i = Finished m v"
    using assms by (auto dest: notify_one_Finished)
qed

lemma settle_added:
  "added (settle m i q out ts s) \<noteq> added s \<Longrightarrow> m \<and> (\<exists>v. out = Return v)"
  by (cases out) (auto simp: settle_def Let_def split: if_splits)

lemma internal_added:
  assumes "cq_step T e s = Some s'" "internal e" "added s' \<noteq> added s"
  shows "\<exists>j v. j < length (thr s) \<and> master_n (thr s ! j) = 1 \<and> thr s' ! j = Finished True v"
  using assms(1,2)
proof (cases rule: internal_cases)
  case (lock i m q out ts)
  then obtain v where m: "m" "out = Return v" using assms(3) settle_added by metis
  then have "master_n (thr s ! i) = 1" using lock(2) by auto
  moreover have "thr s' ! i = Finished True v" using lock m notified_nth(1) [OF lock(3,1)] by simp
  ultimately show ?thesis using lock(1) by blast
qed (use assms(3) in simp)

lemma master_after: "master_n (after True out) = 1 \<or> (\<exists>v. after True out = Finished True v) \<or> after True out = Aborted"
  by (cases out) auto

lemma internal_master_n:
  assumes "cq_step T e s = Some s'" "internal e" and i: "i < length (thr s)" "master_n (thr s ! i) = 1"
  shows "master_n (thr s' ! i) = 1 \<or> (\<exists>v. thr s' ! i = Finished True v) \<or> thr s' ! i = Aborted"
  using assms(1,2)
proof (cases rule: internal_cases)
  case (lock j m q out ts)
  note ts = notified_nth [OF lock(3) i(1)]
  show ?thesis
  proof (cases "j = i")
    case True
    then have "m" using i(2) lock(2) by (auto split: if_splits)
    then show ?thesis using lock(4) True ts(1) i(1) master_after [of out] by simp
  next
    case False
    then show ?thesis using lock(4) ts i by simp
  qed
next
  case (work j m n ok vs t)
  then show ?thesis using i by (cases "j = i") (auto split: if_splits)
qed

lemma internal_Finished:
  assumes "cq_step T e s = Some s'" "internal e" and i: "i < length (thr s)" "thr s ! i = Finished m v"
  shows "thr s' ! i = Finished m v"
  using assms(1,2)
proof (cases rule: internal_cases)
  case (lock j m' q out ts)
  then have "j \<noteq> i" using i(2) by auto
  then show ?thesis using lock(4) notified_nth(3) [OF lock(3) i(1)] i(2) by simp
next
  case (work j m' n ok vs t)
  then show ?thesis using i by (cases "j = i") simp_all
qed

lemma run_Finished:
  assumes "cq_run T es s = Some s'" "list_all internal es" "i < length (thr s)" "thr s ! i = Finished m v"
  shows "thr s' ! i = Finished m v"
  using assms
proof (induction es arbitrary: s)
  case (Cons e es)
  then obtain s1 where s1: "cq_step T e s = Some s1" "cq_run T es s1 = Some s'" "internal e" "list_all internal es"
    by (auto simp: bind_eq_Some_conv)
  then have "thr s1 ! i = Finished m v" "i < length (thr s1)"
    using Cons.prems internal_Finished step_length by metis+
  then show ?case using Cons.IH s1 by blast
qed simp

context check_type
begin

lemma reach_inv: "cq_reach T b n s \<Longrightarrow> 2 * n + 1 < 2 ^ 31 \<Longrightarrow> cq_inv T s"
proof (induction rule: cq_reach.induct)
  case init
  show ?case by (rule init_inv)
next
  case (step s e s')
  then show ?case using step_inv [of s e s'] reach_length [OF step.hyps(1)] by simp
qed

section \<open>What a master's return means\<close>

text \<open>A thread that holds the lock and finds the exit condition of a master.\<close>

lemma inside_verdict:
  assumes inv: "cq_inv T s" and z: "queue (cq s) = []" "nTodo (cq s) = 0"
  shows "fAllOk (cq s) = all_pass T (added s)" "pending s = 0"
    and "all_pass T (added s) \<Longrightarrow> mset (ran s) = mset (added s)"
proof -
  show p: "pending s = 0" using z inv todo_zero by (auto simp: cq_inv_def)
  then have "tsum inflight (thr s) = 0" by (simp add: pending_def)
  then have none: "tsum unseen (thr s) = {#}" "tsum (bad T) (thr s) = 0"
    using inv no_inflight [of "thr s"] by (auto simp: cq_inv_def threads_ok_def)
  then show "fAllOk (cq s) = all_pass T (added s)"
    using inv z by (simp add: cq_inv_def verdict_ok_def)
  show "mset (ran s) = mset (added s)" if "all_pass T (added s)"
    using inv z none that by (simp add: cq_inv_def jobs_ok_def Let_def)
qed

lemma test_return:
  assumes inv: "cq_inv T s1" and test: "loop_test T m (cq s1) = (q, out)" and fin: "after m out = Finished True v"
  shows "v = all_pass T (added s1) \<and> queue (cq s1) = [] \<and> pending s1 = 0 \<and> fAllOk q \<and>
    (v \<longrightarrow> mset (ran s1) = mset (added s1))"
  using test
proof (cases rule: loop_test_cases)
  case ret
  with inside_verdict [OF inv] fin show ?thesis by simp
qed (use fin in simp_all)

lemma pending_settle:
  assumes "i < length ts" "after m out = Finished True v" "queue q = queue q1"
  shows "pending (settle m i q out ts s) = pending (s\<lparr>cq := q1, thr := ts[i := Inside m]\<rparr>)"
  using assms own_update [of i "ts[i := Inside m]" "Inside m" inflight "Finished True v"]
  by (simp add: pending_def)

lemma returns_locked:
  assumes inv: "cq_inv T s" and i: "i < length (thr s)" and step: "cq_step T e s = Some s'"
    and new: "thr s' ! i = Finished b v" "thr s ! i \<noteq> Finished b v"
  obtains m q q1 out ts where "cq_inv T (s\<lparr>cq := q1, thr := ts[i := Inside m]\<rparr>)"
    "loop_test T m q1 = (q, out)" "i < length ts" "s' = settle m i q out ts s"
    "after m out = Finished b v"
proof -
  have "\<exists>m q q1 out ts. cq_inv T (s\<lparr>cq := q1, thr := ts[i := Inside m]\<rparr>) \<and>
      loop_test T m q1 = (q, out) \<and> i < length ts \<and> s' = settle m i q out ts s"
    using returns_itself [OF step i new]
  proof (elim disjE exE)
    fix c assume e: "e = EvTop i c"
    then obtain m n ok q notify out ts where t: "thr s ! i = AtTop m n ok"
      "loop_top T m n ok (cq s) = (q, notify, out)"
      "(if notify then notify_one True c (thr s) else Some (thr s)) = Some ts"
      "s' = settle m i q out ts s"
      using step i by (auto split: if_splits thread.splits prod.splits)
    from top_enters [OF inv i t(1-3)] show ?thesis using t(4) by metis
  next
    assume e: "e = EvWake i"
    then obtain m q out where t: "thr s ! i = Woken m" "loop_wake T m (cq s) = (q, out)"
      "s' = settle m i q out (thr s) s"
      using step i by (auto split: if_splits thread.splits prod.splits)
    show ?thesis using wake_inside [OF inv i t(1)] t i unfolding loop_wake_def by blast
  qed
  then obtain m q q1 out ts where *: "cq_inv T (s\<lparr>cq := q1, thr := ts[i := Inside m]\<rparr>)"
    "loop_test T m q1 = (q, out)" "i < length ts" "s' = settle m i q out ts s" by blast
  have "after m out = Finished b v" using new(1) *(3,4) by simp
  then show ?thesis using * that by blast
qed

lemma step_return:
  assumes inv: "cq_inv T s" and i: "i < length (thr s)" and step: "cq_step T e s = Some s'"
    and new: "thr s' ! i = Finished True v" "thr s ! i \<noteq> Finished True v"
  shows "v = all_pass T (added s) \<and> (v \<longrightarrow> mset (ran s) = mset (added s)) \<and>
    pending s' = 0 \<and> fAllOk (cq s') \<and> added s' = []"
proof -
  from returns_locked [OF inv i step new]
  obtain m q q1 out ts where *: "cq_inv T (s\<lparr>cq := q1, thr := ts[i := Inside m]\<rparr>)"
    "loop_test T m q1 = (q, out)" "i < length ts" "s' = settle m i q out ts s"
    "after m out = Finished True v" .
  have t: "v = all_pass T (added s)" "queue q1 = []" "fAllOk q" "v \<longrightarrow> mset (ran s) = mset (added s)"
    "pending (s\<lparr>cq := q1, thr := ts[i := Inside m]\<rparr>) = 0"
    using test_return [OF *(1), of m q out v] *(2,5) by simp_all
  have "queue q = queue q1" using *(2,5) by (cases rule: loop_test_cases) auto
  with t * settle_history [OF *(5)] pending_settle [OF *(3,5), of q q1 s] show ?thesis by simp
qed

lemma step_no_worker_return:
  assumes inv: "cq_inv T s" and step: "cq_step T e s = Some s'" and i: "i < length (thr s)"
    and new: "thr s' ! i = Finished False v"
  shows "thr s ! i = Finished False v"
proof (rule ccontr)
  assume "thr s ! i \<noteq> Finished False v"
  from returns_locked [OF inv i step new this]
  obtain m q q1 out ts where *: "cq_inv T (s\<lparr>cq := q1, thr := ts[i := Inside m]\<rparr>)"
    "loop_test T m q1 = (q, out)" "after m out = Finished False v" by metis
  have "\<not> fQuit q1" using *(1) by (simp add: cq_inv_def threads_ok_def)
  with *(2) show False using *(3) by (cases rule: loop_test_cases) auto
qed

lemma reach_no_worker_return:
  "cq_reach T b n s \<Longrightarrow> 2 * n + 1 < 2 ^ 31 \<Longrightarrow> i < n \<Longrightarrow> thr s ! i \<noteq> Finished False v"
proof (induction rule: cq_reach.induct)
  case init
  then show ?case by (simp add: cq_init_def)
next
  case (step s e s')
  then show ?case
    using step_no_worker_return [of s e s' i v] reach_inv [OF step.hyps(1)] reach_length [OF step.hyps(1)]
    by blast
qed

text \<open>The test never gives more work than it takes off the queue.\<close>

lemma test_measure:
  assumes inv: "cq_inv T s1" and test: "loop_test T m (cq s1) = (q, out)"
  shows "4 * length (queue q) + weight (after m out) \<le> 4 * length (queue (cq s1))"
  using test
proof (cases rule: loop_test_cases)
  case (batch n q' vs)
  then have "0 < unat n" by (simp add: unat_gt_0)
  with batch show ?thesis by simp
qed simp_all

lemma internal_measure:
  assumes inv: "cq_inv T s" and step: "cq_step T e s = Some s'" and e: "internal e"
  shows "cq_measure s' < cq_measure s"
proof (cases e)
  case (EvTop i c)
  then obtain m n ok q notify out ts where t: "i < length (thr s)" "thr s ! i = AtTop m n ok"
    "loop_top T m n ok (cq s) = (q, notify, out)"
    "(if notify then notify_one True c (thr s) else Some (thr s)) = Some ts"
    "s' = settle m i q out ts s"
    using step by (auto split: if_splits thread.splits prod.splits)
  from inv t(1-4) obtain q1 where q1: "cq_inv T (s\<lparr>cq := q1, thr := ts[i := Inside m]\<rparr>)"
    "loop_test T m q1 = (q, out)" "i < length ts" "queue q1 = queue (cq s)" by (rule top_enters)
  have "tsum weight ts \<le> tsum weight (thr s) + 1" "ts ! i = thr s ! i"
    using t by (auto split: if_splits dest: notify_one_weight notify_one_nth [where i = i])
  moreover have "tsum weight (ts[i := after m out]) + weight (ts ! i) = tsum weight ts + weight (after m out)"
    using q1(3) by (intro own_update) simp_all
  ultimately show ?thesis
    using test_measure [OF q1(1), of m q out] q1 t by (simp add: cq_measure_def)
next
  case (EvWake i)
  then obtain m q out where t: "i < length (thr s)" "thr s ! i = Woken m"
    "loop_wake T m (cq s) = (q, out)" "s' = settle m i q out (thr s) s"
    using step by (auto split: if_splits thread.splits prod.splits)
  have "tsum weight ((thr s)[i := after m out]) + 1 = tsum weight (thr s) + weight (after m out)"
    using own_update [OF t(1,2), of weight] by simp
  then show ?thesis
    using test_measure [OF wake_inside [OF inv t(1,2)], of m q out] t
    by (simp add: cq_measure_def loop_wake_def)
next
  case (EvRun i)
  then obtain m n ok vs where t: "i < length (thr s)" "thr s ! i = Working m n ok vs"
    using step by (auto split: if_splits thread.splits)
  show ?thesis
    using EvRun step t own_update [OF t, of weight "AtTop m n ok"]
      own_update [OF t, of weight "Working m n (check_step T ok (hd vs)) (tl vs)"]
    by (cases vs) (auto simp: cq_measure_def)
qed (use e in simp_all)

lemma internal_run_bound:
  assumes "cq_reach T b n s" "2 * n + 1 < 2 ^ 31" "list_all internal es" "cq_run T es s = Some s'"
  shows "cq_reach T b n s' \<and> length es + cq_measure s' \<le> cq_measure s"
  using assms
proof (induction es arbitrary: s)
  case Nil
  then show ?case by simp
next
  case (Cons e es)
  then obtain s1 where s1: "cq_step T e s = Some s1" "cq_run T es s1 = Some s'"
    by (auto simp: bind_eq_Some_conv)
  have e: "internal e" using Cons.prems by simp
  then have "client_ok e s" by (cases e) auto
  then have "cq_reach T b n s1" using Cons.prems(1) s1(1) by (blast intro: cq_reach.step)
  moreover have "cq_measure s1 < cq_measure s"
    using internal_measure [OF _ s1(1) e] reach_inv Cons.prems(1,2) by blast
  ultimately show ?case using Cons.IH [of s1] Cons.prems s1 by simp
qed

text \<open>A master in \<open>Loop\<close> stays there with the same history, until it returns with the verdict.\<close>

lemma one_master:
  assumes "cq_inv T s" "i < length (thr s)" "j < length (thr s)"
    "master_n (thr s ! i) = 1" "master_n (thr s ! j) = 1"
  shows "i = j"
  using assms tsum_two_le [of i "thr s" j master_n] by (auto simp: cq_inv_def master_ok_def)

lemma internal_master:
  assumes reach: "cq_reach T b n s" "2 * n + 1 < 2 ^ 31" and step: "cq_step T e s = Some s'" "internal e"
    and i: "i < n" "master_n (thr s ! i) = 1"
  shows "master_n (thr s' ! i) = 1 \<and> added s' = added s \<or> thr s' ! i = Finished True (all_pass T (added s))"
proof -
  have inv: "cq_inv T s" and len: "length (thr s) = n" using reach reach_inv reach_length by auto
  have "client_ok e s" using step(2) by (cases e) auto
  then have "cq_inv T s'" using step_inv [OF inv _ step(1)] len reach by simp
  moreover have "thr s' ! i \<in> set (thr s')" using i len step_length [OF step(1)] by simp
  ultimately have "wf_thread (thr s' ! i)" unfolding cq_inv_def threads_ok_def by blast
  then have "thr s' ! i \<noteq> Aborted" by auto
  then consider v where "thr s' ! i = Finished True v" | "master_n (thr s' ! i) = 1"
    using internal_master_n [OF step] i len by blast
  then show ?thesis
  proof cases
    case 1
    have "thr s ! i \<noteq> Finished True v" using i(2) by auto
    then have "v = all_pass T (added s)"
      using step_return [OF inv _ step(1) 1] i len by blast
    with 1 show ?thesis by simp
  next
    case 2
    have "added s' = added s"
    proof (rule ccontr)
      assume "added s' \<noteq> added s"
      then obtain j v where j: "j < length (thr s)" "master_n (thr s ! j) = 1" "thr s' ! j = Finished True v"
        using internal_added [OF step] by blast
      then have "j = i" using one_master [OF inv] i len by simp
      with j 2 show False by simp
    qed
    with 2 show ?thesis by simp
  qed
qed

lemma run_verdict:
  assumes "cq_reach T b n s" "2 * n + 1 < 2 ^ 31" "i < n" "master_n (thr s ! i) = 1"
    and "list_all internal es" "cq_run T es s = Some s'" "quiescent T s'"
  shows "thr s' ! i = Finished True (all_pass T (added s))"
  using assms
proof (induction es arbitrary: s)
  case Nil
  then have "cq_inv T s" "\<forall>t \<in> set (thr s). \<not> inside t" and len: "length (thr s) = n"
    using reach_inv reach_outside reach_length by blast+
  moreover have "0 < tsum master_n (thr s)"
    using Nil.prems(3,4) len tsum_nth_le [of i "thr s" master_n] by simp
  ultimately show ?case using master_progress active_not_quiescent Nil.prems by fastforce
next
  case (Cons e es)
  then obtain s1 where s1: "cq_step T e s = Some s1" "cq_run T es s1 = Some s'"
    by (auto simp: bind_eq_Some_conv)
  have e: "internal e" "list_all internal es" using Cons.prems by simp_all
  then have "client_ok e s" by (cases e) auto
  then have r1: "cq_reach T b n s1" using Cons.prems(1) s1(1) by (blast intro: cq_reach.step)
  from internal_master [OF Cons.prems(1,2) s1(1) e(1) Cons.prems(3,4)] show ?case
  proof
    assume "master_n (thr s1 ! i) = 1 \<and> added s1 = added s"
    then show ?thesis using Cons.IH [OF r1 Cons.prems(2,3) _ e(2) s1(2)] Cons.prems(7) by simp
  next
    assume "thr s1 ! i = Finished True (all_pass T (added s))"
    then show ?thesis using run_Finished [OF s1(2) e(2)] reach_length [OF r1] Cons.prems(3) by simp
  qed
qed

lemma quiescent_run_ex:
  assumes "cq_reach T b n s" "2 * n + 1 < 2 ^ 31"
  shows "\<exists>es s'. list_all internal es \<and> cq_run T es s = Some s' \<and> quiescent T s'"
  using assms
proof (induction s rule: measure_induct_rule [where f = cq_measure])
  case (less s)
  show ?case
  proof (cases "quiescent T s")
    case True
    then show ?thesis by (intro exI [of _ "[]"]) simp
  next
    case False
    then obtain e s1 where e: "internal e" "cq_step T e s = Some s1" by (auto simp: quiescent_def)
    then have "client_ok e s" by (cases e) auto
    then have "cq_reach T b n s1" using less.prems(1) e(2) by (blast intro: cq_reach.step)
    moreover have "cq_measure s1 < cq_measure s"
      using internal_measure [OF _ e(2,1)] reach_inv less.prems by blast
    ultimately obtain es s' where "list_all internal es" "cq_run T es s1 = Some s'" "quiescent T s'"
      using less.IH less.prems(2) by blast
    with e show ?thesis by (intro exI [of _ "e # es"] exI [of _ s']) simp
  qed
qed

end

section \<open>Properties\<close>

text \<open>A second element type, with checks that can fail, for the concrete runs below.\<close>

definition bool_ops :: "bool check_ops" where
  "bool_ops = \<lparr>ctor = True, swap_with = (\<lambda>a b. (b, a)), run_check = (\<lambda>b. b)\<rparr>"

lemma bool_ops_type: "check_type bool_ops"
  by (simp add: check_type_def bool_ops_def)

lemma replicate_two: "replicate 2 x = [x, x]"
  by (simp add: numeral_eq_Suc)

lemmas play_eval = bool_ops_def cq_init_def new_CCheckQueue_def Add_def notify_all_def notify_one_def
  loop_top_def loop_wake_def loop_cleanup_def loop_test_def batch_size_def settle_def check_step_def
  pending_def all_pass_def replicate_two

text \<open>C1: when a master's call of \<open>Wait\<close> returns, its result is true exactly if every check
  added since the last return passes; then all of them have been executed, each once. Nothing is
  queued or in a worker's batch any more, and the status is reset for new work.\<close>

theorem Wait_verdict:
  assumes "check_type T" "2 * n + 1 < 2 ^ 31" "cq_reach T b n s" "i < n"
    and "cq_step T e s = Some s'" "thr s' ! i = Finished True v" "thr s ! i \<noteq> Finished True v"
  shows "v = all_pass T (added s) \<and> (v \<longrightarrow> mset (ran s) = mset (added s)) \<and>
    pending s' = 0 \<and> fAllOk (cq s')"
  using check_type.step_return [OF assms(1) check_type.reach_inv [OF assms(1,3,2)] _ assms(5-7)]
    reach_length [OF assms(3)] assms(4) by simp

theorem Wait_verdict_witness:
  "\<exists>s s'. cq_reach bool_ops 4 1 s \<and> cq_step bool_ops (EvTop 0 None) s = Some s' \<and>
     added s = [True, False, True] \<and> thr s' ! 0 = Finished True False \<and>
     False = all_pass bool_ops (added s) \<and> pending s' = 0 \<and> fAllOk (cq s')"
proof -
  let ?es = "[EvAdd [True, False, True] None, EvStart 0 True, EvTop 0 None, EvRun 0, EvRun 0,
    EvTop 0 None, EvRun 0, EvRun 0, EvTop 0 None, EvRun 0, EvRun 0]"
  let ?s = "\<lparr>cq = \<lparr>queue = [], nIdle = 0, nTotal = 1, fAllOk = False, nTodo = 1, fQuit = False,
      nBatchSize = 4\<rparr>, thr = [AtTop True 1 False], added = [True, False, True], ran = [False, True]\<rparr>"
  let ?s' = "\<lparr>cq = \<lparr>queue = [], nIdle = 0, nTotal = 0, fAllOk = True, nTodo = 0, fQuit = False,
      nBatchSize = 4\<rparr>, thr = [Finished True False], added = ([] :: bool list), ran = []\<rparr>"
  have "cq_play bool_ops ?es (cq_init 4 1) = Some ?s" by (simp add: play_eval)
  then have r: "cq_reach bool_ops 4 1 ?s" by (rule play_init)
  have st: "cq_step bool_ops (EvTop 0 None) ?s = Some ?s'" by (simp add: play_eval)
  have "False = all_pass bool_ops (added ?s) \<and> (False \<longrightarrow> mset (ran ?s) = mset (added ?s)) \<and>
      pending ?s' = 0 \<and> fAllOk (cq ?s')"
    using Wait_verdict [OF bool_ops_type _ r _ st, of 0 False] by (simp add: bool_ops_def)
  with r st show ?thesis by (intro exI [of _ ?s] exI [of _ ?s']) simp
qed

text \<open>C2: from every reachable state in which thread \<open>i\<close> is a master inside \<open>Wait\<close>, every
  schedule of the queue's own events (critical sections, wake-ups after a notification, executed
  checks) that goes on until no such event is possible ends with \<open>Wait\<close> returned, with the verdict
  over all checks added.\<close>

theorem Wait_returns:
  assumes "check_type T" "2 * n + 1 < 2 ^ 31" "cq_reach T b n s" "i < n" "master_n (thr s ! i) = 1"
    and "list_all internal es" "cq_run T es s = Some s'" "quiescent T s'"
  shows "thr s' ! i = Finished True (all_pass T (added s))"
  using check_type.run_verdict [OF assms(1,3,2,4-8)] .

lemma all_finished_quiescent: "thr s = [Finished m v] \<Longrightarrow> quiescent T s"
  unfolding quiescent_def
proof (intro allI impI)
  fix e :: "'a cq_event"
  assume "thr s = [Finished m v]" "internal e"
  then show "cq_step T e s = None" by (cases e) auto
qed

theorem Wait_returns_witness:
  "\<exists>s s'. cq_reach bool_ops 4 1 s \<and> master_n (thr s ! 0) = 1 \<and> added s = [True] \<and>
     cq_run bool_ops [EvTop 0 None, EvRun 0, EvRun 0, EvTop 0 None] s = Some s' \<and>
     thr s' ! 0 = Finished True (all_pass bool_ops [True])"
proof -
  let ?s = "\<lparr>cq = \<lparr>queue = [True], nIdle = 0, nTotal = 0, fAllOk = True, nTodo = 1, fQuit = False,
      nBatchSize = 4\<rparr>, thr = [AtTop True 0 True], added = [True], ran = []\<rparr>"
  let ?s' = "\<lparr>cq = \<lparr>queue = [], nIdle = 0, nTotal = 0, fAllOk = True, nTodo = 0, fQuit = False,
      nBatchSize = 4\<rparr>, thr = [Finished True True], added = ([] :: bool list), ran = []\<rparr>"
  have "cq_play bool_ops [EvAdd [True] None, EvStart 0 True] (cq_init 4 1) = Some ?s"
    by (simp add: play_eval)
  then have r: "cq_reach bool_ops 4 1 ?s" by (rule play_init)
  have run: "cq_run bool_ops [EvTop 0 None, EvRun 0, EvRun 0, EvTop 0 None] ?s = Some ?s'"
    by (simp add: play_eval)
  have "thr ?s' ! 0 = Finished True (all_pass bool_ops (added ?s))"
    using Wait_returns [OF bool_ops_type _ r _ _ _ run, of 0] by (simp add: all_finished_quiescent)
  with r run show ?thesis by (intro exI [of _ ?s] exI [of _ ?s']) simp
qed

text \<open>C3: no schedule of the queue's own events is infinite, from any reachable state: its
  length is bounded by a measure of the state, four for each queued check and a few for each running
  thread; and a schedule that runs until nothing is left to do always exists.\<close>

theorem Wait_terminates:
  assumes "check_type T" "2 * n + 1 < 2 ^ 31" "cq_reach T b n s"
  shows "(\<forall>es s'. list_all internal es \<longrightarrow> cq_run T es s = Some s' \<longrightarrow> length es \<le> cq_measure s) \<and>
    (\<exists>es s'. list_all internal es \<and> cq_run T es s = Some s' \<and> quiescent T s')"
  using check_type.internal_run_bound [OF assms(1,3,2)] check_type.quiescent_run_ex [OF assms(1,3,2)]
  by (blast dest: add_leD1)

theorem Wait_terminates_witness:
  "\<exists>s. cq_reach bool_ops 4 1 s \<and> cq_measure s = 6 \<and>
     (\<forall>es s'. list_all internal es \<longrightarrow> cq_run bool_ops es s = Some s' \<longrightarrow> length es \<le> 6) \<and>
     (\<exists>es s'. list_all internal es \<and> cq_run bool_ops es s = Some s' \<and> quiescent bool_ops s')"
proof -
  let ?s = "\<lparr>cq = \<lparr>queue = [True], nIdle = 0, nTotal = 0, fAllOk = True, nTodo = 1, fQuit = False,
      nBatchSize = 4\<rparr>, thr = [AtTop True 0 True], added = [True], ran = []\<rparr>"
  have "cq_play bool_ops [EvAdd [True] None, EvStart 0 True] (cq_init 4 1) = Some ?s"
    by (simp add: play_eval)
  then have r: "cq_reach bool_ops 4 1 ?s" by (rule play_init)
  have m: "cq_measure ?s = 6" by (simp add: cq_measure_def)
  show ?thesis using r m Wait_terminates [OF bool_ops_type _ r, unfolded m] by (intro exI [of _ ?s]) simp
qed

text \<open>C4: the queue never stalls. In a reachable state where a master is in \<open>Wait\<close>, or
  checks are queued while a worker sleeps, some thread has an event of its own to make: the notifications
  the code sends are enough, with no reliance on spurious wake-ups.\<close>

theorem no_lost_wakeup:
  assumes "check_type T" "2 * n + 1 < 2 ^ 31" "cq_reach T b n s"
    and "0 < tsum master_n (thr s) \<or> queue (cq s) \<noteq> [] \<and> 0 < tsum (waits_n False) (thr s)"
  shows "\<exists>e s'. internal e \<and> cq_step T e s = Some s'"
proof -
  have inv: "cq_inv T s" using check_type.reach_inv [OF assms(1,3,2)] .
  then have "0 < tsum active_n (thr s)"
    using assms(4) master_progress [OF inv] by (auto simp: cq_inv_def awake_ok_def)
  then have "\<not> quiescent T s" using reach_outside [OF assms(3)] by (rule active_not_quiescent)
  then show ?thesis by (auto simp: quiescent_def)
qed

theorem no_lost_wakeup_witness:
  "\<exists>s e s'. cq_reach bool_ops 4 2 s \<and> thr s = [AtTop True 0 True, InWait False] \<and>
     internal e \<and> cq_step bool_ops e s = Some s'"
proof -
  let ?es = "[EvStart 1 False, EvTop 1 None, EvStart 0 True]"
  let ?s = "\<lparr>cq = \<lparr>queue = [], nIdle = 1, nTotal = 1, fAllOk = True, nTodo = 0, fQuit = False,
      nBatchSize = 4\<rparr>, thr = [AtTop True 0 True, InWait False], added = [], ran = []\<rparr>"
  have "cq_play bool_ops ?es (cq_init 4 2) = Some ?s" by (simp add: play_eval)
  then have r: "cq_reach bool_ops 4 2 ?s" by (rule play_init)
  have "\<exists>e s'. internal e \<and> cq_step bool_ops e ?s = Some s'"
    using no_lost_wakeup [OF bool_ops_type _ r] by simp
  with r show ?thesis by (intro exI [of _ ?s]) simp
qed

text \<open>C7: the three counters mean what their comments say. \<open>nTotal\<close> counts the threads inside
  \<open>Loop\<close>, \<open>nIdle\<close> those of them in a wait, \<open>nTodo\<close> the checks queued or in a batch; the divisor of the
  batch size is never zero, so no thread runs into undefined behaviour.\<close>

theorem counters_exact:
  assumes "check_type T" "2 * n + 1 < 2 ^ 31" "cq_reach T b n s"
  shows "nTotal (cq s) = int (tsum live_n (thr s)) \<and> nIdle (cq s) = int (tsum idle_n (thr s)) \<and>
    unat (nTodo (cq s)) = length (queue (cq s)) + tsum inflight (thr s) \<and>
    Aborted \<notin> set (thr s) \<and> batch_size (cq s) \<noteq> None"
proof -
  have inv: "cq_inv T s" using check_type.reach_inv [OF assms(1,3,2)] .
  then have "nTodo (cq s) = of_nat (pending s)" "pending s < 2 ^ 32"
    by (simp_all add: cq_inv_def todo_ok_def)
  then have "unat (nTodo (cq s)) = pending s" by (simp add: unat_of_nat take_bit_nat_eq_self)
  moreover have "batch_size (cq s) \<noteq> None"
    using batch_size_defined_if [of s] inv assms(2) reach_length [OF assms(3)] by (simp add: cq_inv_def)
  ultimately show ?thesis
    using inv by (auto simp: cq_inv_def counters_ok_def threads_ok_def pending_def)
qed

theorem counters_exact_witness:
  "\<exists>s. cq_reach bool_ops 4 2 s \<and> thr s = [Dormant, Working False 1 True [True]] \<and>
     nTotal (cq s) = 1 \<and> unat (nTodo (cq s)) = 2 \<and> Aborted \<notin> set (thr s) \<and> batch_size (cq s) \<noteq> None"
proof -
  let ?es = "[EvAdd [True, True] None, EvStart 1 False, EvTop 1 None]"
  let ?s = "\<lparr>cq = \<lparr>queue = [True], nIdle = 0, nTotal = 1, fAllOk = True, nTodo = 2, fQuit = False,
      nBatchSize = 4\<rparr>, thr = [Dormant, Working False 1 True [True]], added = [True, True], ran = []\<rparr>"
  have "cq_play bool_ops ?es (cq_init 4 2) = Some ?s" by (simp add: play_eval)
  then have r: "cq_reach bool_ops 4 2 ?s" by (rule play_init)
  show ?thesis using r counters_exact [OF bool_ops_type _ r] by (intro exI [of _ ?s]) simp
qed

text \<open>C8: at any time every check executed, queued or still in a batch was added since the
  last return of a master, and none of them twice; while every check added passes, none is skipped.\<close>

theorem checks_run_once:
  assumes "check_type T" "2 * n + 1 < 2 ^ 31" "cq_reach T b n s"
  shows "mset (ran s) + mset (queue (cq s)) + tsum unseen (thr s) \<subseteq># mset (added s) \<and>
    (all_pass T (added s) \<longrightarrow>
      mset (ran s) + mset (queue (cq s)) + tsum unseen (thr s) = mset (added s))"
  using check_type.reach_inv [OF assms(1,3,2)] by (simp add: cq_inv_def jobs_ok_def Let_def)

theorem checks_run_once_witness:
  "\<exists>s. cq_reach bool_ops 4 1 s \<and> ran s = [False, True] \<and> added s = [True, False, True] \<and>
     mset (ran s) + mset (queue (cq s)) + tsum unseen (thr s) \<subseteq># mset (added s)"
proof -
  let ?es = "[EvAdd [True, False, True] None, EvStart 0 True, EvTop 0 None, EvRun 0, EvRun 0,
    EvTop 0 None, EvRun 0]"
  let ?s = "\<lparr>cq = \<lparr>queue = [True], nIdle = 0, nTotal = 1, fAllOk = True, nTodo = 2, fQuit = False,
      nBatchSize = 4\<rparr>, thr = [Working True 1 False []], added = [True, False, True], ran = [False, True]\<rparr>"
  have "cq_play bool_ops ?es (cq_init 4 1) = Some ?s" by (simp add: play_eval)
  then have r: "cq_reach bool_ops 4 1 ?s" by (rule play_init)
  show ?thesis using r checks_run_once [OF bool_ops_type _ r] by (intro exI [of _ ?s]) simp
qed

text \<open>\<open>fQuit\<close> is initialised to false and never assigned, so a worker's call of
  \<open>Thread\<close> never returns.\<close>

theorem workers_never_return:
  assumes "check_type T" "2 * n + 1 < 2 ^ 31" "cq_reach T b n s" "i < n"
  shows "thr s ! i \<noteq> Finished False v"
  using check_type.reach_no_worker_return [OF assms(1,3,2,4)] .

theorem workers_never_return_witness:
  "\<exists>s. cq_reach bool_ops 4 2 s \<and> thr s ! 0 = Finished True True \<and> thr s ! 1 = InWait False \<and>
     thr s ! 1 \<noteq> Finished False True"
proof -
  let ?es = "[EvStart 1 False, EvTop 1 None, EvStart 0 True, EvTop 0 None]"
  let ?s = "\<lparr>cq = \<lparr>queue = [], nIdle = 1, nTotal = 1, fAllOk = True, nTodo = 0, fQuit = False,
      nBatchSize = 4\<rparr>, thr = [Finished True True, InWait False], added = [], ran = []\<rparr>"
  have "cq_play bool_ops ?es (cq_init 4 2) = Some ?s" by (simp add: play_eval)
  then have r: "cq_reach bool_ops 4 2 ?s" by (rule play_init)
  show ?thesis using r workers_never_return [OF bool_ops_type _ r, of 1] by (intro exI [of _ ?s]) simp
qed

text \<open>C10: a critical section that ends with work takes between one and \<open>max 1 nBatchSize\<close>
  checks, never more than are queued; it takes them from the back, last added first, leaves the rest
  alone, and starts from the shared status.\<close>

theorem batch_taken:
  assumes "check_type T" "loop_test T m s = (s', Batch n ok vs)"
  shows "1 \<le> unat n \<and> unat n \<le> max 1 (unat (nBatchSize s)) \<and> length vs = unat n \<and>
    queue s = queue s' @ rev vs \<and> s' = s\<lparr>queue := queue s'\<rparr> \<and> ok = fAllOk s"
  by (rule check_type.loop_test_cases [OF assms])
    (use batch_size_Some(1,3) [of s n] in \<open>auto simp: Suc_le_eq\<close>)

theorem batch_taken_witness:
  "loop_test bool_ops False ((new_CCheckQueue 2)\<lparr>queue := [True, True, False, True, True, False], nTotal := 1\<rparr>) =
     ((new_CCheckQueue 2)\<lparr>queue := [True, True, False, True], nTotal := 1\<rparr>, Batch 2 True [False, True]) \<and>
   1 \<le> unat (2 :: u32) \<and> unat (2 :: u32) \<le> max 1 (unat (2 :: u32))"
proof -
  have t: "loop_test bool_ops False ((new_CCheckQueue 2)\<lparr>queue := [True, True, False, True, True, False], nTotal := 1\<rparr>) =
     ((new_CCheckQueue 2)\<lparr>queue := [True, True, False, True], nTotal := 1\<rparr>, Batch 2 True [False, True])"
    by (simp add: play_eval)
  show ?thesis using t batch_taken [OF bool_ops_type t] by (simp add: new_CCheckQueue_def)
qed

end
