(* ===== verification/CheckQueue_Control.thy ===== *)
theory CheckQueue_Control
  imports CheckQueue_Correct
begin

text \<open>
  \<open>CCheckQueueControl<T>\<close>: the object through which a client adds checks and waits. Its
  constructor takes the queue's \<open>ControlMutex\<close>, its destructor waits if the client did not and
  releases it. Any number of client threads may construct controllers; the theory shows that
  the mutex makes them keep the queue's one-master protocol, and what the destructor leaves.
\<close>

section \<open>The controllers of the clients\<close>

text \<open>The controller of each thread: none, one over a queue with its \<open>fDone\<close>, one whose \<open>Wait\<close> is
  running, called by the client or by the destructor, or one over \<open>nullptr\<close>.\<close>

datatype ctl = NoCtl | Held bool | Waiting | Destroying | NullCtl

record 'a ctl_sys =
  base :: "'a cq_sys"
  owner :: "nat option"
  ctls :: "ctl list"

datatype 'a ctl_event =
    Construct nat bool
  | CtlAdd nat "'a list" "nat option"
  | CtlWait nat
  | CtlWaitRet nat
  | Destroy nat
  | DestroyRet nat
  | StartWorker nat
  | QueueEvent "'a cq_event"

text \<open>Where a method of the object may be called: the thread exists and is not inside \<open>Loop\<close>.\<close>

definition at_client :: "'a ctl_sys \<Rightarrow> nat \<Rightarrow> bool" where
  "at_client s i \<longleftrightarrow> i < length (ctls s) \<and> i < length (thr (base s)) \<and> can_start (thr (base s) ! i)"

definition on_base :: "'a cq_sys option \<Rightarrow> nat option \<Rightarrow> ctl list \<Rightarrow> 'a ctl_sys option" where
  "on_base r ow cs = map_option (\<lambda>b. \<lparr>base = b, owner = ow, ctls = cs\<rparr>) r"

definition ctl_construct :: "nat \<Rightarrow> bool \<Rightarrow> 'a ctl_sys \<Rightarrow> 'a ctl_sys option" where
  "ctl_construct i has_queue s =
     (if \<not> (at_client s i \<and> ctls s ! i = NoCtl) then None
      else if \<not> has_queue then Some (s\<lparr>ctls := (ctls s)[i := NullCtl]\<rparr>)
      else if owner s = None then Some (s\<lparr>owner := Some i, ctls := (ctls s)[i := Held False]\<rparr>)
      else None)"

definition ctl_add ::
  "'a check_ops \<Rightarrow> nat \<Rightarrow> 'a list \<Rightarrow> nat option \<Rightarrow> 'a ctl_sys \<Rightarrow> 'a ctl_sys option" where
  "ctl_add T i vs c s =
     (if \<not> at_client s i then None
      else case ctls s ! i of
        Held fDone \<Rightarrow> on_base (cq_step T (EvAdd vs c) (base s)) (owner s) (ctls s)
      | NullCtl \<Rightarrow> Some s
      | _ \<Rightarrow> None)"

text \<open>\<open>Wait\<close>: the call of \<open>pqueue->Wait()\<close>, and \<open>fDone = true\<close> once it returned. Over
  \<open>nullptr\<close> it returns true at once and leaves \<open>fDone\<close> alone.\<close>

definition ctl_wait :: "'a check_ops \<Rightarrow> nat \<Rightarrow> 'a ctl_sys \<Rightarrow> 'a ctl_sys option" where
  "ctl_wait T i s =
     (if \<not> at_client s i then None
      else case ctls s ! i of
        Held fDone \<Rightarrow> on_base (cq_step T (EvStart i True) (base s)) (owner s) ((ctls s)[i := Waiting])
      | NullCtl \<Rightarrow> Some s
      | _ \<Rightarrow> None)"

definition returned :: "'a ctl_sys \<Rightarrow> nat \<Rightarrow> bool" where
  "returned s i \<longleftrightarrow> i < length (thr (base s)) \<and>
     (case thr (base s) ! i of Finished m r \<Rightarrow> m | _ \<Rightarrow> False)"

definition ctl_wait_ret :: "nat \<Rightarrow> 'a ctl_sys \<Rightarrow> 'a ctl_sys option" where
  "ctl_wait_ret i s =
     (if i < length (ctls s) \<and> ctls s ! i = Waiting \<and> returned s i
      then Some (s\<lparr>ctls := (ctls s)[i := Held True]\<rparr>) else None)"

text \<open>The destructor: \<open>if (!fDone) Wait();\<close> and the release of the mutex.\<close>

definition ctl_destroy :: "'a check_ops \<Rightarrow> nat \<Rightarrow> 'a ctl_sys \<Rightarrow> 'a ctl_sys option" where
  "ctl_destroy T i s =
     (if \<not> at_client s i then None
      else case ctls s ! i of
        Held fDone \<Rightarrow>
          if fDone then Some (s\<lparr>owner := None, ctls := (ctls s)[i := NoCtl]\<rparr>)
          else on_base (cq_step T (EvStart i True) (base s)) (owner s) ((ctls s)[i := Destroying])
      | NullCtl \<Rightarrow> Some (s\<lparr>ctls := (ctls s)[i := NoCtl]\<rparr>)
      | _ \<Rightarrow> None)"

definition ctl_destroy_ret :: "nat \<Rightarrow> 'a ctl_sys \<Rightarrow> 'a ctl_sys option" where
  "ctl_destroy_ret i s =
     (if i < length (ctls s) \<and> ctls s ! i = Destroying \<and> returned s i
      then Some (s\<lparr>owner := None, ctls := (ctls s)[i := NoCtl]\<rparr>) else None)"

text \<open>A thread without a controller may run \<open>Thread\<close>.\<close>

definition start_worker :: "'a check_ops \<Rightarrow> nat \<Rightarrow> 'a ctl_sys \<Rightarrow> 'a ctl_sys option" where
  "start_worker T i s =
     (if at_client s i \<and> ctls s ! i = NoCtl
      then on_base (cq_step T (EvStart i False) (base s)) (owner s) (ctls s) else None)"

fun own_event :: "'a cq_event \<Rightarrow> bool" where
  "own_event (EvSpurious i) = True"
| "own_event e = internal e"

fun ctl_step :: "'a check_ops \<Rightarrow> 'a ctl_event \<Rightarrow> 'a ctl_sys \<Rightarrow> 'a ctl_sys option" where
  "ctl_step T (Construct i q) s = ctl_construct i q s"
| "ctl_step T (CtlAdd i vs c) s = ctl_add T i vs c s"
| "ctl_step T (CtlWait i) s = ctl_wait T i s"
| "ctl_step T (CtlWaitRet i) s = ctl_wait_ret i s"
| "ctl_step T (Destroy i) s = ctl_destroy T i s"
| "ctl_step T (DestroyRet i) s = ctl_destroy_ret i s"
| "ctl_step T (StartWorker i) s = start_worker T i s"
| "ctl_step T (QueueEvent e) s =
     (if own_event e then on_base (cq_step T e (base s)) (owner s) (ctls s) else None)"

text \<open>What is left to the clients: no more than \<open>2 ^ 32 - 1\<close> checks at a time.\<close>

fun small_add :: "'a ctl_event \<Rightarrow> 'a ctl_sys \<Rightarrow> bool" where
  "small_add (CtlAdd i vs c) s = (pending (base s) + length vs < 2 ^ 32)"
| "small_add _ s = True"

definition ctl_init :: "u32 \<Rightarrow> nat \<Rightarrow> 'a ctl_sys" where
  "ctl_init b n = \<lparr>base = cq_init b n, owner = None, ctls = replicate n NoCtl\<rparr>"

inductive ctl_reach :: "'a check_ops \<Rightarrow> u32 \<Rightarrow> nat \<Rightarrow> 'a ctl_sys \<Rightarrow> bool" for T b n where
  init: "ctl_reach T b n (ctl_init b n)"
| step: "ctl_reach T b n s \<Longrightarrow> small_add e s \<Longrightarrow> ctl_step T e s = Some s' \<Longrightarrow> ctl_reach T b n s'"

fun ctl_play :: "'a check_ops \<Rightarrow> 'a ctl_event list \<Rightarrow> 'a ctl_sys \<Rightarrow> 'a ctl_sys option" where
  "ctl_play T [] s = Some s"
| "ctl_play T (e # es) s =
     (if small_add e s then Option.bind (ctl_step T e s) (ctl_play T es) else None)"

lemma ctl_play_reach: "ctl_reach T b n s \<Longrightarrow> ctl_play T es s = Some s' \<Longrightarrow> ctl_reach T b n s'"
  by (induction es arbitrary: s)
    (auto simp: bind_eq_Some_conv split: if_splits intro: ctl_reach.step)

section \<open>The controllers keep the protocol\<close>

fun holds :: "ctl \<Rightarrow> bool" where
  "holds (Held d) = True"
| "holds Waiting = True"
| "holds Destroying = True"
| "holds _ = False"

definition in_wait :: "ctl \<Rightarrow> bool" where
  "in_wait c \<longleftrightarrow> c = Waiting \<or> c = Destroying"

definition ctl_inv :: "'a ctl_sys \<Rightarrow> bool" where
  "ctl_inv s \<longleftrightarrow>
     length (ctls s) = length (thr (base s)) \<and>
     (\<forall>i < length (ctls s). holds (ctls s ! i) \<longleftrightarrow> owner s = Some i) \<and>
     (\<forall>i < length (ctls s). master_n (thr (base s) ! i) = 1 \<longrightarrow> in_wait (ctls s ! i))"

lemma in_wait_holds: "in_wait c \<Longrightarrow> holds c"
  by (auto simp: in_wait_def)

lemma master_n_01: "master_n t = 0 \<or> master_n t = 1"
  by (cases t) auto

text \<open>While the owner of the mutex is not in \<open>Wait\<close>, no master is in \<open>Loop\<close>.\<close>

lemma no_master:
  assumes "ctl_inv s" "owner s = Some i" "\<not> in_wait (ctls s ! i)"
  shows "tsum master_n (thr (base s)) = 0"
proof (rule ccontr)
  assume "tsum master_n (thr (base s)) \<noteq> 0"
  then obtain j where j: "j < length (thr (base s))" "0 < master_n (thr (base s) ! j)"
    using tsum_pos_ex [of master_n "thr (base s)"] by auto
  then have "master_n (thr (base s) ! j) = 1" using master_n_01 [of "thr (base s) ! j"] by auto
  then have "in_wait (ctls s ! j)" "owner s = Some j"
    using assms(1) j(1) in_wait_holds by (auto simp: ctl_inv_def)
  with assms show False by simp
qed

lemma master_n_after: "master_n (after m out) \<le> (if m then 1 else 0)"
  by (cases out) auto

lemma own_master_n:
  assumes "cq_step T e s = Some s'" "own_event e" and i: "i < length (thr s)"
  shows "master_n (thr s' ! i) \<le> master_n (thr s ! i)"
proof (cases "internal e")
  case True
  with assms(1) show ?thesis
  proof (cases rule: internal_cases)
    case (lock j m q out ts)
    note ts = notified_nth [OF lock(3) i]
    show ?thesis
    proof (cases "j = i")
      case True
      then have "master_n (thr s ! i) = (if m then 1 else 0)" using lock(2) by auto
      then show ?thesis using lock(4) True ts(1) i master_n_after [of m out] by simp
    next
      case False
      then show ?thesis using lock(4) ts by simp
    qed
  next
    case (work j m n ok vs t)
    then show ?thesis using i by (cases "j = i") auto
  qed
next
  case False
  then obtain j where "e = EvSpurious j" using assms(2) by (cases e) auto
  with assms(1) i show ?thesis by (auto simp: nth_list_update split: if_splits thread.splits)
qed

lemma add_master_n:
  assumes "cq_step T (EvAdd vs c) s = Some s'" "i < length (thr s)"
  shows "master_n (thr s' ! i) = master_n (thr s ! i)"
  using assms
  by (auto simp: notify_all_def waiting_onE elim!: notify_oneE split: prod.splits notification.splits)
    (auto simp: nth_list_update)

lemma start_step:
  "cq_step T (EvStart i m) s = Some s' \<Longrightarrow>
   i < length (thr s) \<and> thr s' = (thr s)[i := AtTop m 0 True]"
  by (auto split: if_splits)

text \<open>One event of the client system is an allowed event of the queue, or leaves the queue alone.\<close>

definition base_step :: "'a check_ops \<Rightarrow> 'a ctl_sys \<Rightarrow> 'a ctl_sys \<Rightarrow> bool" where
  "base_step T s s' \<longleftrightarrow> base s' = base s \<or>
     (\<exists>e. client_ok e (base s) \<and> cq_step T e (base s) = Some (base s'))"

lemma on_base_Some:
  "on_base r ow cs = Some s' \<longleftrightarrow> (\<exists>b. r = Some b \<and> s' = \<lparr>base = b, owner = ow, ctls = cs\<rparr>)"
  by (auto simp: on_base_def)

lemmas ctl_defs = ctl_construct_def ctl_add_def ctl_wait_def ctl_wait_ret_def ctl_destroy_def
  ctl_destroy_ret_def start_worker_def on_base_Some

lemma ctl_inv_update:
  assumes "ctl_inv s" "base s' = base s" "i < length (ctls s)"
    and "ctls s' = (ctls s)[i := c]" "in_wait c \<or> master_n (thr (base s) ! i) = 0"
    and "if holds c then owner s' = Some i \<and> (owner s = None \<or> owner s = Some i)
      else owner s' = (if owner s = Some i then None else owner s)"
  shows "ctl_inv s'"
  using assms by (auto simp: ctl_inv_def nth_list_update split: if_splits)

lemma can_start_master: "can_start t \<Longrightarrow> master_n t = 0"
  by (cases t) auto

lemma returned_master: "returned s i \<Longrightarrow> master_n (thr (base s) ! i) = 0"
  by (auto simp: returned_def split: thread.splits)

text \<open>A call that enters \<open>Loop\<close> as the master, by the thread that owns the mutex.\<close>

lemma enter_wait:
  assumes inv: "ctl_inv s" and i: "at_client s i" "ctls s ! i = Held d" and c: "in_wait c"
    and step: "cq_step T (EvStart i True) (base s) = Some b'"
    and s': "s' = \<lparr>base = b', owner = owner s, ctls = (ctls s)[i := c]\<rparr>"
  shows "ctl_inv s' \<and> base_step T s s'"
proof -
  have ow: "owner s = Some i" using inv i by (auto simp: ctl_inv_def at_client_def)
  then have "tsum master_n (thr (base s)) = 0"
    using no_master [OF inv] i by (simp add: in_wait_def)
  then have "client_ok (EvStart i True) (base s)" by simp
  then have "base_step T s s'" using step unfolding base_step_def s' by (auto simp del: cq_step.simps)
  moreover have "ctl_inv s'"
    using inv start_step [OF step] c in_wait_holds [OF c] ow
    by (auto simp: ctl_inv_def s' nth_list_update)
  ultimately show ?thesis by blast
qed

lemma ctl_step_inv:
  assumes inv: "ctl_inv s" and ok: "small_add e s" and step: "ctl_step T e s = Some s'"
  shows "ctl_inv s' \<and> base_step T s s'"
proof (cases e)
  case (Construct i q)
  then have "base s' = base s" using step by (auto simp: ctl_defs split: if_splits)
  have "at_client s i \<Longrightarrow> ctls s ! i = NoCtl \<Longrightarrow> owner s \<noteq> Some i"
    using inv by (auto simp: ctl_inv_def at_client_def)
  then have "ctl_inv s'" using Construct step inv can_start_master [of "thr (base s) ! i"]
    by (auto simp: ctl_defs at_client_def split: if_splits
      intro!: ctl_inv_update [where s = s and i = i and c = "if q then Held False else NullCtl"])
  with \<open>base s' = base s\<close> show ?thesis by (simp add: base_step_def)
next
  case (CtlAdd i vs c)
  show ?thesis
  proof (cases "ctls s ! i = NullCtl")
    case True
    then show ?thesis using CtlAdd step inv by (auto simp: ctl_defs base_step_def split: if_splits)
  next
    case False
    then obtain d b' where d: "at_client s i" "ctls s ! i = Held d"
      "cq_step T (EvAdd vs c) (base s) = Some b'" "s' = s\<lparr>base := b'\<rparr>"
      using CtlAdd step by (auto simp: ctl_defs simp del: cq_step.simps split: if_splits ctl.splits)
    then have "owner s = Some i" using inv by (auto simp: ctl_inv_def at_client_def)
    then have "tsum master_n (thr (base s)) = 0" using no_master [OF inv] d by (simp add: in_wait_def)
    then have "base_step T s s'" using d(3,4) ok CtlAdd by (auto simp: base_step_def simp del: cq_step.simps)
    moreover have "ctl_inv s'"
      using inv d(4) step_length [OF d(3)] add_master_n [OF d(3)] by (auto simp: ctl_inv_def)
    ultimately show ?thesis by blast
  qed
next
  case (CtlWait i)
  show ?thesis
  proof (cases "ctls s ! i = NullCtl")
    case True
    then show ?thesis using CtlWait step inv by (auto simp: ctl_defs base_step_def split: if_splits)
  next
    case False
    then obtain d b' where "at_client s i" "ctls s ! i = Held d"
      "cq_step T (EvStart i True) (base s) = Some b'"
      "s' = \<lparr>base = b', owner = owner s, ctls = (ctls s)[i := Waiting]\<rparr>"
      using CtlWait step by (auto simp: ctl_defs simp del: cq_step.simps split: if_splits ctl.splits)
    then show ?thesis using enter_wait [OF inv] by (simp add: in_wait_def)
  qed
next
  case (CtlWaitRet i)
  then have "base s' = base s" using step by (auto simp: ctl_defs split: if_splits)
  moreover have "ctl_inv s'" using CtlWaitRet step inv returned_master [of s i]
    by (auto simp: ctl_defs split: if_splits intro!: ctl_inv_update [where s = s and i = i and c = "Held True"])
      (auto simp: ctl_inv_def)
  ultimately show ?thesis by (simp add: base_step_def)
next
  case (Destroy i)
  show ?thesis
  proof (cases "ctls s ! i = Held False")
    case True
    then obtain b' where "at_client s i" "cq_step T (EvStart i True) (base s) = Some b'"
      "s' = \<lparr>base = b', owner = owner s, ctls = (ctls s)[i := Destroying]\<rparr>"
      using Destroy step by (auto simp: ctl_defs simp del: cq_step.simps split: if_splits)
    then show ?thesis using enter_wait [OF inv _ True] by (simp add: in_wait_def)
  next
    case False
    then have "base s' = base s" using Destroy step
      by (auto simp: ctl_defs simp del: cq_step.simps split: if_splits ctl.splits)
    moreover have "ctl_inv s'" using False Destroy step inv can_start_master [of "thr (base s) ! i"]
      by (auto simp: ctl_defs at_client_def simp del: cq_step.simps split: if_splits ctl.splits
        intro!: ctl_inv_update [where s = s and i = i and c = NoCtl])
        (auto simp: ctl_inv_def)
    ultimately show ?thesis by (simp add: base_step_def)
  qed
next
  case (DestroyRet i)
  then have "base s' = base s" using step by (auto simp: ctl_defs split: if_splits)
  moreover have "ctl_inv s'" using DestroyRet step inv returned_master [of s i]
    by (auto simp: ctl_defs split: if_splits intro!: ctl_inv_update [where s = s and i = i and c = NoCtl])
      (auto simp: ctl_inv_def)
  ultimately show ?thesis by (simp add: base_step_def)
next
  case (StartWorker i)
  then obtain b' where b: "at_client s i" "ctls s ! i = NoCtl"
    "cq_step T (EvStart i False) (base s) = Some b'" "s' = s\<lparr>base := b'\<rparr>"
    using step by (auto simp: ctl_defs simp del: cq_step.simps split: if_splits)
  then have "client_ok (EvStart i False) (base s)" by simp
  then have "base_step T s s'" using b unfolding base_step_def by (auto simp del: cq_step.simps)
  moreover have "ctl_inv s'" using inv b(4) start_step [OF b(3)]
    by (auto simp: ctl_inv_def nth_list_update)
  ultimately show ?thesis by blast
next
  case (QueueEvent e')
  then obtain b' where b: "own_event e'" "cq_step T e' (base s) = Some b'" "s' = s\<lparr>base := b'\<rparr>"
    using step by (auto simp: ctl_defs simp del: cq_step.simps split: if_splits)
  have "client_ok e' (base s)" using b(1) by (cases e') auto
  then have "base_step T s s'" using b unfolding base_step_def by (auto simp del: cq_step.simps)
  moreover have "master_n (thr (base s) ! i) = 1" if "i < length (thr (base s))" "master_n (thr b' ! i) = 1" for i
    using own_master_n [OF b(2,1) that(1)] that(2) master_n_01 [of "thr (base s) ! i"] by linarith
  then have "ctl_inv s'" using inv b(3) step_length [OF b(2)] by (auto simp: ctl_inv_def)
  ultimately show ?thesis by blast
qed

text \<open>What the queue still owes is at most what was added since the last return: the counter
  \<open>nTodo\<close> only grows by \<open>Add\<close>.\<close>

lemma pending_nTodo: "cq_inv T s \<Longrightarrow> pending s = unat (nTodo (cq s))"
  by (simp add: cq_inv_def todo_ok_def unat_of_nat take_bit_nat_eq_self)

lemma test_nTodo: "nTodo (fst (loop_test T m s)) = nTodo s"
  by (simp add: loop_test_def Let_def split: option.split prod.split)

lemma own_nTodo:
  assumes "cq_inv T s" "cq_step T e s = Some s'" "\<forall>vs c. e \<noteq> EvAdd vs c"
  shows "unat (nTodo (cq s')) \<le> unat (nTodo (cq s))"
proof (cases e)
  case (EvTop i c)
  then obtain m n ok q ntf out ts where t: "i < length (thr s)" "thr s ! i = AtTop m n ok"
    "loop_top T m n ok (cq s) = (q, ntf, out)" "s' = settle m i q out ts s"
    using assms(2) by (auto split: if_splits thread.splits prod.splits)
  have "nTodo q = nTodo (cq s) - n"
    using t(3) test_nTodo [of T m "fst (loop_cleanup m n ok (cq s))"]
    by (auto simp: loop_top_def loop_cleanup_def Let_def split: prod.splits if_splits)
  moreover have "unat n \<le> unat (nTodo (cq s))"
    using pending_nTodo [OF assms(1)] tsum_nth_le [OF t(1), of inflight] t(2) by (simp add: pending_def)
  then have "unat (nTodo (cq s) - n) \<le> unat (nTodo (cq s))"
    by (simp add: unat_sub word_le_nat_alt)
  ultimately show ?thesis using t(4) by simp
next
  case (EvWake i)
  then show ?thesis using assms(2)
    by (auto split: if_splits thread.splits prod.splits simp: loop_wake_def)
      (metis chkq.select_convs(5) chkq.surjective chkq.update_convs(2) fst_conv order_refl test_nTodo)
qed (use assms in \<open>auto split: if_splits thread.splits list.splits\<close>)

lemma own_added:
  assumes "cq_step T e s = Some s'" "own_event e"
  shows "added s' = added s \<or> added s' = []"
  using assms
  by (cases e) (auto simp: settle_def Let_def split: if_splits thread.splits list.splits prod.splits
    outcome.splits)

text \<open>A thread that returned from \<open>Wait\<close>, while its controller has not noticed yet.\<close>

definition done_inv :: "'a ctl_sys \<Rightarrow> bool" where
  "done_inv s \<longleftrightarrow>
     (\<forall>i < length (ctls s). in_wait (ctls s ! i) \<and> returned s i \<longrightarrow> added (base s) = [])"

lemma done_quiet:
  "done_inv s \<Longrightarrow> base s' = base s \<Longrightarrow> ctls s' = (ctls s)[i := c] \<Longrightarrow> \<not> in_wait c \<Longrightarrow> done_inv s'"
  by (cases "i < length (ctls s)") (auto simp: done_inv_def returned_def nth_list_update split: if_splits)

lemma done_enter:
  assumes "done_inv s" "added (base s') = added (base s)"
    and thr: "thr (base s') = (thr (base s))[i := AtTop m 0 True]" and ctls: "ctls s' = (ctls s)[i := c]"
  shows "done_inv s'"
  unfolding done_inv_def
proof (intro allI impI, elim conjE)
  fix j assume j: "j < length (ctls s')" "in_wait (ctls s' ! j)" "returned s' j"
  then have "j \<noteq> i" using thr by (auto simp: returned_def)
  then show "added (base s') = []" using assms j by (simp add: done_inv_def returned_def)
qed

lemma done_same: "done_inv s \<Longrightarrow> base s' = base s \<Longrightarrow> ctls s' = ctls s \<Longrightarrow> done_inv s'"
  by (auto simp: done_inv_def returned_def)

text \<open>Another thread's controller is not in \<open>Wait\<close>, whoever calls a method.\<close>

lemma others_not_waiting:
  assumes "ctl_inv s" "i < length (ctls s)" "holds (ctls s ! i)" "j < length (ctls s)" "j \<noteq> i"
  shows "\<not> in_wait (ctls s ! j)"
  using assms in_wait_holds [of "ctls s ! j"] by (auto simp: ctl_inv_def)

lemma ctl_reach_inv:
  "ctl_reach T b n s \<Longrightarrow> ctl_inv s \<and> cq_reach T b n (base s) \<and> length (ctls s) = n"
proof (induction rule: ctl_reach.induct)
  case init
  then show ?case by (auto simp: ctl_init_def ctl_inv_def cq_init_def intro: cq_reach.init [unfolded cq_init_def])
next
  case (step s e s')
  then have "ctl_inv s'" and b: "base_step T s s'" using ctl_step_inv [of s e T s'] by blast+
  moreover have r: "cq_reach T b n (base s')"
    using b step.IH cq_reach.step [of T b n "base s" _ "base s'"] by (auto simp: base_step_def)
  moreover have "length (ctls s') = n" using \<open>ctl_inv s'\<close> reach_length [OF r] by (simp add: ctl_inv_def)
  ultimately show ?case by blast
qed

context check_type
begin

lemma step_pending_added:
  assumes inv: "cq_inv T s" "cq_inv T s'" and ok: "client_ok e s" and step: "cq_step T e s = Some s'"
    and le: "pending s \<le> length (added s)"
  shows "pending s' \<le> length (added s')"
proof (cases "\<exists>vs c. e = EvAdd vs c")
  case True
  then obtain vs c where e: "e = EvAdd vs c" by blast
  then have "nTodo (cq s') = nTodo (cq s) + of_nat (length vs)" "added s' = added s @ vs"
    using step by (auto simp: Add_eq)
  moreover have "pending s + length vs < 2 ^ 32" using ok e by simp
  then have "unat (nTodo (cq s) + of_nat (length vs)) = pending s + length vs"
    using inv(1) by (simp add: cq_inv_def todo_ok_def unat_of_nat take_bit_nat_eq_self flip: of_nat_add)
  ultimately show ?thesis using pending_nTodo [OF inv(2)] le by simp
next
  case False
  show ?thesis
  proof (cases "added s' = added s")
    case True
    have "pending s' \<le> pending s"
      using own_nTodo [OF inv(1) step] False pending_nTodo [OF inv(1)] pending_nTodo [OF inv(2)] by simp
    with True le show ?thesis by simp
  next
    case ne: False
    have "internal e" using ne step False by (cases e) (auto split: if_splits thread.splits)
    then obtain j v where j: "j < length (thr s)" "master_n (thr s ! j) = 1" "thr s' ! j = Finished True v"
      using internal_added [OF step _ ne] by blast
    then have "thr s ! j \<noteq> Finished True v" by auto
    then show ?thesis using step_return [OF inv(1) j(1) step j(3)] by simp
  qed
qed

lemma reach_pending_added:
  "cq_reach T b n s \<Longrightarrow> 2 * n + 1 < 2 ^ 31 \<Longrightarrow> pending s \<le> length (added s)"
proof (induction rule: cq_reach.induct)
  case init
  then show ?case by (simp add: cq_init_def pending_def new_CCheckQueue_def)
next
  case (step s e s')
  then show ?case
    using step_pending_added [of s s' e] reach_inv [OF step.hyps(1)] reach_inv [OF cq_reach.step [OF step.hyps]]
    by simp
qed

lemma done_step:
  assumes inv: "ctl_inv s" "cq_inv T (base s)" and d: "done_inv s" and step: "ctl_step T e s = Some s'"
  shows "done_inv s'"
proof (cases e)
  case (CtlAdd i vs c)
  show ?thesis
  proof (cases "ctls s ! i = NullCtl")
    case True
    then show ?thesis using CtlAdd step d by (auto simp: ctl_defs split: if_splits)
  next
    case False
    then have f: "at_client s i" "holds (ctls s ! i)" "\<not> in_wait (ctls s ! i)" "ctls s' = ctls s"
      using CtlAdd step
      by (auto simp: ctl_defs in_wait_def simp del: cq_step.simps split: if_splits ctl.splits)
    then have "\<not> in_wait (ctls s ! j)" if "j < length (ctls s)" for j
      using others_not_waiting [OF inv(1), of i j] that by (cases "j = i") (auto simp: at_client_def)
    then show ?thesis using f(4) by (auto simp: done_inv_def)
  qed
next
  case (QueueEvent e')
  then obtain b' where b: "own_event e'" "cq_step T e' (base s) = Some b'" "s' = s\<lparr>base := b'\<rparr>"
    using step by (auto simp: ctl_defs simp del: cq_step.simps split: if_splits)
  show ?thesis unfolding done_inv_def
  proof (intro allI impI, elim conjE)
    fix j assume j: "j < length (ctls s')" "in_wait (ctls s' ! j)" "returned s' j"
    show "added (base s') = []"
    proof (cases "returned s j")
      case True
      then have "added (base s) = []" using d j b(3) by (auto simp: done_inv_def)
      then show ?thesis using own_added [OF b(2,1)] b(3) by auto
    next
      case False
      from j(3) obtain v where v: "j < length (thr b')" "thr b' ! j = Finished True v"
        using b(3) by (auto simp: returned_def split: thread.splits)
      then have "j < length (thr (base s))" using step_length [OF b(2)] by simp
      moreover have "thr (base s) ! j \<noteq> Finished True v" using False calculation by (auto simp: returned_def)
      ultimately show ?thesis using step_return [OF inv(2) _ b(2) v(2)] b(3) by simp
    qed
  qed
next
  case (Construct i q)
  then show ?thesis using step
    by (auto simp: ctl_defs in_wait_def split: if_splits intro: done_quiet [OF d])
next
  case (CtlWait i)
  then show ?thesis using step
    by (auto simp: ctl_defs split: if_splits ctl.splits intro: done_enter [OF d] done_same [OF d])
next
  case (CtlWaitRet i)
  then show ?thesis using step
    by (auto simp: ctl_defs in_wait_def split: if_splits intro: done_quiet [OF d])
next
  case (Destroy i)
  then show ?thesis using step
    by (auto simp: ctl_defs in_wait_def split: if_splits ctl.splits intro: done_quiet [OF d] done_enter [OF d])
next
  case (DestroyRet i)
  then show ?thesis using step
    by (auto simp: ctl_defs in_wait_def split: if_splits intro: done_quiet [OF d])
next
  case (StartWorker i)
  then have *: "ctls s ! i = NoCtl" "ctls s' = ctls s" "added (base s') = added (base s)"
    "thr (base s') = (thr (base s))[i := AtTop False 0 True]"
    using step by (auto simp: ctl_defs split: if_splits)
  then have "ctls s' = (ctls s)[i := NoCtl]" using list_update_id [of "ctls s" i] by simp
  with d *(3,4) show ?thesis by (rule done_enter)
qed

lemma ctl_reach_done:
  "ctl_reach T b n s \<Longrightarrow> 2 * n + 1 < 2 ^ 31 \<Longrightarrow> done_inv s"
proof (induction rule: ctl_reach.induct)
  case init
  then show ?case by (simp add: ctl_init_def done_inv_def in_wait_def)
next
  case (step s e s')
  then show ?case using done_step [of s e s'] ctl_reach_inv [OF step.hyps(1)] reach_inv by blast
qed

end

section \<open>Properties\<close>

lemmas ctl_eval = play_eval ctl_construct_def ctl_add_def ctl_wait_def ctl_wait_ret_def ctl_destroy_def
  ctl_destroy_ret_def start_worker_def on_base_def ctl_init_def at_client_def returned_def

text \<open>C5: clients that use the queue through controllers keep the protocol it assumes:
  every state of the client system has a reachable state of the queue under it, with one master at a time
  and no \<open>Add\<close> during its \<open>Wait\<close>; at most one thread has a controller over the queue.\<close>

theorem controllers_refine:
  assumes "ctl_reach T b n s"
  shows "cq_reach T b n (base s) \<and>
    (\<forall>i < n. \<forall>j < n. holds (ctls s ! i) \<and> holds (ctls s ! j) \<longrightarrow> i = j)"
  using ctl_reach_inv [OF assms] by (auto simp: ctl_inv_def)

theorem controllers_refine_witness:
  "\<exists>s. ctl_reach bool_ops 4 2 s \<and> ctls s = [Held False, NoCtl] \<and> cq_reach bool_ops 4 2 (base s) \<and>
     added (base s) = [True]"
proof -
  let ?s = "\<lparr>base = \<lparr>cq = \<lparr>queue = [True], nIdle = 0, nTotal = 0, fAllOk = True, nTodo = 1, fQuit = False,
      nBatchSize = 4\<rparr>, thr = [Dormant, AtTop False 0 True], added = [True], ran = []\<rparr>,
      owner = Some 0, ctls = [Held False, NoCtl]\<rparr>"
  have "ctl_play bool_ops [Construct 0 True, StartWorker 1, CtlAdd 0 [True] None] (ctl_init 4 2) = Some ?s"
    by (simp add: ctl_eval)
  then have r: "ctl_reach bool_ops 4 2 ?s" by (rule ctl_play_reach [OF ctl_reach.init])
  show ?thesis using r controllers_refine [OF r] by (intro exI [of _ ?s]) simp
qed

text \<open>C6: a controller gives the queue's mutex up only in its destructor: after the
  \<open>Wait\<close> the destructor made itself, when no check is queued, running or unreported, or at once when the client had
  called \<open>Wait\<close> before.\<close>

theorem destructor_finishes:
  assumes "check_type T" "2 * n + 1 < 2 ^ 31" "ctl_reach T b n s"
    and "ctl_step T e s = Some s'" "owner s = Some i" "owner s' \<noteq> Some i"
  shows "owner s' = None \<and> ctls s' ! i = NoCtl \<and>
    (e = DestroyRet i \<and> pending (base s') = 0 \<and> added (base s') = [] \<or>
     e = Destroy i \<and> ctls s ! i = Held True \<and> base s' = base s)"
proof -
  have inv: "ctl_inv s" and r: "cq_reach T b n (base s)" using ctl_reach_inv [OF assms(3)] by auto
  have own: "k = i" if "k < length (ctls s)" "holds (ctls s ! k)" for k
    using inv that assms(5) by (auto simp: ctl_inv_def)
  have "done_inv s" using check_type.ctl_reach_done [OF assms(1,3,2)] .
  moreover have "pending (base s) \<le> length (added (base s))"
    using check_type.reach_pending_added [OF assms(1) r assms(2)] .
  ultimately show ?thesis using assms(4-6) own
    by (cases e) (auto simp: ctl_defs done_inv_def in_wait_def at_client_def split: if_splits ctl.splits)
qed

theorem destructor_finishes_witness:
  "\<exists>s s'. ctl_reach bool_ops 4 1 s \<and> ctl_step bool_ops (DestroyRet 0) s = Some s' \<and>
     owner s = Some 0 \<and> owner s' = None \<and> ctls s' ! 0 = NoCtl \<and> pending (base s') = 0"
proof -
  let ?es = "[Construct 0 True, CtlAdd 0 [False] None, Destroy 0, QueueEvent (EvTop 0 None),
    QueueEvent (EvRun 0), QueueEvent (EvRun 0), QueueEvent (EvTop 0 None)]"
  let ?s = "\<lparr>base = \<lparr>cq = \<lparr>queue = [], nIdle = 0, nTotal = 0, fAllOk = True, nTodo = 0, fQuit = False,
      nBatchSize = 4\<rparr>, thr = [Finished True False], added = ([] :: bool list), ran = []\<rparr>,
      owner = Some 0, ctls = [Destroying]\<rparr>"
  let ?s' = "?s\<lparr>owner := None, ctls := [NoCtl]\<rparr>"
  have "ctl_play bool_ops ?es (ctl_init 4 1) = Some ?s"
    by (simp add: ctl_eval)
  then have r: "ctl_reach bool_ops 4 1 ?s" by (rule ctl_play_reach [OF ctl_reach.init])
  have st: "ctl_step bool_ops (DestroyRet 0) ?s = Some ?s'" by (simp add: ctl_eval)
  show ?thesis using r st destructor_finishes [OF bool_ops_type _ r st, of 0]
    by (intro exI [of _ ?s] exI [of _ ?s']) simp
qed

text \<open>the second way out does not finish the queue. A client that adds a check
  after its own call of \<open>Wait\<close> leaves it queued when the controller is gone and the mutex free: the guarantee the class comment gives holds for clients that
  add nothing after they waited.\<close>

theorem late_add_unfinished:
  "\<exists>s. ctl_play bool_ops [Construct 0 True, CtlWait 0, QueueEvent (EvTop 0 None), CtlWaitRet 0,
      CtlAdd 0 [False] None, Destroy 0] (ctl_init 4 1) = Some s \<and>
    owner s = None \<and> ctls s = [NoCtl] \<and> pending (base s) = 1 \<and> queue (cq (base s)) = [False]"
  by (simp add: ctl_eval)

end
