(* ===== verification/CheckQueue_Main.thy ===== *)
theory CheckQueue_Main
  imports CheckQueue_Control
begin

text \<open>
  \<open>main\<close> of boostthreadcontrol/main.cpp: one queue with batches of at most 128, one controller,
  five worker threads, twenty calls of \<open>Add\<close> with one \<open>TaskCheck\<close> each, \<open>Wait\<close>. The program is
  its sequence of statements; between any two of them the threads of the queue make their own
  events, chosen by the scheduler.
\<close>

section \<open>The program\<close>

text \<open>The statement at each program point. Thread 0 runs \<open>main\<close>, threads 1 to 5 are the
  workers it creates; the argument is the choice \<open>notify_one\<close> makes in \<open>Add\<close>. After \<open>return 0\<close> the
  destructor of \<open>control\<close> runs.\<close>

definition main_stmt :: "nat \<Rightarrow> nat option \<Rightarrow> TaskCheck ctl_event option" where
  "main_stmt pc c =
     (if pc = 0 then Some (Construct 0 True)
      else if pc \<le> 5 then Some (StartWorker pc)
      else if pc < 26 then Some (CtlAdd 0 [TaskCheck_ctor] c)
      else if pc = 26 then Some (CtlWait 0)
      else if pc = 27 then Some (CtlWaitRet 0)
      else if pc = 28 then Some (Destroy 0)
      else None)"

definition main_init :: "TaskCheck ctl_sys" where
  "main_init = ctl_init 128 6"

inductive main_reach :: "nat \<Rightarrow> TaskCheck ctl_sys \<Rightarrow> bool" where
  init: "main_reach 0 main_init"
| stmt: "main_reach pc s \<Longrightarrow> main_stmt pc c = Some e \<Longrightarrow> ctl_step task_check_ops e s = Some s' \<Longrightarrow>
    main_reach (Suc pc) s'"
| queue: "main_reach pc s \<Longrightarrow> ctl_step task_check_ops (QueueEvent e) s = Some s' \<Longrightarrow> main_reach pc s'"

text \<open>A run as a function: \<open>None\<close> is the next statement of \<open>main\<close> without a waiter to notify.\<close>

fun main_play :: "TaskCheck cq_event option list \<Rightarrow> nat \<times> TaskCheck ctl_sys \<Rightarrow> (nat \<times> TaskCheck ctl_sys) option"
where
  "main_play [] (pc, s) = Some (pc, s)"
| "main_play (None # es) (pc, s) =
     (case main_stmt pc None of
        None \<Rightarrow> None
      | Some e \<Rightarrow> (case ctl_step task_check_ops e s of None \<Rightarrow> None | Some s' \<Rightarrow> main_play es (Suc pc, s')))"
| "main_play (Some e # es) (pc, s) =
     (case ctl_step task_check_ops (QueueEvent e) s of None \<Rightarrow> None | Some s' \<Rightarrow> main_play es (pc, s'))"

lemma main_play_reach:
  "main_reach pc s \<Longrightarrow> main_play es (pc, s) = Some (pc', s') \<Longrightarrow> main_reach pc' s'"
  by (induction es "(pc, s)" arbitrary: pc s rule: main_play.induct)
    (auto split: option.splits intro: main_reach.intros simp del: ctl_step.simps)

section \<open>What holds at each program point\<close>

text \<open>Where the main thread is, and which checks count.\<close>

definition main_at :: "nat \<Rightarrow> TaskCheck ctl_sys \<Rightarrow> bool" where
  "main_at pc s \<longleftrightarrow>
     (if pc = 0 then owner s = None \<and> ctls s ! 0 = NoCtl \<and> thr (base s) ! 0 = Dormant \<and> added (base s) = []
      else if pc \<le> 26 then
        ctls s ! 0 = Held False \<and> thr (base s) ! 0 = Dormant \<and>
        added (base s) = replicate (pc - 6) TaskCheck_ctor
      else if pc = 27 then
        ctls s ! 0 = Waiting \<and>
        (master_n (thr (base s) ! 0) = 1 \<and> added (base s) = replicate 20 TaskCheck_ctor \<or>
         thr (base s) ! 0 = Finished True True \<and> added (base s) = [])
      else if pc = 28 then
        ctls s ! 0 = Held True \<and> thr (base s) ! 0 = Finished True True \<and> added (base s) = []
      else
        ctls s ! 0 = NoCtl \<and> owner s = None \<and> thr (base s) ! 0 = Finished True True \<and> added (base s) = [])"

definition main_inv :: "nat \<Rightarrow> TaskCheck ctl_sys \<Rightarrow> bool" where
  "main_inv pc s \<longleftrightarrow>
     pc \<le> 29 \<and> ctl_reach task_check_ops 128 6 s \<and> main_at pc s \<and>
     (\<forall>k. pc \<le> k \<and> 1 \<le> k \<and> k \<le> 5 \<longrightarrow> thr (base s) ! k = Dormant) \<and>
     (\<forall>k. 1 \<le> k \<and> k \<le> 5 \<longrightarrow> ctls s ! k = NoCtl)"

lemma own_Dormant:
  assumes "cq_step T e s = Some s'" "own_event e" "i < length (thr s)" "thr s ! i = Dormant"
  shows "thr s' ! i = Dormant"
proof (cases "internal e")
  case True
  with assms(1) show ?thesis
  proof (cases rule: internal_cases)
    case (lock j m q out ts)
    then have "j \<noteq> i" using assms(4) by auto
    moreover have "ts ! i = Dormant"
      using lock(3) assms(4) notify_one_nth [of True _ "thr s" ts i] by auto
    ultimately show ?thesis using lock(4) by simp
  next
    case (work j m n ok vs t)
    then show ?thesis using assms(3,4) by (cases "j = i") simp_all
  qed
next
  case False
  then obtain j where "e = EvSpurious j" using assms(2) by (cases e) auto
  with assms show ?thesis by (auto simp: nth_list_update split: if_splits thread.splits)
qed

lemma own_Finished:
  assumes "cq_step T e s = Some s'" "own_event e" "i < length (thr s)" "thr s ! i = Finished m v"
  shows "thr s' ! i = Finished m v"
proof (cases "internal e")
  case True
  then show ?thesis using internal_Finished assms by blast
next
  case False
  then obtain j where "e = EvSpurious j" using assms(2) by (cases e) auto
  with assms show ?thesis by (auto simp: nth_list_update split: if_splits thread.splits)
qed

lemma own_added_no_master:
  assumes "cq_step T e s = Some s'" "own_event e" "tsum master_n (thr s) = 0"
  shows "added s' = added s"
proof (cases "internal e")
  case True
  then show ?thesis using internal_added [OF assms(1)] assms(3) tsum_nth_le [of _ "thr s" master_n] by force
next
  case False
  then obtain j where "e = EvSpurious j" using assms(2) by (cases e) auto
  with assms show ?thesis by (auto split: if_splits thread.splits)
qed

lemma nobody_waits:
  assumes "ctl_inv s" "\<forall>i < length (ctls s). \<not> in_wait (ctls s ! i)"
  shows "tsum master_n (thr (base s)) = 0"
proof (rule ccontr)
  assume "tsum master_n (thr (base s)) \<noteq> 0"
  then obtain j where j: "j < length (thr (base s))" "0 < master_n (thr (base s) ! j)"
    using tsum_pos_ex [of master_n "thr (base s)"] by auto
  then have "master_n (thr (base s) ! j) = 1" using master_n_01 [of "thr (base s) ! j"] by auto
  then show False using assms j(1) by (auto simp: ctl_inv_def)
qed

lemma TaskCheck_passes: "all_pass task_check_ops cs"
  by (simp add: all_pass_def task_check_ops_def TaskCheck_call_def list_all_iff)

lemma main_sizes:
  assumes "main_inv pc s"
  shows "ctl_inv s" "cq_reach task_check_ops 128 6 (base s)" "length (ctls s) = 6" "length (thr (base s)) = 6"
  using assms ctl_reach_inv [of task_check_ops 128 6 s] reach_length [of task_check_ops 128 6 "base s"]
  by (auto simp: main_inv_def)

lemma less_six: "i < (6::nat) \<Longrightarrow> i = 0 \<or> 1 \<le> i \<and> i \<le> 5"
  by linarith

lemma main_no_master:
  assumes "main_inv pc s" "pc \<noteq> 27"
  shows "tsum master_n (thr (base s)) = 0"
proof (rule nobody_waits)
  show "ctl_inv s" using main_sizes [OF assms(1)] by blast
  show "\<forall>i < length (ctls s). \<not> in_wait (ctls s ! i)"
  proof (intro allI impI)
    fix i assume "i < length (ctls s)"
    then consider "i = 0" | "1 \<le> i" "i \<le> 5" using less_six main_sizes(3) [OF assms(1)] by auto
    then show "\<not> in_wait (ctls s ! i)"
      by cases (use assms in \<open>auto simp: main_inv_def main_at_def in_wait_def split: if_splits\<close>)
  qed
qed

text \<open>The queue's own events.\<close>

lemma main_queue_inv:
  assumes inv: "main_inv pc s" and step: "ctl_step task_check_ops (QueueEvent e) s = Some s'"
  shows "main_inv pc s'"
proof -
  obtain b' where b: "own_event e" "cq_step task_check_ops e (base s) = Some b'" "s' = s\<lparr>base := b'\<rparr>"
    using step by (auto simp: ctl_defs simp del: cq_step.simps split: if_splits)
  note sz = main_sizes [OF inv]
  have r: "ctl_reach task_check_ops 128 6 s'"
    using inv step ctl_reach.step [of task_check_ops 128 6 s "QueueEvent e" s'] by (simp add: main_inv_def)
  have dorm: "thr b' ! k = Dormant" if "thr (base s) ! k = Dormant" "k < 6" for k
    using own_Dormant [OF b(2,1)] that sz(4) by simp
  have fin: "thr (base s) ! 0 = Finished True True \<Longrightarrow> thr b' ! 0 = Finished True True"
    using own_Finished [OF b(2,1)] sz(4) by simp
  have same: "added b' = added (base s)" if "pc \<noteq> 27"
    using own_added_no_master [OF b(2,1)] main_no_master [OF inv that] by simp
  have "main_at pc s'"
  proof (cases "pc = 27")
    case False
    then show ?thesis using inv b(3) dorm [of 0] fin same
      by (auto simp: main_inv_def main_at_def split: if_splits)
  next
    case True
    then have at: "ctls s ! 0 = Waiting" "master_n (thr (base s) ! 0) = 1 \<and> added (base s) = replicate 20 TaskCheck_ctor \<or>
         thr (base s) ! 0 = Finished True True \<and> added (base s) = []"
      using inv by (auto simp: main_inv_def main_at_def)
    have "master_n (thr b' ! 0) = 1 \<and> added b' = replicate 20 TaskCheck_ctor \<or>
         thr b' ! 0 = Finished True True \<and> added b' = []"
      using at(2)
    proof (elim disjE conjE)
      assume m: "master_n (thr (base s) ! 0) = 1" "added (base s) = replicate 20 TaskCheck_ctor"
      show ?thesis
      proof (cases "internal e")
        case True
        have "thr (base s) ! 0 \<noteq> Finished True True" using m(1) by auto
        moreover have "cq_inv task_check_ops (base s)" using task_check.reach_inv [OF sz(2)] by simp
        ultimately have "thr b' ! 0 = Finished True True \<Longrightarrow> added b' = []"
          using task_check.step_return [OF _ _ b(2), of 0 True] sz(4) by simp
        then show ?thesis
          using task_check.internal_master [OF sz(2) _ b(2) True, of 0] m by (auto simp: TaskCheck_passes)
      next
        case False
        then obtain j where "e = EvSpurious j" using b(1) by (cases e) auto
        with b(2) m sz(4) show ?thesis by (cases "j = 0") (auto split: if_splits thread.splits)
      qed
    next
      assume "thr (base s) ! 0 = Finished True True" "added (base s) = []"
      then show ?thesis using fin own_added [OF b(2,1)] by auto
    qed
    then show ?thesis using at(1) b(3) True by (simp add: main_at_def)
  qed
  then show ?thesis using inv r b(3) dorm by (auto simp: main_inv_def)
qed

text \<open>The statements of \<open>main\<close>.\<close>

lemma add_nth_Dormant:
  assumes "cq_step T (EvAdd vs c) s = Some s'" "k < length (thr s)" "thr s ! k = Dormant"
  shows "thr s' ! k = Dormant"
  using assms
  by (auto simp: notify_all_def waiting_onE split: prod.splits notification.splits dest: notify_one_nth [where i = k])

lemma main_small_add:
  assumes inv: "main_inv pc s" and e: "main_stmt pc c = Some e"
  shows "small_add e s"
proof (cases "6 \<le> pc \<and> pc < 26")
  case True
  then have "e = CtlAdd 0 [TaskCheck_ctor] c" "length (added (base s)) = pc - 6"
    using e inv by (auto simp: main_stmt_def main_inv_def main_at_def)
  moreover have "pending (base s) \<le> length (added (base s))"
    using task_check.reach_pending_added [of 128 6 "base s"] main_sizes(2) [OF inv] by simp
  ultimately have "pending (base s) < 26" using True by linarith
  with \<open>e = _\<close> show ?thesis by simp
next
  case False
  then show ?thesis using e by (auto simp: main_stmt_def split: if_splits)
qed

lemma main_stmt_inv:
  assumes inv: "main_inv pc s" and e: "main_stmt pc c = Some e" and step: "ctl_step task_check_ops e s = Some s'"
  shows "main_inv (Suc pc) s'"
proof -
  note sz = main_sizes [OF inv]
  have r: "ctl_reach task_check_ops 128 6 s'"
    using inv step main_small_add [OF inv e] by (auto simp: main_inv_def intro: ctl_reach.step)
  have pc: "pc \<le> 28" using e by (auto simp: main_stmt_def split: if_splits)
  have I: "main_at pc s" "\<forall>k. pc \<le> k \<and> 1 \<le> k \<and> k \<le> 5 \<longrightarrow> thr (base s) ! k = Dormant"
    "\<forall>k. 1 \<le> k \<and> k \<le> 5 \<longrightarrow> ctls s ! k = NoCtl"
    using inv by (auto simp: main_inv_def)
  consider "pc = 0" | "1 \<le> pc" "pc \<le> 5" | "6 \<le> pc" "pc < 26" | "pc = 26" | "pc = 27" | "pc = 28"
    using pc by linarith
  then have "main_at (Suc pc) s' \<and> (\<forall>k. Suc pc \<le> k \<and> 1 \<le> k \<and> k \<le> 5 \<longrightarrow> thr (base s') ! k = Dormant) \<and>
    (\<forall>k. 1 \<le> k \<and> k \<le> 5 \<longrightarrow> ctls s' ! k = NoCtl)"
  proof cases
    case 1
    then show ?thesis using I e step sz(3,4)
      by (auto simp: main_stmt_def main_at_def ctl_construct_def split: if_splits)
  next
    case 2
    then show ?thesis using I e step sz(3,4)
      by (auto simp: main_stmt_def main_at_def start_worker_def on_base_Some split: if_splits)
  next
    case 3
    then have at: "ctls s ! 0 = Held False" "thr (base s) ! 0 = Dormant"
      "added (base s) = replicate (pc - 6) TaskCheck_ctor" "e = CtlAdd 0 [TaskCheck_ctor] c"
      using I(1) e by (auto simp: main_at_def main_stmt_def)
    then obtain b' where b: "cq_step task_check_ops (EvAdd [TaskCheck_ctor] c) (base s) = Some b'"
      "s' = \<lparr>base = b', owner = owner s, ctls = ctls s\<rparr>"
      using step by (auto simp: ctl_add_def on_base_Some simp del: cq_step.simps split: if_splits)
    have "added b' = added (base s) @ [TaskCheck_ctor]" using b(1) by (auto split: prod.splits)
    moreover have "Suc pc - 6 = Suc (pc - 6)" using 3 by simp
    ultimately have "added b' = replicate (Suc pc - 6) TaskCheck_ctor"
      using at(3) by (simp add: replicate_append_same)
    then show ?thesis using 3 at b(2) I(3) add_nth_Dormant [OF b(1), of 0] sz(4) by (auto simp: main_at_def)
  next
    case 4
    then show ?thesis using I e step sz(3,4)
      by (auto simp: main_stmt_def main_at_def ctl_wait_def on_base_Some split: if_splits)
  next
    case 5
    then show ?thesis using I e step sz(3,4) returned_master [of s 0]
      by (auto simp: main_stmt_def main_at_def ctl_wait_ret_def split: if_splits)
  next
    case 6
    then show ?thesis using I e step sz(3,4)
      by (auto simp: main_stmt_def main_at_def ctl_destroy_def split: if_splits)
  qed
  then show ?thesis using r pc by (simp add: main_inv_def)
qed

lemma main_reach_inv: "main_reach pc s \<Longrightarrow> main_inv pc s"
proof (induction rule: main_reach.induct)
  case init
  have "ctl_reach task_check_ops 128 6 main_init" unfolding main_init_def by (rule ctl_reach.init)
  moreover have "main_at 0 main_init" by (simp add: main_init_def main_at_def ctl_init_def cq_init_def)
  ultimately show ?case by (auto simp: main_inv_def) (auto simp: main_init_def ctl_init_def cq_init_def)
next
  case (stmt pc s c e s')
  then show ?case by (blast intro: main_stmt_inv)
next
  case (queue pc s e s')
  then show ?case by (blast intro: main_queue_inv)
qed

section \<open>Properties\<close>

text \<open>C9: when \<open>main\<close> is past the destructor of \<open>control\<close>, its \<open>Wait\<close> has returned true, no check is
  queued or in a batch, and the controller's mutex is free; none of the five workers has returned, so
  they are still inside the queue that \<open>main\<close> destroys next.\<close>

theorem main_completes:
  assumes "main_reach 29 s"
  shows "thr (base s) ! 0 = Finished True True \<and> pending (base s) = 0 \<and> owner s = None \<and>
    (\<forall>k v. k < 6 \<longrightarrow> thr (base s) ! k \<noteq> Finished False v)"
proof -
  have inv: "main_inv 29 s" using main_reach_inv [OF assms] .
  then have "thr (base s) ! 0 = Finished True True" "owner s = None" "added (base s) = []"
    by (auto simp: main_inv_def main_at_def)
  moreover have "pending (base s) \<le> length (added (base s))"
    using task_check.reach_pending_added [of 128 6 "base s"] main_sizes(2) [OF inv] by simp
  moreover have "thr (base s) ! k \<noteq> Finished False v" if "k < 6" for k v
    using task_check.reach_no_worker_return [OF main_sizes(2) [OF inv] _ that] by simp
  ultimately show ?thesis by simp
qed

definition main_alone :: "TaskCheck cq_event option list" where
  "main_alone = replicate 27 None @
     map Some (EvTop 0 None # concat (map (\<lambda>n. replicate (n + 1) (EvRun 0) @ [EvTop 0 None]) [10, 5, 2, 1, 1, 1])) @
     replicate 2 None"

theorem main_completes_witness:
  "\<exists>s. main_play main_alone (0, main_init) = Some (29, s) \<and> main_reach 29 s \<and>
     thr (base s) ! 0 = Finished True True \<and> pending (base s) = 0"
proof -
  have "map_option fst (main_play main_alone (0, main_init)) = Some 29" by code_simp
  then obtain s where s: "main_play main_alone (0, main_init) = Some (29, s)" by auto
  then have r: "main_reach 29 s" by (rule main_play_reach [OF main_reach.init])
  show ?thesis using s r main_completes [OF r] by (intro exI [of _ s]) simp
qed

text \<open>the event with which the \<open>Wait\<close> of \<open>main\<close> returns gives true, and at that time
  exactly twenty checks have been executed, whichever of the six threads executed them.\<close>

theorem main_runs_twenty:
  assumes "main_reach 27 s" "master_n (thr (base s) ! 0) = 1"
    and "ctl_step task_check_ops (QueueEvent e) s = Some s'" "thr (base s') ! 0 = Finished True v"
  shows "v \<and> mset (ran (base s)) = replicate_mset 20 TaskCheck"
proof -
  have inv: "main_inv 27 s" using main_reach_inv [OF assms(1)] .
  note sz = main_sizes [OF inv]
  have ne: "thr (base s) ! 0 \<noteq> Finished True w" for w using assms(2) by auto
  then have a: "added (base s) = replicate 20 TaskCheck_ctor"
    using inv by (auto simp: main_inv_def main_at_def)
  obtain b' where b: "cq_step task_check_ops e (base s) = Some b'" "base s' = b'"
    using assms(3) by (auto simp: on_base_Some simp del: cq_step.simps split: if_splits)
  have "cq_inv task_check_ops (base s)" using task_check.reach_inv [OF sz(2)] by simp
  then have "v = all_pass task_check_ops (added (base s)) \<and> (v \<longrightarrow> mset (ran (base s)) = mset (added (base s)))"
    using task_check.step_return [OF _ _ b(1), of 0 v] sz(4) assms(4) ne b(2) by simp
  then show ?thesis by (simp add: a TaskCheck_passes TaskCheck_ctor_def)
qed

definition main_last :: "TaskCheck cq_event option list" where
  "main_last = replicate 27 None @
     map Some (EvTop 0 None # concat (map (\<lambda>n. replicate (n + 1) (EvRun 0) @ [EvTop 0 None]) [10, 5, 2, 1, 1]) @
       [EvRun 0, EvRun 0])"

theorem main_runs_twenty_witness:
  "\<exists>s s'. main_play main_last (0, main_init) = Some (27, s) \<and>
     ctl_step task_check_ops (QueueEvent (EvTop 0 None)) s = Some s' \<and>
     thr (base s') ! 0 = Finished True True \<and> mset (ran (base s)) = replicate_mset 20 TaskCheck"
proof -
  let ?last = "\<lambda>s. Option.bind (ctl_step task_check_ops (QueueEvent (EvTop 0 None)) s) (\<lambda>s'.
    Some (master_n (thr (base s) ! 0), thr (base s') ! 0))"
  have "Option.bind (main_play main_last (0, main_init)) (\<lambda>(pc, s). map_option (Pair pc) (?last s)) =
      Some (27, 1, Finished True True)" by code_simp
  then obtain s s' where s: "main_play main_last (0, main_init) = Some (27, s)"
    "ctl_step task_check_ops (QueueEvent (EvTop 0 None)) s = Some s'"
    "master_n (thr (base s) ! 0) = 1" "thr (base s') ! 0 = Finished True True"
    by (auto simp: bind_eq_Some_conv simp del: ctl_step.simps)
  then have r: "main_reach 27 s" by (intro main_play_reach [OF main_reach.init])
  show ?thesis using s main_runs_twenty [OF r s(3,2,4)]
    by (intro exI [of _ s] exI [of _ s']) (simp del: ctl_step.simps)
qed

text \<open>\<open>main\<close> cannot get stuck. As long as it has not passed the destructor of \<open>control\<close>, its
  next statement can be executed or some thread of the queue has an event to make.\<close>

theorem main_progress:
  assumes "main_reach pc s" "pc < 29"
  shows "(\<exists>c e s'. main_stmt pc c = Some e \<and> ctl_step task_check_ops e s = Some s') \<or>
    (\<exists>e s'. internal e \<and> ctl_step task_check_ops (QueueEvent e) s = Some s')"
proof -
  have inv: "main_inv pc s" using main_reach_inv [OF assms(1)] .
  note sz = main_sizes [OF inv]
  have I: "main_at pc s" "\<forall>k. pc \<le> k \<and> 1 \<le> k \<and> k \<le> 5 \<longrightarrow> thr (base s) ! k = Dormant"
    "\<forall>k. 1 \<le> k \<and> k \<le> 5 \<longrightarrow> ctls s ! k = NoCtl"
    using inv by (auto simp: main_inv_def)
  consider "pc = 27" "master_n (thr (base s) ! 0) = 1" | "pc = 27" "thr (base s) ! 0 = Finished True True"
    | "6 \<le> pc" "pc < 26" | "pc \<noteq> 27" "\<not> (6 \<le> pc \<and> pc < 26)"
    using I(1) by (cases "pc = 27"; cases "6 \<le> pc \<and> pc < 26") (auto simp: main_at_def)
  then show ?thesis
  proof cases
    case 1
    have "cq_inv task_check_ops (base s)" using task_check.reach_inv [OF sz(2)] by simp
    moreover have "0 < tsum master_n (thr (base s))"
      using tsum_nth_le [of 0 "thr (base s)" master_n] 1(2) sz(4) by simp
    ultimately have "\<not> quiescent task_check_ops (base s)"
      using master_progress active_not_quiescent reach_outside [OF sz(2)] by blast
    then obtain e b' where "internal e" "cq_step task_check_ops e (base s) = Some b'"
      by (auto simp: quiescent_def)
    moreover from this(1) have "own_event e" by (cases e) auto
    ultimately show ?thesis by (auto simp: on_base_def simp del: cq_step.simps)
  next
    case 3
    obtain c ts where "notify_one False c (thr (base s)) = Some ts" using notify_one_ex by blast
    then have "\<exists>b'. cq_step task_check_ops (EvAdd [TaskCheck_ctor] c) (base s) = Some b'"
      by (simp add: task_check.Add_eq)
    moreover have "main_stmt pc c = Some (CtlAdd 0 [TaskCheck_ctor] c)" using 3 by (simp add: main_stmt_def)
    moreover have "ctls s ! 0 = Held False" "thr (base s) ! 0 = Dormant" using I(1) 3 by (auto simp: main_at_def)
    ultimately show ?thesis using sz(3,4)
      by (intro disjI1 exI [of _ c]) (auto simp: ctl_add_def at_client_def on_base_def simp del: cq_step.simps)
  qed (use I assms(2) sz(3,4) in \<open>auto simp: main_stmt_def main_at_def ctl_defs at_client_def returned_def
      split: if_splits\<close>)
qed

theorem main_progress_witness:
  "main_stmt 0 None = Some (Construct 0 True) \<and>
   ((\<exists>c e s'. main_stmt 0 c = Some e \<and> ctl_step task_check_ops e main_init = Some s') \<or>
    (\<exists>e s'. internal e \<and> ctl_step task_check_ops (QueueEvent e) main_init = Some s'))"
  using main_progress [OF main_reach.init] by (simp add: main_stmt_def del: ctl_step.simps)

end
