(* ===== verification/Semaphore.thy ===== *)
theory Semaphore
  imports Prelude
begin

text \<open>
  \<open>CSemaphore\<close> (boostthreadcontrol/sync.h): a counter behind a mutex and a condition variable.
  The critical sections are functions on the counter; the threads that run them, with the
  notification that \<open>post\<close> sends after it gave the mutex back, are an inductive step relation.
\<close>

section \<open>The counter\<close>

record csem =
  sem_value :: int

definition new_CSemaphore :: "int \<Rightarrow> csem" where
  "new_CSemaphore init = \<lparr>sem_value = init\<rparr>"

text \<open>The test of the loop in \<open>wait\<close>: \<open>None\<close> when the thread has to sleep. \<open>try_wait\<close> makes the
  same test once.\<close>

definition wait_test :: "csem \<Rightarrow> csem option" where
  "wait_test s = (if sem_value s < 1 then None else Some (s\<lparr>sem_value := sem_value s - 1\<rparr>))"

definition try_wait :: "csem \<Rightarrow> bool \<times> csem" where
  "try_wait s = (if sem_value s < 1 then (False, s) else (True, s\<lparr>sem_value := sem_value s - 1\<rparr>))"

text \<open>\<open>value\<close> is an \<open>int\<close>: \<open>value++\<close> has no defined result at its largest value, which is \<open>None\<close>.\<close>

definition int_max :: int where
  "int_max = 2 ^ 31 - 1"

definition post_add :: "csem \<Rightarrow> csem option" where
  "post_add s = (if sem_value s = int_max then None else Some (s\<lparr>sem_value := sem_value s + 1\<rparr>))"

section \<open>The threads\<close>

text \<open>\<open>SemNotify\<close> is between the block of \<open>post\<close> and its \<open>notify_one\<close>.\<close>

datatype sem_thread = SemOut | SemWaiting | SemWoken | SemNotify

record sem_sys =
  sem :: csem
  sthr :: "sem_thread list"
  taken :: nat
  posted :: nat

datatype sem_event =
    SemWait nat
  | SemWake nat
  | SemTry nat bool
  | SemPost nat
  | SemDone nat "nat option"
  | SemSpurious nat

definition sem_at :: "sem_sys \<Rightarrow> nat \<Rightarrow> sem_thread \<Rightarrow> bool" where
  "sem_at s i t \<longleftrightarrow> i < length (sthr s) \<and> sthr s ! i = t"

definition sem_take :: "nat \<Rightarrow> csem \<Rightarrow> sem_sys \<Rightarrow> sem_sys" where
  "sem_take i c s = s\<lparr>sem := c, sthr := (sthr s)[i := SemOut], taken := taken s + 1\<rparr>"

definition sem_sleep :: "nat \<Rightarrow> sem_sys \<Rightarrow> sem_sys" where
  "sem_sleep i s = s\<lparr>sthr := (sthr s)[i := SemWaiting]\<rparr>"

text \<open>A \<open>post\<close> whose increment is not defined is not a step.\<close>

inductive sem_step :: "sem_event \<Rightarrow> sem_sys \<Rightarrow> sem_sys \<Rightarrow> bool" where
  wait_take: "sem_at s i SemOut \<Longrightarrow> wait_test (sem s) = Some c \<Longrightarrow> sem_step (SemWait i) s (sem_take i c s)"
| wait_sleep: "sem_at s i SemOut \<Longrightarrow> wait_test (sem s) = None \<Longrightarrow> sem_step (SemWait i) s (sem_sleep i s)"
| wake_take: "sem_at s i SemWoken \<Longrightarrow> wait_test (sem s) = Some c \<Longrightarrow> sem_step (SemWake i) s (sem_take i c s)"
| wake_sleep: "sem_at s i SemWoken \<Longrightarrow> wait_test (sem s) = None \<Longrightarrow> sem_step (SemWake i) s (sem_sleep i s)"
| try_take: "sem_at s i SemOut \<Longrightarrow> try_wait (sem s) = (True, c) \<Longrightarrow> sem_step (SemTry i True) s (sem_take i c s)"
| try_fail: "sem_at s i SemOut \<Longrightarrow> try_wait (sem s) = (False, c) \<Longrightarrow>
    sem_step (SemTry i False) s (s\<lparr>sem := c\<rparr>)"
| post: "sem_at s i SemOut \<Longrightarrow> post_add (sem s) = Some c \<Longrightarrow>
    sem_step (SemPost i) s (s\<lparr>sem := c, sthr := (sthr s)[i := SemNotify], posted := posted s + 1\<rparr>)"
| notify_one: "sem_at s i SemNotify \<Longrightarrow> sem_at s j SemWaiting \<Longrightarrow>
    sem_step (SemDone i (Some j)) s (s\<lparr>sthr := (sthr s)[i := SemOut, j := SemWoken]\<rparr>)"
| notify_none: "sem_at s i SemNotify \<Longrightarrow> SemWaiting \<notin> set (sthr s) \<Longrightarrow>
    sem_step (SemDone i None) s (s\<lparr>sthr := (sthr s)[i := SemOut]\<rparr>)"
| spurious: "sem_at s i SemWaiting \<Longrightarrow>
    sem_step (SemSpurious i) s (s\<lparr>sthr := (sthr s)[i := SemWoken]\<rparr>)"

definition sem_init :: "int \<Rightarrow> nat \<Rightarrow> sem_sys" where
  "sem_init v n = \<lparr>sem = new_CSemaphore v, sthr = replicate n SemOut, taken = 0, posted = 0\<rparr>"

inductive sem_reach :: "int \<Rightarrow> nat \<Rightarrow> sem_sys \<Rightarrow> bool" for v n where
  start: "sem_reach v n (sem_init v n)"
| step: "sem_reach v n s \<Longrightarrow> sem_step e s s' \<Longrightarrow> sem_reach v n s'"

inductive_cases wakeE: "sem_step (SemWake i) s s'"
inductive_cases doneE: "sem_step (SemDone i c) s s'"

section \<open>Accounting and wake-ups\<close>

fun of_waiting :: "sem_thread \<Rightarrow> nat" where
  "of_waiting SemWaiting = 1"
| "of_waiting _ = 0"

text \<open>What a thread still brings to a sleeper: a woken thread tests again, a notification is due.\<close>

fun of_due :: "sem_thread \<Rightarrow> nat" where
  "of_due SemWoken = 1"
| "of_due SemNotify = 1"
| "of_due _ = 0"

definition sem_inv :: "int \<Rightarrow> sem_sys \<Rightarrow> bool" where
  "sem_inv v s \<longleftrightarrow>
     sem_value (sem s) = v + int (posted s) - int (taken s) \<and> min v 0 \<le> sem_value (sem s) \<and>
     (v \<le> int_max \<longrightarrow> sem_value (sem s) \<le> int_max) \<and>
     (0 < tsum of_waiting (sthr s) \<longrightarrow> sem_value (sem s) \<le> int (tsum of_due (sthr s)))"

lemma sem_update:
  "sem_at s i t \<Longrightarrow> tsum f ((sthr s)[i := t']) + f t = tsum f (sthr s) + (f t' :: nat)"
  using tsum_update [of i "sthr s" f t'] by (simp add: sem_at_def)

lemma sem_update_two:
  assumes "sem_at s i SemNotify" "sem_at s j SemWaiting"
  shows "tsum f ((sthr s)[i := SemOut, j := SemWoken]) + f SemNotify + f SemWaiting =
    tsum f (sthr s) + f SemOut + (f SemWoken :: nat)"
proof -
  have "i \<noteq> j" using assms by (auto simp: sem_at_def)
  then have "sem_at (s\<lparr>sthr := (sthr s)[i := SemOut]\<rparr>) j SemWaiting"
    using assms by (simp add: sem_at_def)
  from sem_update [OF this, of f SemWoken] sem_update [OF assms(1), of f SemOut] show ?thesis by simp
qed

lemma no_sleeper: "SemWaiting \<notin> set ts \<longleftrightarrow> tsum of_waiting ts = 0"
proof -
  have "of_waiting t = 0 \<longleftrightarrow> t \<noteq> SemWaiting" for t by (cases t) auto
  then show ?thesis by (auto simp: tsum_eq_0_iff)
qed

lemma wait_test_Some: "wait_test c = Some c' \<longleftrightarrow> 1 \<le> sem_value c \<and> c' = c\<lparr>sem_value := sem_value c - 1\<rparr>"
  by (auto simp: wait_test_def)

lemma wait_test_None: "wait_test c = None \<longleftrightarrow> sem_value c < 1"
  by (simp add: wait_test_def)

lemma post_add_Some:
  "post_add c = Some c' \<longleftrightarrow> sem_value c \<noteq> int_max \<and> c' = c\<lparr>sem_value := sem_value c + 1\<rparr>"
  by (auto simp: post_add_def)

lemma try_wait_True: "try_wait c = (True, c') \<longleftrightarrow> wait_test c = Some c'"
  by (auto simp: wait_test_def try_wait_def)

lemma try_wait_False: "try_wait c = (False, c') \<longleftrightarrow> wait_test c = None \<and> c' = c"
  by (auto simp: wait_test_def try_wait_def)

lemmas wait_simps = wait_test_Some wait_test_None try_wait_True try_wait_False

lemma sem_step_inv: "sem_step e s s' \<Longrightarrow> sem_inv v s \<Longrightarrow> sem_inv v s'"
proof (induction rule: sem_step.induct)
  case (wait_take s i c)
  then show ?case using sem_update [of s i SemOut of_waiting SemOut] sem_update [of s i SemOut of_due SemOut]
    by (auto simp: sem_inv_def sem_take_def wait_simps)
next
  case (wait_sleep s i)
  then show ?case by (auto simp: sem_inv_def sem_sleep_def wait_simps)
next
  case (wake_take s i c)
  then show ?case using sem_update [of s i SemWoken of_waiting SemOut] sem_update [of s i SemWoken of_due SemOut]
    by (auto simp: sem_inv_def sem_take_def wait_simps)
next
  case (wake_sleep s i)
  then show ?case by (auto simp: sem_inv_def sem_sleep_def wait_simps)
next
  case (try_take s i c)
  then show ?case using sem_update [of s i SemOut of_waiting SemOut] sem_update [of s i SemOut of_due SemOut]
    by (auto simp: sem_inv_def sem_take_def wait_simps)
next
  case (try_fail s i c)
  then show ?case by (auto simp: sem_inv_def wait_simps)
next
  case (post s i c)
  then show ?case
    using sem_update [of s i SemOut of_waiting SemNotify] sem_update [of s i SemOut of_due SemNotify]
    by (auto simp: sem_inv_def post_add_Some)
next
  case (notify_one s i j)
  then show ?case using sem_update_two [of s i j of_waiting] sem_update_two [of s i j of_due]
    by (auto simp: sem_inv_def)
next
  case (notify_none s i)
  then show ?case using sem_update [of s i SemNotify of_waiting SemOut]
    by (auto simp: sem_inv_def no_sleeper)
next
  case (spurious s i)
  then show ?case
    using sem_update [of s i SemWaiting of_waiting SemWoken] sem_update [of s i SemWaiting of_due SemWoken]
    by (auto simp: sem_inv_def)
qed

lemma sem_reach_inv: "sem_reach v n s \<Longrightarrow> sem_inv v s"
proof (induction rule: sem_reach.induct)
  case start
  show ?case by (simp add: sem_inv_def sem_init_def new_CSemaphore_def)
qed (rule sem_step_inv)

section \<open>The semaphore's own events\<close>

text \<open>Wake-ups after a notification and due notifications happen without a new call.\<close>

fun sem_internal :: "sem_event \<Rightarrow> bool" where
  "sem_internal (SemWake i) = True"
| "sem_internal (SemDone i c) = True"
| "sem_internal _ = False"

inductive sem_run :: "sem_event list \<Rightarrow> sem_sys \<Rightarrow> sem_sys \<Rightarrow> bool" where
  stop: "sem_run [] s s"
| go: "sem_internal e \<Longrightarrow> sem_step e s s1 \<Longrightarrow> sem_run es s1 s' \<Longrightarrow> sem_run (e # es) s s'"

fun sem_weight :: "sem_thread \<Rightarrow> nat" where
  "sem_weight SemWoken = 1"
| "sem_weight SemNotify = 2"
| "sem_weight _ = 0"

definition sem_measure :: "sem_sys \<Rightarrow> nat" where
  "sem_measure s = tsum sem_weight (sthr s)"

lemma sem_internal_measure: "sem_step e s s' \<Longrightarrow> sem_internal e \<Longrightarrow> sem_measure s' < sem_measure s"
proof (induction rule: sem_step.induct)
  case (wake_take s i c)
  then show ?case using sem_update [of s i SemWoken sem_weight SemOut]
    by (simp add: sem_measure_def sem_take_def)
next
  case (wake_sleep s i)
  then show ?case using sem_update [of s i SemWoken sem_weight SemWaiting]
    by (simp add: sem_measure_def sem_sleep_def)
next
  case (notify_one s i j)
  then show ?case using sem_update_two [of s i j sem_weight] by (simp add: sem_measure_def)
next
  case (notify_none s i)
  then show ?case using sem_update [of s i SemNotify sem_weight SemOut] by (simp add: sem_measure_def)
qed simp_all

lemma sem_run_reach: "sem_run es s s' \<Longrightarrow> sem_reach v n s \<Longrightarrow> sem_reach v n s' \<and> length es \<le> sem_measure s"
proof (induction rule: sem_run.induct)
  case (go e s s1 es s')
  then have "sem_reach v n s1" by (blast intro: sem_reach.step)
  with go sem_internal_measure [of e s s1] show ?case by simp
qed simp

lemma sem_step_length: "sem_step e s s' \<Longrightarrow> length (sthr s') = length (sthr s)"
  by (induction rule: sem_step.induct) (simp_all add: sem_take_def sem_sleep_def)

lemma sem_reach_length: "sem_reach v n s \<Longrightarrow> length (sthr s) = n"
  by (induction rule: sem_reach.induct) (simp_all add: sem_init_def sem_step_length)

lemma sem_measure_bound: "sem_reach v n s \<Longrightarrow> sem_measure s \<le> 2 * n"
proof -
  have "sem_weight t \<le> 2" for t by (cases t) simp_all
  then show "sem_reach v n s \<Longrightarrow> ?thesis"
    using tsum_le_length [of sem_weight 2 "sthr s"] sem_reach_length by (auto simp: sem_measure_def)
qed

text \<open>No own event is left.\<close>

definition sem_quiet :: "sem_sys \<Rightarrow> bool" where
  "sem_quiet s \<longleftrightarrow> (\<forall>e s'. sem_internal e \<longrightarrow> \<not> sem_step e s s')"

lemma sem_run_to_quiet: "\<exists>es s'. sem_run es s s' \<and> sem_quiet s'"
proof (induction "sem_measure s" arbitrary: s rule: less_induct)
  case less
  show ?case
  proof (cases "sem_quiet s")
    case True
    then show ?thesis using sem_run.stop by blast
  next
    case False
    then obtain e s1 where e: "sem_internal e" "sem_step e s s1" by (auto simp: sem_quiet_def)
    from less.hyps [OF sem_internal_measure [OF e(2,1)]] obtain es s' where "sem_run es s1 s'" "sem_quiet s'" by blast
    then show ?thesis using sem_run.go [OF e] by blast
  qed
qed

lemma wake_enabled: "sem_at s i SemWoken \<Longrightarrow> \<exists>s'. sem_step (SemWake i) s s'"
  by (cases "wait_test (sem s)") (blast intro: sem_step.intros)+

lemma done_enabled: "sem_at s i SemNotify \<Longrightarrow> \<exists>c s'. sem_step (SemDone i c) s s'"
proof (cases "SemWaiting \<in> set (sthr s)")
  case True
  then obtain j where "sem_at s j SemWaiting" by (auto simp: in_set_conv_nth sem_at_def)
  then show "sem_at s i SemNotify \<Longrightarrow> ?thesis" by (blast intro: sem_step.intros)
qed (blast intro: sem_step.intros)

lemma due_enabled:
  assumes "0 < tsum of_due (sthr s)"
  shows "\<exists>e s'. sem_internal e \<and> sem_step e s s'"
proof -
  obtain i where i: "i < length (sthr s)" "0 < of_due (sthr s ! i)" using tsum_pos_ex [OF assms] by blast
  then consider "sem_at s i SemWoken" | "sem_at s i SemNotify"
    by (cases "sthr s ! i") (auto simp: sem_at_def)
  then show ?thesis using wake_enabled done_enabled sem_internal.simps(1,2) by cases blast+
qed

section \<open>Properties\<close>

text \<open>C12: the counter is the initial value plus the posts minus the successful waits, whatever
  the initial value is, and stays in the range of \<open>int\<close>; it never goes below zero or below an initial value that
  is negative, so that no more threads are past \<open>wait\<close> than a non-negative initial value and the posts allow. A
  \<open>post\<close> is undefined exactly when the units inside the semaphore are \<open>2 ^ 31 - 1\<close>.\<close>

theorem semaphore_counts:
  assumes "- (2 ^ 31) \<le> v" "v < 2 ^ 31" "sem_reach v n s"
  shows "sem_value (sem s) = v + int (posted s) - int (taken s) \<and>
    - (2 ^ 31) \<le> sem_value (sem s) \<and> sem_value (sem s) < 2 ^ 31 \<and>
    int (taken s) \<le> max v 0 + int (posted s) \<and>
    (post_add (sem s) = None \<longleftrightarrow> v + int (posted s) - int (taken s) = 2 ^ 31 - 1)"
  using sem_reach_inv [OF assms(3)] assms(1,2) by (auto simp: sem_inv_def int_max_def post_add_def)

lemma sem_example:
  fixes s0 s1 s2 s3 s4 :: sem_sys
  defines "s0 \<equiv> sem_init 1 3"
    and "s1 \<equiv> \<lparr>sem = \<lparr>sem_value = 0\<rparr>, sthr = [SemOut, SemOut, SemOut], taken = 1, posted = 0\<rparr>"
    and "s2 \<equiv> \<lparr>sem = \<lparr>sem_value = 0\<rparr>, sthr = [SemOut, SemWaiting, SemOut], taken = 1, posted = 0\<rparr>"
    and "s3 \<equiv> \<lparr>sem = \<lparr>sem_value = 1\<rparr>, sthr = [SemNotify, SemWaiting, SemOut], taken = 1, posted = 1\<rparr>"
    and "s4 \<equiv> \<lparr>sem = \<lparr>sem_value = 1\<rparr>, sthr = [SemOut, SemWoken, SemOut], taken = 1, posted = 1\<rparr>"
  shows "sem_step (SemWait 0) s0 s1" "sem_step (SemWait 1) s1 s2" "sem_step (SemPost 0) s2 s3"
    "sem_step (SemDone 0 (Some 1)) s3 s4"
    "sem_step (SemWake 1) s4 \<lparr>sem = \<lparr>sem_value = 0\<rparr>, sthr = [SemOut, SemOut, SemOut], taken = 2, posted = 1\<rparr>"
proof -
  note defs = s0_def s1_def s2_def s3_def s4_def sem_init_def new_CSemaphore_def sem_at_def
    wait_test_def sem_take_def sem_sleep_def post_add_def int_max_def
  show "sem_step (SemWait 0) s0 s1"
    using wait_take [of s0 0 "\<lparr>sem_value = 0\<rparr>"] by (simp add: defs eval_nat_numeral)
  show "sem_step (SemWait 1) s1 s2" using wait_sleep [of s1 1] by (simp add: defs)
  show "sem_step (SemPost 0) s2 s3" using post [of s2 0 "\<lparr>sem_value = 1\<rparr>"] by (simp add: defs)
  show "sem_step (SemDone 0 (Some 1)) s3 s4" using notify_one [of s3 0 1] by (simp add: defs)
  show "sem_step (SemWake 1) s4 \<lparr>sem = \<lparr>sem_value = 0\<rparr>, sthr = [SemOut, SemOut, SemOut], taken = 2, posted = 1\<rparr>"
    using wake_take [of s4 1 "\<lparr>sem_value = 0\<rparr>"] by (simp add: defs eval_nat_numeral)
qed

lemma sem_example_reach:
  "sem_reach 1 3 \<lparr>sem = \<lparr>sem_value = 1\<rparr>, sthr = [SemNotify, SemWaiting, SemOut], taken = 1, posted = 1\<rparr>"
  by (rule sem_reach.step [OF sem_reach.step [OF sem_reach.step [OF sem_reach.start sem_example(1)]
    sem_example(2)] sem_example(3)])

theorem semaphore_counts_witness:
  "\<exists>s. sem_reach 1 3 s \<and> sthr s = [SemNotify, SemWaiting, SemOut] \<and> taken s = 1 \<and> posted s = 1 \<and>
     sem_value (sem s) = 1 \<and> post_add (sem s) \<noteq> None"
  using semaphore_counts [OF _ _ sem_example_reach] sem_example_reach by (intro exI) auto

text \<open>C11: no wake-up is lost, although \<open>post\<close> notifies after it released the mutex and another
  thread may take the value first. Every schedule of the semaphore's own events, wake-ups after a notification
  and due notifications, has at most two events for each thread; each can be continued until none is left, and
  then no thread sleeps in \<open>wait\<close> while the value is positive.\<close>

theorem semaphore_wakes:
  assumes "sem_reach v n s" "sem_run es s s'"
  shows "length es \<le> 2 * n \<and> (\<exists>es' s''. sem_run es' s' s'' \<and> sem_quiet s'') \<and>
    (sem_quiet s' \<longrightarrow> SemWaiting \<in> set (sthr s') \<longrightarrow> sem_value (sem s') \<le> 0)"
proof (intro conjI impI)
  have r: "sem_reach v n s'" "length es \<le> sem_measure s" using sem_run_reach [OF assms(2,1)] by auto
  then show "length es \<le> 2 * n" using sem_measure_bound [OF assms(1)] by simp
  show "\<exists>es' s''. sem_run es' s' s'' \<and> sem_quiet s''" by (rule sem_run_to_quiet)
  assume "sem_quiet s'" "SemWaiting \<in> set (sthr s')"
  moreover from this(1) have "\<not> 0 < tsum of_due (sthr s')" using due_enabled [of s'] by (auto simp: sem_quiet_def)
  ultimately show "sem_value (sem s') \<le> 0"
    using sem_reach_inv [OF r(1)] no_sleeper [of "sthr s'"] by (auto simp: sem_inv_def)
qed

theorem semaphore_wakes_witness:
  "\<exists>s s' s'' es es'. sem_reach 1 3 s \<and> sthr s = [SemNotify, SemWaiting, SemOut] \<and> sem_run es s s' \<and>
     sthr s' = [SemOut, SemOut, SemOut] \<and> length es \<le> 6 \<and> sem_run es' s' s'' \<and> sem_quiet s''"
proof -
  let ?s = "\<lparr>sem = \<lparr>sem_value = 1\<rparr>, sthr = [SemNotify, SemWaiting, SemOut], taken = 1, posted = 1\<rparr>"
  let ?s' = "\<lparr>sem = \<lparr>sem_value = 0\<rparr>, sthr = [SemOut, SemOut, SemOut], taken = 2, posted = 1\<rparr>"
  let ?es = "[SemDone 0 (Some 1), SemWake 1]"
  have run: "sem_run ?es ?s ?s'" by (rule sem_run.go [OF _ sem_example(4) sem_run.go [OF _ sem_example(5) sem_run.stop]]) simp_all
  from semaphore_wakes [OF sem_example_reach run] obtain es' s'' where "sem_run es' ?s' s''" "sem_quiet s''" by auto
  then show ?thesis using semaphore_wakes [OF sem_example_reach run] sem_example_reach run
    by (intro exI [of _ ?s] exI [of _ ?s'] exI [of _ s''] exI [of _ ?es] exI [of _ es']) simp
qed

end
