(* ===== verification/Semaphore_Grant.thy ===== *)
theory Semaphore_Grant
  imports Semaphore
begin

text \<open>
  \<open>CSemaphoreGrant\<close> (boostthreadcontrol/sync.h): an object that holds at most one unit of a
  semaphore and gives it back when it is destroyed. The grants and the semaphores they point to
  live in a store, since \<open>MoveTo\<close> may be called with the object itself. What a grant needs of
  its semaphore is the locale \<open>semaphore\<close>, which \<open>CSemaphore\<close> is an instance of.
\<close>

section \<open>The interface of a semaphore\<close>

record 's sem_ops =
  s_wait :: "'s \<Rightarrow> 's option"
  s_try_wait :: "'s \<Rightarrow> bool \<times> 's"
  s_post :: "'s \<Rightarrow> 's option"
  s_units :: "'s \<Rightarrow> int"

definition CSemaphore_ops :: "csem sem_ops" where
  "CSemaphore_ops = \<lparr>s_wait = wait_test, s_try_wait = try_wait, s_post = post_add, s_units = sem_value\<rparr>"

locale semaphore =
  fixes S :: "'s sem_ops"
  assumes wait_takes: "s_wait S c = Some c' \<Longrightarrow> 1 \<le> s_units S c \<and> s_units S c' = s_units S c - 1"
    and wait_blocks: "s_wait S c = None \<longleftrightarrow> s_units S c < 1"
    and try_takes: "s_try_wait S c = (True, c') \<Longrightarrow> 1 \<le> s_units S c \<and> s_units S c' = s_units S c - 1"
    and try_fails: "s_try_wait S c = (False, c') \<Longrightarrow> s_units S c < 1 \<and> c' = c"
    and post_gives: "s_post S c = Some c' \<Longrightarrow> s_units S c' = s_units S c + 1"

interpretation csemaphore: semaphore CSemaphore_ops
  by unfold_locales (auto simp: CSemaphore_ops_def wait_simps post_add_Some)

section \<open>Grants\<close>

record grant =
  gsem :: "nat option"
  fHaveGrant :: bool

record 's gstore =
  gsems :: "'s list"
  grants :: "grant option list"

text \<open>\<open>Blocks\<close> is a call of \<open>sem->wait()\<close> that does not return before another thread posts;
  \<open>NullDeref\<close> a call through \<open>sem == nullptr\<close> or on a place without an object; \<open>Overflow\<close> a \<open>post\<close> at the
  largest value.\<close>

datatype 'a gresult = Ok 'a | Blocks | NullDeref | Overflow

definition grant_at :: "'s gstore \<Rightarrow> nat \<Rightarrow> grant option" where
  "grant_at st i = (if i < length (grants st) then grants st ! i else None)"

definition set_grant :: "nat \<Rightarrow> grant option \<Rightarrow> 's gstore \<Rightarrow> 's gstore" where
  "set_grant i g st = st\<lparr>grants := (grants st)[i := g]\<rparr>"

definition set_sem :: "nat \<Rightarrow> 's \<Rightarrow> 's gstore \<Rightarrow> 's gstore" where
  "set_sem k c st = st\<lparr>gsems := (gsems st)[k := c]\<rparr>"

definition Acquire :: "'s sem_ops \<Rightarrow> nat \<Rightarrow> 's gstore \<Rightarrow> 's gstore gresult" where
  "Acquire S i st =
     (case grant_at st i of
        None \<Rightarrow> NullDeref
      | Some g \<Rightarrow>
          if fHaveGrant g then Ok st
          else case gsem g of
            None \<Rightarrow> NullDeref
          | Some k \<Rightarrow> (case s_wait S (gsems st ! k) of
                None \<Rightarrow> Blocks
              | Some c \<Rightarrow> Ok (set_grant i (Some (g\<lparr>fHaveGrant := True\<rparr>)) (set_sem k c st))))"

definition Release :: "'s sem_ops \<Rightarrow> nat \<Rightarrow> 's gstore \<Rightarrow> 's gstore gresult" where
  "Release S i st =
     (case grant_at st i of
        None \<Rightarrow> NullDeref
      | Some g \<Rightarrow>
          if \<not> fHaveGrant g then Ok st
          else case gsem g of
            None \<Rightarrow> NullDeref
          | Some k \<Rightarrow> (case s_post S (gsems st ! k) of
                None \<Rightarrow> Overflow
              | Some c \<Rightarrow> Ok (set_grant i (Some (g\<lparr>fHaveGrant := False\<rparr>)) (set_sem k c st))))"

text \<open>\<open>if (!fHaveGrant && sem->try_wait()) fHaveGrant = true; return fHaveGrant;\<close>\<close>

definition TryAcquire :: "'s sem_ops \<Rightarrow> nat \<Rightarrow> 's gstore \<Rightarrow> (bool \<times> 's gstore) gresult" where
  "TryAcquire S i st =
     (case grant_at st i of
        None \<Rightarrow> NullDeref
      | Some g \<Rightarrow>
          if fHaveGrant g then Ok (True, st)
          else case gsem g of
            None \<Rightarrow> NullDeref
          | Some k \<Rightarrow> (let (b, c) = s_try_wait S (gsems st ! k)
              in if b then Ok (True, set_grant i (Some (g\<lparr>fHaveGrant := True\<rparr>)) (set_sem k c st))
                 else Ok (False, set_sem k c st)))"

text \<open>\<open>MoveTo\<close>, statement by statement: the argument releases what it holds, takes over the
  pointer and the flag, and the object gives its flag up. Both may be the same object.\<close>

definition MoveTo :: "'s sem_ops \<Rightarrow> nat \<Rightarrow> nat \<Rightarrow> 's gstore \<Rightarrow> 's gstore gresult" where
  "MoveTo S i j st =
     (case Release S j st of
        Ok st1 \<Rightarrow>
          (case (grant_at st1 i, grant_at st1 j) of
             (Some this, Some other) \<Rightarrow>
               (let st2 = set_grant j (Some (other\<lparr>gsem := gsem this, fHaveGrant := fHaveGrant this\<rparr>)) st1
                in case grant_at st2 i of
                     Some this' \<Rightarrow> Ok (set_grant i (Some (this'\<lparr>fHaveGrant := False\<rparr>)) st2)
                   | None \<Rightarrow> NullDeref)
           | _ \<Rightarrow> NullDeref)
      | Blocks \<Rightarrow> Blocks
      | NullDeref \<Rightarrow> NullDeref
      | Overflow \<Rightarrow> Overflow)"

text \<open>The constructors at a free place, and the destructor.\<close>

definition free_at :: "'s gstore \<Rightarrow> nat \<Rightarrow> bool" where
  "free_at st i \<longleftrightarrow> i < length (grants st) \<and> grants st ! i = None"

definition new_grant :: "nat \<Rightarrow> 's gstore \<Rightarrow> 's gstore gresult" where
  "new_grant i st =
     (if free_at st i then Ok (set_grant i (Some \<lparr>gsem = None, fHaveGrant = False\<rparr>) st) else NullDeref)"

definition new_grant_on :: "'s sem_ops \<Rightarrow> nat \<Rightarrow> nat \<Rightarrow> bool \<Rightarrow> 's gstore \<Rightarrow> 's gstore gresult" where
  "new_grant_on S i k fTry st =
     (if free_at st i \<and> k < length (gsems st) then
        (let st1 = set_grant i (Some \<lparr>gsem = Some k, fHaveGrant = False\<rparr>) st
         in if fTry then (case TryAcquire S i st1 of Ok (_, st2) \<Rightarrow> Ok st2 | Blocks \<Rightarrow> Blocks | NullDeref \<Rightarrow> NullDeref | Overflow \<Rightarrow> Overflow)
            else Acquire S i st1)
      else NullDeref)"

definition delete_grant :: "'s sem_ops \<Rightarrow> nat \<Rightarrow> 's gstore \<Rightarrow> 's gstore gresult" where
  "delete_grant S i st =
     (case Release S i st of Ok st1 \<Rightarrow> Ok (set_grant i None st1) | Blocks \<Rightarrow> Blocks | NullDeref \<Rightarrow> NullDeref | Overflow \<Rightarrow> Overflow)"

text \<open>\<open>operator bool\<close>.\<close>

definition grant_bool :: "nat \<Rightarrow> 's gstore \<Rightarrow> bool option" where
  "grant_bool i st = map_option fHaveGrant (grant_at st i)"

datatype grant_call =
    NewGrant nat
  | NewGrantOn nat nat bool
  | CallAcquire nat
  | CallRelease nat
  | CallTryAcquire nat
  | CallMoveTo nat nat
  | DeleteGrant nat

fun grant_step :: "'s sem_ops \<Rightarrow> grant_call \<Rightarrow> 's gstore \<Rightarrow> 's gstore gresult" where
  "grant_step S (NewGrant i) st = new_grant i st"
| "grant_step S (NewGrantOn i k f) st = new_grant_on S i k f st"
| "grant_step S (CallAcquire i) st = Acquire S i st"
| "grant_step S (CallRelease i) st = Release S i st"
| "grant_step S (CallTryAcquire i) st =
     (case TryAcquire S i st of Ok (_, st1) \<Rightarrow> Ok st1 | Blocks \<Rightarrow> Blocks | NullDeref \<Rightarrow> NullDeref | Overflow \<Rightarrow> Overflow)"
| "grant_step S (CallMoveTo i j) st = MoveTo S i j st"
| "grant_step S (DeleteGrant i) st = delete_grant S i st"

fun grant_run :: "'s sem_ops \<Rightarrow> grant_call list \<Rightarrow> 's gstore \<Rightarrow> 's gstore gresult" where
  "grant_run S [] st = Ok st"
| "grant_run S (c # cs) st =
     (case grant_step S c st of Ok st1 \<Rightarrow> grant_run S cs st1 | Blocks \<Rightarrow> Blocks | NullDeref \<Rightarrow> NullDeref | Overflow \<Rightarrow> Overflow)"

text \<open>The class declares no copy constructor and no assignment, so the compiler supplies both, memberwise. They are
  not among the calls above: no code of the repository uses them, and \<open>copy_doubles\<close> shows what they would do.\<close>

definition copy_grant :: "nat \<Rightarrow> nat \<Rightarrow> 's gstore \<Rightarrow> 's gstore gresult" where
  "copy_grant i j st =
     (case grant_at st i of
        None \<Rightarrow> NullDeref
      | Some g \<Rightarrow> if free_at st j then Ok (set_grant j (Some g) st) else NullDeref)"

definition assign_grant :: "nat \<Rightarrow> nat \<Rightarrow> 's gstore \<Rightarrow> 's gstore gresult" where
  "assign_grant i j st =
     (case (grant_at st i, grant_at st j) of
        (Some g, Some _) \<Rightarrow> Ok (set_grant j (Some g) st)
      | _ \<Rightarrow> NullDeref)"

section \<open>Units are conserved\<close>

definition held_n :: "nat \<Rightarrow> grant option \<Rightarrow> nat" where
  "held_n k go = (case go of None \<Rightarrow> 0 | Some g \<Rightarrow> if fHaveGrant g \<and> gsem g = Some k then 1 else 0)"

text \<open>The units of semaphore \<open>k\<close>, those inside it and those that grants hold.\<close>

definition credit :: "'s sem_ops \<Rightarrow> nat \<Rightarrow> 's gstore \<Rightarrow> int" where
  "credit S k st = s_units S (gsems st ! k) + int (tsum (held_n k) (grants st))"

definition wf_grant :: "nat \<Rightarrow> grant option \<Rightarrow> bool" where
  "wf_grant n go =
     (case go of None \<Rightarrow> True
      | Some g \<Rightarrow> (case gsem g of None \<Rightarrow> \<not> fHaveGrant g | Some k \<Rightarrow> k < n))"

definition grants_wf :: "'s gstore \<Rightarrow> bool" where
  "grants_wf st \<longleftrightarrow> list_all (wf_grant (length (gsems st))) (grants st)"

definition conserves :: "'s sem_ops \<Rightarrow> 's gstore \<Rightarrow> 's gstore \<Rightarrow> bool" where
  "conserves S st st' \<longleftrightarrow> grants_wf st' \<and> length (gsems st') = length (gsems st) \<and>
     (\<forall>k < length (gsems st). credit S k st' = credit S k st)"

lemma conserves_refl: "grants_wf st \<Longrightarrow> conserves S st st"
  by (simp add: conserves_def)

lemma conserves_trans: "conserves S st st1 \<Longrightarrow> conserves S st1 st2 \<Longrightarrow> conserves S st st2"
  by (simp add: conserves_def)

lemma grant_at_Some: "grant_at st i = Some g \<longleftrightarrow> i < length (grants st) \<and> grants st ! i = Some g"
  by (simp add: grant_at_def)

lemma grant_at_less: "grant_at st i = Some g \<Longrightarrow> i < length (grants st)"
  by (simp add: grant_at_Some)

lemma set_grant_twice [simp]: "set_grant i a (set_grant i b st) = set_grant i a st"
  by (simp add: set_grant_def)

lemma set_grant_same: "grant_at st i = Some g \<Longrightarrow> set_grant i (Some g) st = st"
  using list_update_id [of "grants st" i] by (simp add: set_grant_def grant_at_Some)

lemma wf_at:
  assumes "grants_wf st" "grant_at st i = Some g"
  shows "wf_grant (length (gsems st)) (Some g)"
proof -
  have "Some g \<in> set (grants st)" using assms(2) nth_mem [of i "grants st"] by (auto simp: grant_at_Some)
  then show ?thesis using assms(1) by (auto simp: grants_wf_def list_all_iff)
qed

lemma wf_set_grant:
  "grants_wf st \<Longrightarrow> wf_grant (length (gsems st)) g \<Longrightarrow> grants_wf (set_grant i g st)"
  by (auto simp: grants_wf_def list_all_iff set_grant_def dest!: set_update_subset_insert [THEN subsetD])

lemma wf_set_sem: "grants_wf st \<Longrightarrow> grants_wf (set_sem k c st)"
  by (simp add: grants_wf_def set_sem_def)

lemma credit_set_grant:
  "i < length (grants st) \<Longrightarrow>
   credit S k (set_grant i g st) + int (held_n k (grants st ! i)) = credit S k st + int (held_n k g)"
  using tsum_update [of i "grants st" "held_n k" g] by (simp add: credit_def set_grant_def)

lemma credit_set_sem:
  "k' < length (gsems st) \<Longrightarrow>
   credit S k (set_sem k' c st) =
     credit S k st + (if k = k' then s_units S c - s_units S (gsems st ! k) else 0)"
  by (simp add: credit_def set_sem_def)

lemma store_simps [simp]:
  "grants (set_sem k c st) = grants st" "gsems (set_grant i g st) = gsems st"
  "length (gsems (set_sem k c st)) = length (gsems st)"
  "length (grants (set_grant i g st)) = length (grants st)"
  by (simp_all add: set_sem_def set_grant_def)

lemma grant_at_simps [simp]:
  "grant_at (set_sem k c st) i = grant_at st i"
  "grant_at (set_grant i g st) j = (if j = i \<and> i < length (grants st) then g else grant_at st j)"
  by (auto simp: grant_at_def set_sem_def set_grant_def nth_list_update)

text \<open>A unit moves between a semaphore and the grant at \<open>i\<close>.\<close>

lemma conserves_transfer:
  assumes "grants_wf st" "grant_at st i = Some g" "gsem g = Some k'" "fHaveGrant g = (\<not> b)"
    and "s_units S c = s_units S (gsems st ! k') + (if b then - 1 else 1)"
  shows "conserves S st (set_grant i (Some (g\<lparr>fHaveGrant := b\<rparr>)) (set_sem k' c st))"
proof -
  have k': "k' < length (gsems st)" using wf_at [OF assms(1,2)] assms(3) by (simp add: wf_grant_def)
  have i: "i < length (grants st)" "grants st ! i = Some g" using assms(2) by (auto simp: grant_at_Some)
  have "credit S k (set_grant i (Some (g\<lparr>fHaveGrant := b\<rparr>)) (set_sem k' c st)) = credit S k st" for k
    using credit_set_grant [of i "set_sem k' c st" S k "Some (g\<lparr>fHaveGrant := b\<rparr>)"]
      credit_set_sem [OF k', of S k c] i assms(3-5)
    by (auto simp: held_n_def split: if_splits)
  moreover have "grants_wf (set_grant i (Some (g\<lparr>fHaveGrant := b\<rparr>)) (set_sem k' c st))"
    using assms(1,3) k' by (intro wf_set_grant wf_set_sem) (simp_all add: wf_grant_def)
  ultimately show ?thesis by (simp add: conserves_def)
qed

lemma conserves_place:
  assumes "grants_wf st" "i < length (grants st)" "wf_grant (length (gsems st)) g"
    and "\<forall>k. held_n k g = held_n k (grants st ! i)"
  shows "conserves S st (set_grant i g st)"
  using assms credit_set_grant [OF assms(2), of S _ g] by (auto simp: conserves_def intro: wf_set_grant)

context semaphore
begin

lemma Acquire_conserves: "grants_wf st \<Longrightarrow> Acquire S i st = Ok st' \<Longrightarrow> conserves S st st'"
  by (auto simp: Acquire_def conserves_refl split: option.splits if_splits
    intro!: conserves_transfer dest: wait_takes)

lemma Release_conserves: "grants_wf st \<Longrightarrow> Release S i st = Ok st' \<Longrightarrow> conserves S st st'"
  by (auto simp: Release_def conserves_refl post_gives split: option.splits if_splits
    intro!: conserves_transfer)

lemma set_sem_same: "set_sem k (gsems st ! k) st = st"
  by (simp add: set_sem_def)

lemma TryAcquire_conserves: "grants_wf st \<Longrightarrow> TryAcquire S i st = Ok (b, st') \<Longrightarrow> conserves S st st'"
  by (auto simp: TryAcquire_def conserves_refl set_sem_same split: option.splits if_splits prod.splits
    intro!: conserves_transfer dest: try_takes try_fails)

lemma Release_gives_up:
  "Release S j st = Ok st1 \<Longrightarrow> \<exists>g. grant_at st1 j = Some g \<and> \<not> fHaveGrant g \<and> j < length (grants st1)"
  by (auto simp: Release_def split: option.splits if_splits dest: grant_at_less)

text \<open>What \<open>MoveTo\<close> does after the release: two grants change, the target holds nothing before.\<close>

lemma MoveTo_steps:
  assumes "MoveTo S i j st = Ok st'"
  obtains st1 this other where "Release S j st = Ok st1" "grant_at st1 i = Some this"
    "grant_at st1 j = Some other" "\<not> fHaveGrant other"
    "st' = (if i = j then set_grant i (Some other) st1
      else set_grant i (Some (this\<lparr>fHaveGrant := False\<rparr>))
        (set_grant j (Some \<lparr>gsem = gsem this, fHaveGrant = fHaveGrant this\<rparr>) st1))"
proof -
  obtain st1 where st1: "Release S j st = Ok st1" using assms by (auto simp: MoveTo_def split: gresult.splits)
  obtain other where o: "grant_at st1 j = Some other" "\<not> fHaveGrant other" "j < length (grants st1)"
    using Release_gives_up [OF st1] by blast
  obtain this where t: "grant_at st1 i = Some this"
    using assms st1 o by (auto simp: MoveTo_def split: option.splits)
  have "st' = (if i = j then set_grant i (Some other) st1
      else set_grant i (Some (this\<lparr>fHaveGrant := False\<rparr>))
        (set_grant j (Some \<lparr>gsem = gsem this, fHaveGrant = fHaveGrant this\<rparr>) st1))"
    using assms st1 o t by (cases this; cases other) (auto simp: MoveTo_def Let_def)
  then show ?thesis using that st1 t o by blast
qed

lemma MoveTo_conserves:
  assumes wf: "grants_wf st" and move: "MoveTo S i j st = Ok st'"
  shows "conserves S st st'"
  using move
proof (cases rule: MoveTo_steps)
  case (1 st1 this other)
  let ?new = "Some \<lparr>gsem = gsem this, fHaveGrant = fHaveGrant this\<rparr>"
  have c1: "conserves S st st1" using Release_conserves [OF wf 1(1)] .
  then have wf1: "grants_wf st1" by (simp add: conserves_def)
  have len: "i < length (grants st1)" "j < length (grants st1)" "grants st1 ! i = Some this"
    "grants st1 ! j = Some other" using 1(2,3) by (auto simp: grant_at_Some)
  have "conserves S st1 st'"
  proof (cases "i = j")
    case True
    then show ?thesis using 1 conserves_refl [OF wf1] by (simp add: set_grant_same)
  next
    case False
    have "credit S k st' = credit S k st1" for k
      using credit_set_grant [of i "set_grant j ?new st1" S k "Some (this\<lparr>fHaveGrant := False\<rparr>)"]
        credit_set_grant [OF len(2), of S k ?new] False 1(4,5) len
      by (simp add: held_n_def) (simp add: set_grant_def split: if_splits)
    moreover have "grants_wf st'"
      using False 1(5) wf_at [OF wf1 1(2)]
      by (auto intro!: wf_set_grant wf1 simp: wf_grant_def split: option.splits)
    ultimately show ?thesis using False 1(5) by (simp add: conserves_def)
  qed
  with c1 show ?thesis by (rule conserves_trans)
qed

lemma delete_conserves:
  assumes wf: "grants_wf st" and del: "delete_grant S i st = Ok st'"
  shows "conserves S st st'"
proof -
  obtain st1 where st1: "Release S i st = Ok st1" "st' = set_grant i None st1"
    using del by (auto simp: delete_grant_def split: gresult.splits)
  have c1: "conserves S st st1" using Release_conserves [OF wf st1(1)] .
  obtain g where "grant_at st1 i = Some g" "\<not> fHaveGrant g" "i < length (grants st1)"
    using Release_gives_up [OF st1(1)] by blast
  then have "conserves S st1 st'" unfolding st1(2)
    using c1 by (intro conserves_place) (auto simp: conserves_def wf_grant_def held_n_def grant_at_Some)
  with c1 show ?thesis by (rule conserves_trans)
qed

lemma new_conserves: "grants_wf st \<Longrightarrow> new_grant i st = Ok st' \<Longrightarrow> conserves S st st'"
  by (auto simp: new_grant_def free_at_def held_n_def wf_grant_def split: if_splits intro!: conserves_place)

lemma new_on_conserves:
  assumes wf: "grants_wf st" and new: "new_grant_on S i k f st = Ok st'"
  shows "conserves S st st'"
proof -
  let ?st1 = "set_grant i (Some \<lparr>gsem = Some k, fHaveGrant = False\<rparr>) st"
  have *: "free_at st i" "k < length (gsems st)" using new by (auto simp: new_grant_on_def split: if_splits)
  then have c1: "conserves S st ?st1" using wf
    by (intro conserves_place) (auto simp: free_at_def held_n_def wf_grant_def)
  then have "conserves S ?st1 st'"
    using new * Acquire_conserves [of ?st1 i st'] TryAcquire_conserves [of ?st1 i _ st']
    by (auto simp: new_grant_on_def conserves_def Let_def split: if_splits gresult.splits)
  with c1 show ?thesis by (rule conserves_trans)
qed

lemma grant_step_conserves: "grants_wf st \<Longrightarrow> grant_step S c st = Ok st' \<Longrightarrow> conserves S st st'"
  using TryAcquire_conserves [of st _ _ st']
  by (cases c) (auto intro: new_conserves new_on_conserves Acquire_conserves Release_conserves
    MoveTo_conserves delete_conserves split: gresult.splits)

lemma grant_run_conserves: "grants_wf st \<Longrightarrow> grant_run S cs st = Ok st' \<Longrightarrow> conserves S st st'"
proof (induction cs arbitrary: st)
  case Nil
  then show ?case by (simp add: conserves_refl)
next
  case (Cons c cs)
  then obtain st1 where st1: "grant_step S c st = Ok st1" "grant_run S cs st1 = Ok st'"
    by (auto split: gresult.splits)
  then have "conserves S st st1" using grant_step_conserves Cons.prems by blast
  then show ?case using Cons.IH st1 conserves_trans by (metis conserves_def)
qed

end

section \<open>Properties\<close>

lemmas grant_eval = CSemaphore_ops_def Acquire_def Release_def TryAcquire_def MoveTo_def new_grant_def
  new_grant_on_def delete_grant_def wait_test_def try_wait_def post_add_def int_max_def grant_at_def set_grant_def
  set_sem_def free_at_def

definition two_semaphores :: "csem gstore" where
  "two_semaphores = \<lparr>gsems = [new_CSemaphore 1, new_CSemaphore 2], grants = [None, None]\<rparr>"

definition held_pair :: "csem gstore" where
  "held_pair = \<lparr>gsems = [new_CSemaphore 0, new_CSemaphore 1],
     grants = [Some \<lparr>gsem = Some 0, fHaveGrant = True\<rparr>, Some \<lparr>gsem = Some 1, fHaveGrant = True\<rparr>]\<rparr>"

text \<open>C13: no sequence of the declared constructors, destructors and calls of grants creates or loses a unit
  of a semaphore: its value plus the number of grants that hold it stays the same, and a grant with the flag
  set always has a semaphore to give the unit back to.\<close>

theorem grants_conserve:
  assumes "grants_wf st" "grant_run CSemaphore_ops cs st = Ok st'" "k < length (gsems st)"
  shows "grants_wf st' \<and>
    sem_value (gsems st' ! k) + int (tsum (held_n k) (grants st')) =
    sem_value (gsems st ! k) + int (tsum (held_n k) (grants st))"
  using csemaphore.grant_run_conserves [OF assms(1,2)] assms(3)
  by (simp add: conserves_def credit_def CSemaphore_ops_def)

theorem grants_conserve_witness:
  "\<exists>st'. grant_run CSemaphore_ops [NewGrantOn 0 0 False, NewGrantOn 1 1 True, CallMoveTo 0 1] two_semaphores = Ok st' \<and>
     map sem_value (gsems st') = [0, 2] \<and> tsum (held_n 0) (grants st') = 1 \<and>
     sem_value (gsems st' ! 0) + int (tsum (held_n 0) (grants st')) = 1"
proof -
  let ?st' = "\<lparr>gsems = [\<lparr>sem_value = 0\<rparr>, \<lparr>sem_value = 2\<rparr>], grants = [Some \<lparr>gsem = Some 0, fHaveGrant = False\<rparr>,
    Some \<lparr>gsem = Some 0, fHaveGrant = True\<rparr>]\<rparr>"
  have run: "grant_run CSemaphore_ops [NewGrantOn 0 0 False, NewGrantOn 1 1 True, CallMoveTo 0 1] two_semaphores = Ok ?st'"
    by (simp add: grant_eval two_semaphores_def new_CSemaphore_def)
  have "grants_wf two_semaphores" by (simp add: grants_wf_def two_semaphores_def wf_grant_def)
  from grants_conserve [OF this run, of 0] show ?thesis
    using run by (intro exI [of _ ?st']) (simp add: two_semaphores_def new_CSemaphore_def held_n_def)
qed

text \<open>scoped use of grants is balanced: when every grant constructed has been destroyed,
  every semaphore is back at its value, whatever was acquired, released and moved in between.\<close>

theorem grants_give_back:
  assumes "set (grants st) \<subseteq> {None}" "grant_run CSemaphore_ops cs st = Ok st'" "set (grants st') \<subseteq> {None}"
  shows "gsems st' = gsems st"
proof (rule nth_equalityI)
  have wf: "grants_wf st" using assms(1) by (auto simp: grants_wf_def wf_grant_def list_all_iff)
  note c = csemaphore.grant_run_conserves [OF wf assms(2)]
  then show len: "length (gsems st') = length (gsems st)" by (simp add: conserves_def)
  have none: "tsum (held_n k) gs = 0" if "set gs \<subseteq> {None}" for k gs
    using that by (auto simp: tsum_eq_0_iff held_n_def)
  fix k assume "k < length (gsems st')"
  then have "sem_value (gsems st' ! k) = sem_value (gsems st ! k)"
    using c len none [OF assms(1)] none [OF assms(3)] by (simp add: conserves_def credit_def CSemaphore_ops_def)
  then show "gsems st' ! k = gsems st ! k" by simp
qed

theorem grants_give_back_witness:
  "\<exists>st'. grant_run CSemaphore_ops
      [NewGrantOn 0 0 False, NewGrant 1, CallMoveTo 0 1, DeleteGrant 0, DeleteGrant 1] two_semaphores = Ok st' \<and>
    gsems st' = gsems two_semaphores"
proof -
  have run: "grant_run CSemaphore_ops
      [NewGrantOn 0 0 False, NewGrant 1, CallMoveTo 0 1, DeleteGrant 0, DeleteGrant 1] two_semaphores = Ok two_semaphores"
    by (simp add: grant_eval two_semaphores_def new_CSemaphore_def)
  have none: "set (grants two_semaphores) \<subseteq> {None}" by (simp add: two_semaphores_def)
  show ?thesis using run grants_give_back [OF none run none] by blast
qed

text \<open>\<open>MoveTo\<close> between two grants hands the semaphore and the flag over. What the target
  held before goes back to its semaphore, the source keeps its pointer without the flag, and no other grant changes.\<close>

theorem move_transfers:
  assumes "grants_wf st" "i \<noteq> j" "grant_at st i = Some this" "grant_at st j = Some other"
    and "fHaveGrant other \<Longrightarrow> post_add (gsems st ! the (gsem other)) = Some c"
  shows "\<exists>st'. MoveTo CSemaphore_ops i j st = Ok st' \<and>
    grant_at st' j = Some this \<and> grant_at st' i = Some (this\<lparr>fHaveGrant := False\<rparr>) \<and>
    (\<forall>l. l \<noteq> i \<longrightarrow> l \<noteq> j \<longrightarrow> grant_at st' l = grant_at st l) \<and>
    gsems st' = (if fHaveGrant other
      then (gsems st)[the (gsem other) := c] else gsems st)"
proof -
  have wf: "fHaveGrant other \<Longrightarrow> \<exists>k. gsem other = Some k"
    using wf_at [OF assms(1,4)] by (auto simp: wf_grant_def split: option.splits)
  have len: "i < length (grants st)" "j < length (grants st)" using assms(3,4) grant_at_less by blast+
  have "fHaveGrant other \<Longrightarrow> ?thesis"
    using assms(2-5) wf len
    by (cases this) (auto simp: MoveTo_def Release_def Let_def CSemaphore_ops_def, auto simp: set_sem_def)
  moreover have "\<not> fHaveGrant other \<Longrightarrow> ?thesis"
    using assms(2-4) len by (cases this) (auto simp: MoveTo_def Release_def Let_def)
  ultimately show ?thesis by blast
qed

theorem move_transfers_witness:
  "\<exists>st'. MoveTo CSemaphore_ops 0 1 held_pair = Ok st' \<and>
     grant_at st' 1 = Some \<lparr>gsem = Some 0, fHaveGrant = True\<rparr> \<and> map sem_value (gsems st') = [0, 2]"
proof -
  have wf: "grants_wf held_pair" by (simp add: grants_wf_def held_pair_def wf_grant_def)
  have at: "grant_at held_pair 0 = Some \<lparr>gsem = Some 0, fHaveGrant = True\<rparr>"
    "grant_at held_pair 1 = Some \<lparr>gsem = Some 1, fHaveGrant = True\<rparr>"
    "gsems held_pair = [new_CSemaphore 0, new_CSemaphore 1]"
    by (simp_all add: held_pair_def grant_at_def)
  show ?thesis using move_transfers [OF wf _ at(1,2), of "\<lparr>sem_value = 2\<rparr>"]
    by (auto simp: at(3) post_add_def int_max_def new_CSemaphore_def)
qed

text \<open>over an existing semaphore, \<open>Acquire\<close> blocks exactly if the grant does not hold a unit
  and none is left, \<open>TryAcquire\<close> fails in just that case and changes nothing then, and neither touches an
  invalid pointer; a grant that holds its unit takes no second one.\<close>

theorem acquire_outcomes:
  assumes "grant_at st i = Some g" "gsem g = Some k" "k < length (gsems st)"
  shows "(if fHaveGrant g then Acquire CSemaphore_ops i st = Ok st \<and> TryAcquire CSemaphore_ops i st = Ok (True, st)
    else if sem_value (gsems st ! k) < 1
      then Acquire CSemaphore_ops i st = Blocks \<and> TryAcquire CSemaphore_ops i st = Ok (False, st)
    else \<exists>st'. Acquire CSemaphore_ops i st = Ok st' \<and> TryAcquire CSemaphore_ops i st = Ok (True, st') \<and>
      sem_value (gsems st' ! k) = sem_value (gsems st ! k) - 1 \<and> grant_at st' i = Some (g\<lparr>fHaveGrant := True\<rparr>))"
  using assms grant_at_less [OF assms(1)]
  by (auto simp: Acquire_def TryAcquire_def CSemaphore_ops_def wait_test_def try_wait_def csemaphore.set_sem_same)
    (simp add: set_sem_def)

theorem acquire_outcomes_witness:
  "Acquire CSemaphore_ops 0 (held_pair\<lparr>grants := [Some \<lparr>gsem = Some 0, fHaveGrant = False\<rparr>]\<rparr>) = Blocks"
  using acquire_outcomes [of "held_pair\<lparr>grants := [Some \<lparr>gsem = Some 0, fHaveGrant = False\<rparr>]\<rparr>" 0
    "\<lparr>gsem = Some 0, fHaveGrant = False\<rparr>" 0]
  by (simp add: held_pair_def grant_at_def new_CSemaphore_def)

text \<open>A copy of a grant that holds a unit gives the unit back a second time.\<close>

theorem copy_doubles:
  "\<exists>st1 st2. grant_run CSemaphore_ops [NewGrantOn 0 0 False] two_semaphores = Ok st1 \<and> copy_grant 0 1 st1 = Ok st2 \<and>
     (case grant_run CSemaphore_ops [DeleteGrant 0, DeleteGrant 1] st2 of
        Ok st3 \<Rightarrow> map sem_value (gsems two_semaphores) = [1, 2] \<and> map sem_value (gsems st3) = [2, 2]
      | _ \<Rightarrow> False)"
  by (simp add: grant_eval two_semaphores_def new_CSemaphore_def copy_grant_def)

end
