(* ===== verification/StdMap.thy ===== *)
theory StdMap
  imports Prelude "HOL-Library.Product_Lexorder"
begin

text \<open>
  \<open>std::map\<close> and \<open>std::set\<close> as the sources use them: association lists kept in the order of
  their keys, with the operations \<open>count\<close>, \<open>operator[]\<close>, \<open>insert\<close>, \<open>erase\<close> and the traversal from
  \<open>lower_bound\<close>. A set is a map to \<open>unit\<close>. The locale states what the clients rely on.
\<close>

section \<open>The interface\<close>

locale ordered_map =
  fixes get :: "'m \<Rightarrow> 'k::linorder \<Rightarrow> 'v option"
    and put :: "'k \<Rightarrow> 'v \<Rightarrow> 'm \<Rightarrow> 'm"
    and erase :: "'k \<Rightarrow> 'm \<Rightarrow> 'm"
    and from_key :: "'k \<Rightarrow> 'm \<Rightarrow> ('k \<times> 'v) list"
    and wf :: "'m \<Rightarrow> bool"
  assumes wf_put: "wf m \<Longrightarrow> wf (put k v m)"
    and get_put: "wf m \<Longrightarrow> get (put k v m) = (get m)(k \<mapsto> v)"
    and wf_erase: "wf m \<Longrightarrow> wf (erase k m)"
    and get_erase: "wf m \<Longrightarrow> get (erase k m) = (get m)(k := None)"
    and from_sorted: "wf m \<Longrightarrow> sorted_wrt (\<lambda>a b. fst a < fst b) (from_key k m)"
    and from_set: "wf m \<Longrightarrow> set (from_key k m) = {(k', v). get m k' = Some v \<and> k \<le> k'}"
begin

text \<open>Erasing a list of keys, one after the other.\<close>

lemma erase_list: "wf m \<Longrightarrow> wf (fold erase ks m) \<and> get (fold erase ks m) = (get m) |` (- set ks)"
proof (induction ks arbitrary: m)
  case Nil
  then show ?case by (simp add: restrict_map_def)
next
  case (Cons k ks)
  then have "wf (erase k m)" by (simp add: wf_erase)
  with Cons.IH [OF this] Cons.prems show ?case
    by (auto simp: get_erase restrict_map_def fun_eq_iff)
qed

text \<open>A traversal from \<open>lower_bound\<close> that stops at the first key outside an interval sees the whole
  interval.\<close>

lemma takeWhile_sorted:
  assumes "sorted_wrt (\<lambda>a b. fst a < fst b) xs"
    and "\<And>a b. a \<in> set xs \<Longrightarrow> b \<in> set xs \<Longrightarrow> fst a < fst b \<Longrightarrow> P b \<Longrightarrow> P a"
  shows "set (takeWhile P xs) = {x \<in> set xs. P x}"
  using assms
proof (induction xs)
  case (Cons x xs)
  have "set (takeWhile P xs) = {x \<in> set xs. P x}"
  proof (rule Cons.IH)
    show "P a" if "a \<in> set xs" "b \<in> set xs" "fst a < fst b" "P b" for a b
      using Cons.prems(2) [of a b] that by simp
  qed (use Cons.prems(1) in simp)
  moreover have "\<not> P x \<Longrightarrow> \<forall>y \<in> set xs. \<not> P y" using Cons.prems(1) Cons.prems(2) [of x] by auto
  ultimately show ?case by auto
qed simp

lemma traverse_set:
  assumes "wf m" "\<And>k1 k2. k \<le> k1 \<Longrightarrow> k1 < k2 \<Longrightarrow> P k2 \<Longrightarrow> P k1"
  shows "set (takeWhile (P \<circ> fst) (from_key k m)) = {(k', v). get m k' = Some v \<and> k \<le> k' \<and> P k'}"
proof -
  have "set (takeWhile (P \<circ> fst) (from_key k m)) = {x \<in> set (from_key k m). (P \<circ> fst) x}"
    using assms by (intro takeWhile_sorted from_sorted) (auto simp: from_set)
  then show ?thesis using from_set [OF assms(1)] by auto
qed

end

section \<open>Sorted association lists\<close>

type_synonym ('k, 'v) std_map = "('k \<times> 'v) list"

definition sm_wf :: "('k::linorder, 'v) std_map \<Rightarrow> bool" where
  "sm_wf m \<longleftrightarrow> sorted_wrt (\<lambda>a b. fst a < fst b) m"

fun sm_put :: "'k::linorder \<Rightarrow> 'v \<Rightarrow> ('k, 'v) std_map \<Rightarrow> ('k, 'v) std_map" where
  "sm_put k v [] = [(k, v)]"
| "sm_put k v ((k', v') # m) =
     (if k < k' then (k, v) # (k', v') # m
      else if k = k' then (k, v) # m
      else (k', v') # sm_put k v m)"

definition sm_erase :: "'k \<Rightarrow> ('k, 'v) std_map \<Rightarrow> ('k, 'v) std_map" where
  "sm_erase k m = filter (\<lambda>e. fst e \<noteq> k) m"

definition sm_from :: "'k::linorder \<Rightarrow> ('k, 'v) std_map \<Rightarrow> ('k \<times> 'v) list" where
  "sm_from k m = dropWhile (\<lambda>e. fst e < k) m"

definition sm_count :: "('k, 'v) std_map \<Rightarrow> 'k \<Rightarrow> bool" where
  "sm_count m k \<longleftrightarrow> map_of m k \<noteq> None"

lemma sm_put_keys: "set (map fst (sm_put k v m)) = insert k (set (map fst m))"
  by (induction k v m rule: sm_put.induct) auto

lemma sm_put_wf: "sm_wf m \<Longrightarrow> sm_wf (sm_put k v m)"
  unfolding sm_wf_def
proof (induction k v m rule: sm_put.induct)
  case (2 k v k' v' m)
  then have "k' < k \<Longrightarrow> \<forall>a \<in> set (sm_put k v m). k' < fst a"
    using sm_put_keys [of k v m] by (auto simp: image_iff set_eq_iff) (metis fst_conv)
  with 2 show ?case by (auto simp: not_less le_less)
qed simp

lemma sm_put_get: "sm_wf m \<Longrightarrow> map_of (sm_put k v m) = (map_of m)(k \<mapsto> v)"
  unfolding sm_wf_def by (induction k v m rule: sm_put.induct) (auto simp: fun_eq_iff)

lemma sm_erase_get: "map_of (sm_erase k m) = (map_of m)(k := None)"
  by (induction m) (auto simp: sm_erase_def fun_eq_iff)

lemma sm_wf_filter: "sm_wf m \<Longrightarrow> sm_wf (filter P m)"
  by (simp add: sm_wf_def sorted_wrt_filter)

lemma sm_wf_map_of: "sm_wf m \<Longrightarrow> map_of m k = Some v \<longleftrightarrow> (k, v) \<in> set m"
proof -
  assume "sm_wf m"
  then have "distinct (map fst m)" unfolding sm_wf_def
    by (induction m) auto
  then show ?thesis by simp
qed

lemma sm_from_filter: "sm_wf m \<Longrightarrow> sm_from k m = filter (\<lambda>e. k \<le> fst e) m"
  unfolding sm_wf_def sm_from_def
proof (induction m)
  case (Cons a m)
  have "\<not> fst a < k \<Longrightarrow> filter (\<lambda>e. k \<le> fst e) m = m"
    using Cons.prems by (auto simp: filter_id_conv)
  with Cons show ?case by (auto simp: not_less)
qed simp

interpretation std_map: ordered_map map_of sm_put sm_erase sm_from sm_wf
proof unfold_locales
  fix m :: "('a::linorder \<times> 'b) list" and k v
  assume wf: "sm_wf m"
  show "sm_wf (sm_put k v m)" using wf by (rule sm_put_wf)
  show "map_of (sm_put k v m) = (map_of m)(k \<mapsto> v)" using wf by (rule sm_put_get)
  show "sm_wf (sm_erase k m)" using wf by (simp add: sm_erase_def sm_wf_filter)
  show "map_of (sm_erase k m) = (map_of m)(k := None)" by (rule sm_erase_get)
  show "sorted_wrt (\<lambda>a b. fst a < fst b) (sm_from k m)"
    using wf sm_wf_filter [OF wf] by (simp add: sm_from_filter flip: sm_wf_def)
  show "set (sm_from k m) = {(k', v). map_of m k' = Some v \<and> k \<le> k'}"
    using wf by (auto simp: sm_from_filter sm_wf_map_of)
qed

end
