(* ===== verification/LockOrder.thy ===== *)
theory LockOrder
  imports StdMap
begin

text \<open>
  The lock order checker of boostthreadcontrol/sync.cpp (built with \<open>DEBUG_LOCKORDER\<close>): each
  thread's stack of the locks it holds, the map \<open>lockorders\<close> of the pairs of locks taken one after
  the other, with the stack at that time, and the set \<open>invlockorders\<close> of the reversed pairs. Every
  function is one step: the shared data is only touched under \<open>dd_mutex\<close>. An address is a 64 bit
  word. \<open>itostr\<close>, which the file calls and the repository does not contain, is a parameter.
\<close>

section \<open>Data\<close>

record CLockLocation =
  fTry :: bool
  mutexName :: string
  sourceFile :: string
  sourceLine :: int

definition new_CLockLocation :: "string \<Rightarrow> string \<Rightarrow> int \<Rightarrow> bool \<Rightarrow> CLockLocation" where
  "new_CLockLocation pszName pszFile nLine fTryIn =
     \<lparr>fTry = fTryIn, mutexName = pszName, sourceFile = pszFile, sourceLine = nLine\<rparr>"

definition ToString :: "(int \<Rightarrow> string) \<Rightarrow> CLockLocation \<Rightarrow> string" where
  "ToString itostr l = mutexName l @ ''  '' @ sourceFile l @ '':'' @ itostr (sourceLine l) @
     (if fTry l then '' (TRY)'' else '''')"

type_synonym LockStack = "(u64 \<times> CLockLocation) list"

record LockData =
  available :: bool
  lockorders :: "(u64 \<times> u64, LockStack) std_map"
  invlockorders :: "(u64 \<times> u64, unit) std_map"

definition new_LockData :: LockData where
  "new_LockData = \<lparr>available = True, lockorders = [], invlockorders = []\<rparr>"

text \<open>\<open>lockstack\<close> is a \<open>thread_specific_ptr\<close>, null in a thread until it first pushes.\<close>

record lock_state =
  lockdata :: LockData
  lockstack :: "nat \<Rightarrow> LockStack option"

text \<open>How a function ends: normally, in \<open>potential_deadlock_detected\<close> with the mismatched pair and
  the two stacks, in a failed assertion, or in undefined behaviour.\<close>

datatype 'a lock_result =
    Fine 'a
  | Deadlock "u64 \<times> u64" LockStack LockStack
  | AssertFailed string
  | NullStack

section \<open>The functions\<close>

text \<open>\<open>operator[]\<close> of the map, with the default constructed stack for a missing key.\<close>

definition orders_at :: "LockData \<Rightarrow> u64 \<times> u64 \<Rightarrow> LockStack" where
  "orders_at d p = (case map_of (lockorders d) p of Some st \<Rightarrow> st | None \<Rightarrow> [])"

fun push_loop :: "u64 \<Rightarrow> LockStack \<Rightarrow> LockStack \<Rightarrow> LockData \<Rightarrow> LockData lock_result" where
  "push_loop c stack [] d = Fine d"
| "push_loop c stack (i # is) d =
     (if fst i = c then Fine d
      else
        let p1 = (fst i, c)
        in if sm_count (lockorders d) p1 then push_loop c stack is d
           else
             let d1 = d\<lparr>lockorders := sm_put p1 stack (lockorders d)\<rparr>;
                 p2 = (c, fst i);
                 d2 = d1\<lparr>invlockorders := sm_put p2 () (invlockorders d1)\<rparr>
             in if sm_count (lockorders d2) p2 then Deadlock p1 (orders_at d2 p2) (orders_at d2 p1)
                else push_loop c stack is d2)"

definition push_lock :: "nat \<Rightarrow> u64 \<Rightarrow> CLockLocation \<Rightarrow> lock_state \<Rightarrow> lock_state lock_result" where
  "push_lock t c locklocation s =
     (let st = (case lockstack s t of None \<Rightarrow> [] | Some st \<Rightarrow> st) @ [(c, locklocation)]
      in case push_loop c st st (lockdata s) of
           Fine d \<Rightarrow> Fine (s\<lparr>lockdata := d, lockstack := (lockstack s)(t \<mapsto> st)\<rparr>)
         | Deadlock p s1 s2 \<Rightarrow> Deadlock p s1 s2
         | AssertFailed m \<Rightarrow> AssertFailed m
         | NullStack \<Rightarrow> NullStack)"

text \<open>\<open>pop_back\<close> of an empty vector, and any use of a null \<open>lockstack\<close>, has no defined meaning.\<close>

definition pop_lock :: "nat \<Rightarrow> lock_state \<Rightarrow> lock_state lock_result" where
  "pop_lock t s =
     (case lockstack s t of
        None \<Rightarrow> NullStack
      | Some st \<Rightarrow> if st = [] then NullStack
          else Fine (s\<lparr>lockstack := (lockstack s)(t \<mapsto> butlast st)\<rparr>))"

definition EnterCritical :: "nat \<Rightarrow> string \<Rightarrow> string \<Rightarrow> int \<Rightarrow> u64 \<Rightarrow> bool \<Rightarrow> lock_state \<Rightarrow> lock_state lock_result" where
  "EnterCritical t pszName pszFile nLine cs tried s = push_lock t cs (new_CLockLocation pszName pszFile nLine tried) s"

definition LeaveCritical :: "nat \<Rightarrow> lock_state \<Rightarrow> lock_state lock_result" where
  "LeaveCritical t s = pop_lock t s"

fun locks_text :: "(int \<Rightarrow> string) \<Rightarrow> LockStack \<Rightarrow> string \<Rightarrow> string" where
  "locks_text itostr [] result = result"
| "locks_text itostr (i # is) result = locks_text itostr is (result @ ToString itostr (snd i) @ [CHR 0x0A])"

definition LocksHeld :: "(int \<Rightarrow> string) \<Rightarrow> nat \<Rightarrow> lock_state \<Rightarrow> string lock_result" where
  "LocksHeld itostr t s =
     (case lockstack s t of None \<Rightarrow> NullStack | Some st \<Rightarrow> Fine (locks_text itostr st ''''))"

fun find_lock :: "u64 \<Rightarrow> LockStack \<Rightarrow> bool" where
  "find_lock cs [] = False"
| "find_lock cs (i # is) = (if fst i = cs then True else find_lock cs is)"

text \<open>The text is the part of the message that depends on the state.\<close>

definition AssertLockHeldInternal :: "(int \<Rightarrow> string) \<Rightarrow> nat \<Rightarrow> u64 \<Rightarrow> lock_state \<Rightarrow> unit lock_result" where
  "AssertLockHeldInternal itostr t cs s =
     (case lockstack s t of
        None \<Rightarrow> NullStack
      | Some st \<Rightarrow> if find_lock cs st then Fine () else AssertFailed (locks_text itostr st ''''))"

text \<open>The two loops of \<open>DeleteLock\<close>, over the entries from \<open>lower_bound\<close> on. The iterator is
  advanced before its element is erased, so the entries still to come are unaffected.\<close>

fun delete_orders :: "u64 \<Rightarrow> (u64 \<times> u64) list \<Rightarrow> LockData \<Rightarrow> LockData" where
  "delete_orders cs [] d = d"
| "delete_orders cs (it # its) d =
     (if fst it = cs then
        delete_orders cs its
          (d\<lparr>invlockorders := sm_erase (snd it, fst it) (invlockorders d), lockorders := sm_erase it (lockorders d)\<rparr>)
      else d)"

fun delete_invorders :: "u64 \<Rightarrow> (u64 \<times> u64) list \<Rightarrow> LockData \<Rightarrow> LockData" where
  "delete_invorders cs [] d = d"
| "delete_invorders cs (it # its) d =
     (if fst it = cs then
        delete_invorders cs its
          (d\<lparr>lockorders := sm_erase (snd it, fst it) (lockorders d), invlockorders := sm_erase it (invlockorders d)\<rparr>)
      else d)"

definition delete_lock_data :: "u64 \<Rightarrow> LockData \<Rightarrow> LockData" where
  "delete_lock_data cs d =
     (if \<not> available d then d
      else
        let d1 = delete_orders cs (map fst (sm_from (cs, 0) (lockorders d))) d
        in delete_invorders cs (map fst (sm_from (cs, 0) (invlockorders d1))) d1)"

definition DeleteLock :: "u64 \<Rightarrow> lock_state \<Rightarrow> lock_state" where
  "DeleteLock cs s = s\<lparr>lockdata := delete_lock_data cs (lockdata s)\<rparr>"

section \<open>What the maps record\<close>

definition pairs :: "LockData \<Rightarrow> (u64 \<times> u64) set" where
  "pairs d = dom (map_of (lockorders d))"

definition order_ok :: "LockData \<Rightarrow> bool" where
  "order_ok d \<longleftrightarrow>
     sm_wf (lockorders d) \<and> sm_wf (invlockorders d) \<and>
     dom (map_of (invlockorders d)) = (pairs d)\<inverse> \<and>
     (\<forall>a b. (a, b) \<in> pairs d \<longrightarrow> (b, a) \<notin> pairs d)"

text \<open>The locks taken before the first \<open>c\<close> of a stack.\<close>

definition before :: "u64 \<Rightarrow> LockStack \<Rightarrow> u64 set" where
  "before c st = set (takeWhile (\<lambda>x. x \<noteq> c) (map fst st))"

lemma before_simps [simp]:
  "before c [] = {}"
  "before c (i # is) = (if fst i = c then {} else insert (fst i) (before c is))"
  by (auto simp: before_def)

lemma before_not: "c \<notin> before c st"
  by (induction st) auto

lemma sm_count_pairs: "sm_count (lockorders d) p \<longleftrightarrow> p \<in> pairs d"
  by (auto simp: sm_count_def pairs_def domIff)

lemma order_ok_new: "order_ok new_LockData"
  by (simp add: order_ok_def new_LockData_def sm_wf_def pairs_def)

text \<open>One new pair.\<close>

lemma order_ok_put:
  fixes st :: LockStack
  assumes "order_ok d" "a \<noteq> c" "(c, a) \<notin> pairs d"
  defines "d2 \<equiv> d\<lparr>lockorders := sm_put (a, c) st (lockorders d), invlockorders := sm_put (c, a) () (invlockorders d)\<rparr>"
  shows "order_ok d2 \<and> pairs d2 = insert (a, c) (pairs d)"
proof -
  have p: "pairs d2 = insert (a, c) (pairs d)"
    using assms by (simp add: pairs_def order_ok_def std_map.get_put)
  have "dom (map_of (invlockorders d2)) = (pairs d2)\<inverse>"
    using assms(1) unfolding p by (auto simp: d2_def order_ok_def std_map.get_put)
  then show ?thesis
    using assms(1-3) p by (auto simp: order_ok_def d2_def std_map.wf_put)
qed

lemma push_loop_cases:
  assumes "order_ok d"
  shows "(\<forall>a \<in> before c is. (c, a) \<notin> pairs d) \<and>
      (\<exists>d'. push_loop c st is d = Fine d' \<and> order_ok d' \<and> available d' = available d \<and>
        pairs d' = pairs d \<union> (\<lambda>a. (a, c)) ` before c is) \<or>
    (\<exists>a \<in> before c is. (c, a) \<in> pairs d \<and> (\<exists>s1. push_loop c st is d = Deadlock (a, c) s1 st))"
  using assms
proof (induction c st "is" d rule: push_loop.induct)
  case (1 c stack d)
  then show ?case by simp
next
  case (2 c stack i "is" d)
  let ?a = "fst i"
  let ?d2 = "d\<lparr>lockorders := sm_put (?a, c) stack (lockorders d),
    invlockorders := sm_put (c, ?a) () (invlockorders d)\<rparr>"
  consider "?a = c" | "?a \<noteq> c" "(?a, c) \<in> pairs d"
    | "?a \<noteq> c" "(?a, c) \<notin> pairs d" "(c, ?a) \<in> pairs d"
    | "?a \<noteq> c" "(?a, c) \<notin> pairs d" "(c, ?a) \<notin> pairs d" by blast
  then show ?case
  proof cases
    case 1
    then show ?thesis using 2(3) by simp
  next
    case c: 2
    then have "(c, ?a) \<notin> pairs d" using 2(3) by (auto simp: order_ok_def)
    then show ?thesis using 2(1,3) c by (auto simp: sm_count_pairs insert_absorb)
  next
    case 3
    have "pairs ?d2 = insert (?a, c) (pairs d)" using 2(3) by (simp add: pairs_def order_ok_def std_map.get_put)
    moreover have "orders_at ?d2 (?a, c) = stack" using 2(3) by (simp add: orders_at_def order_ok_def std_map.get_put)
    ultimately have "push_loop c stack (i # is) d = Deadlock (?a, c) (orders_at ?d2 (c, ?a)) stack"
      using 3 sm_count_pairs [of ?d2 "(c, ?a)"] by (simp add: Let_def sm_count_pairs)
    then show ?thesis using 3 by auto
  next
    case 4
    have d2: "order_ok ?d2" "pairs ?d2 = insert (?a, c) (pairs d)"
      using order_ok_put [OF 2(3) 4(1,3), of stack] by auto
    have eq: "push_loop c stack (i # is) d = push_loop c stack is ?d2"
      using 4 sm_count_pairs [of ?d2 "(c, ?a)"] d2(2) by (simp add: Let_def sm_count_pairs)
    have "(\<forall>a \<in> before c is. (c, a) \<notin> pairs ?d2) \<and>
      (\<exists>d'. push_loop c stack is ?d2 = Fine d' \<and> order_ok d' \<and> available d' = available ?d2 \<and>
        pairs d' = pairs ?d2 \<union> (\<lambda>a. (a, c)) ` before c is) \<or>
      (\<exists>a \<in> before c is. (c, a) \<in> pairs ?d2 \<and> (\<exists>s1. push_loop c stack is ?d2 = Deadlock (a, c) s1 stack))"
      using 2(2) [OF 4(1) refl _ refl refl refl] 4 d2 sm_count_pairs [of ?d2 "(c, ?a)"]
      by (simp add: sm_count_pairs)
    then show ?thesis unfolding eq using d2(2) 4 by (auto simp: before_not)
  qed
qed

section \<open>Deleting a lock\<close>

definition from_lock :: "u64 \<Rightarrow> (u64 \<times> u64, 'v) std_map \<Rightarrow> (u64 \<times> u64) list" where
  "from_lock cs m = takeWhile (\<lambda>k. fst k = cs) (map fst (sm_from (cs, 0) m))"

lemma delete_orders_eq:
  "delete_orders cs ks d =
     d\<lparr>lockorders := fold sm_erase (takeWhile (\<lambda>k. fst k = cs) ks) (lockorders d),
       invlockorders := fold sm_erase (map prod.swap (takeWhile (\<lambda>k. fst k = cs) ks)) (invlockorders d)\<rparr>"
  by (induction ks arbitrary: d) (auto simp: prod.swap_def)

lemma delete_invorders_eq:
  "delete_invorders cs ks d =
     d\<lparr>lockorders := fold sm_erase (map prod.swap (takeWhile (\<lambda>k. fst k = cs) ks)) (lockorders d),
       invlockorders := fold sm_erase (takeWhile (\<lambda>k. fst k = cs) ks) (invlockorders d)\<rparr>"
  by (induction ks arbitrary: d) (auto simp: prod.swap_def)

lemma from_lock_set:
  assumes "sm_wf m"
  shows "set (from_lock cs m) = {p \<in> dom (map_of m). fst p = cs}"
proof -
  have "set (takeWhile ((\<lambda>k. fst k = cs) \<circ> fst) (sm_from (cs, 0) m)) =
      {(k', v). map_of m k' = Some v \<and> (cs, 0) \<le> k' \<and> fst k' = cs}"
    using assms by (intro std_map.traverse_set) (auto simp: less_prod_def less_eq_prod_def)
  then show ?thesis
    by (force simp: from_lock_def takeWhile_map less_eq_prod_def)
qed

lemma erase_pairs:
  assumes "order_ok d" "set ks = P" "set ks' = P\<inverse>"
  defines "d' \<equiv> d\<lparr>lockorders := fold sm_erase ks (lockorders d), invlockorders := fold sm_erase ks' (invlockorders d)\<rparr>"
  shows "order_ok d' \<and> pairs d' = pairs d - P"
proof -
  have e: "sm_wf (lockorders d')" "map_of (lockorders d') = map_of (lockorders d) |` (- P)"
    "sm_wf (invlockorders d')" "map_of (invlockorders d') = map_of (invlockorders d) |` (- (P\<inverse>))"
    using assms(1-3) std_map.erase_list [of "lockorders d" ks] std_map.erase_list [of "invlockorders d" ks']
    by (auto simp: d'_def order_ok_def)
  then have p: "pairs d' = pairs d - P" by (auto simp: pairs_def)
  moreover have "dom (map_of (invlockorders d')) = (pairs d')\<inverse>"
    using assms(1) e(4) p by (auto simp: order_ok_def)
  ultimately show ?thesis using assms(1) e by (auto simp: order_ok_def)
qed

lemma swap_converse: "set (map prod.swap ks) = (set ks)\<inverse>"
  by force

lemma delete_lock_data_pairs:
  assumes ok: "order_ok d" and av: "available d"
  shows "order_ok (delete_lock_data cs d) \<and> available (delete_lock_data cs d) \<and>
    pairs (delete_lock_data cs d) = {p \<in> pairs d. fst p \<noteq> cs \<and> snd p \<noteq> cs}"
proof -
  define d1 where "d1 = delete_orders cs (map fst (sm_from (cs, 0) (lockorders d))) d"
  have s1: "set (from_lock cs (lockorders d)) = {p \<in> pairs d. fst p = cs}"
    using ok from_lock_set [of "lockorders d" cs] by (simp add: order_ok_def pairs_def)
  have d1: "order_ok d1" "pairs d1 = pairs d - {p \<in> pairs d. fst p = cs}" "available d1"
    using erase_pairs [OF ok s1 swap_converse [of "from_lock cs (lockorders d)", unfolded s1]] av
    by (simp_all add: d1_def delete_orders_eq flip: from_lock_def)
  have s2: "set (from_lock cs (invlockorders d1)) = {p \<in> pairs d1. snd p = cs}\<inverse>"
    using d1(1) from_lock_set [of "invlockorders d1" cs] by (auto simp: order_ok_def)
  have s3: "set (map prod.swap (from_lock cs (invlockorders d1))) = {p \<in> pairs d1. snd p = cs}"
    unfolding swap_converse s2 by simp
  have "order_ok (delete_lock_data cs d) \<and>
      pairs (delete_lock_data cs d) = pairs d1 - {p \<in> pairs d1. snd p = cs}"
    using erase_pairs [OF d1(1) s3 s2] av
    by (simp add: delete_lock_data_def delete_invorders_eq flip: d1_def from_lock_def)
  moreover have "available (delete_lock_data cs d)"
    using av d1(3) by (simp add: delete_lock_data_def delete_invorders_eq Let_def flip: d1_def)
  ultimately show ?thesis using d1(2) by auto
qed

section \<open>Threads that take and leave locks\<close>

definition nowhere :: "u64 \<Rightarrow> lock_state \<Rightarrow> bool" where
  "nowhere cs s \<longleftrightarrow> (\<forall>t st. lockstack s t = Some st \<longrightarrow> cs \<notin> fst ` set st)"

text \<open>A mutex must not be destroyed while a thread holds it or waits for it.\<close>

inductive lock_reach :: "lock_state \<Rightarrow> bool" where
  init: "lock_reach \<lparr>lockdata = new_LockData, lockstack = Map.empty\<rparr>"
| enter: "lock_reach s \<Longrightarrow> EnterCritical t n f l cs tried s = Fine s' \<Longrightarrow> lock_reach s'"
| leave: "lock_reach s \<Longrightarrow> LeaveCritical t s = Fine s' \<Longrightarrow> lock_reach s'"
| delete: "lock_reach s \<Longrightarrow> nowhere cs s \<Longrightarrow> lock_reach (DeleteLock cs s)"

text \<open>Lock \<open>a\<close> was taken before the first \<open>b\<close> in this stack.\<close>

definition held_before :: "LockStack \<Rightarrow> u64 \<Rightarrow> u64 \<Rightarrow> bool" where
  "held_before st a b \<longleftrightarrow> b \<in> fst ` set st \<and> a \<in> before b st"

definition lock_inv :: "lock_state \<Rightarrow> bool" where
  "lock_inv s \<longleftrightarrow> order_ok (lockdata s) \<and> available (lockdata s) \<and>
     (\<forall>t st a b. lockstack s t = Some st \<longrightarrow> held_before st a b \<longrightarrow> (a, b) \<in> pairs (lockdata s))"

lemma before_append: "b \<in> fst ` set xs \<Longrightarrow> before b (xs @ ys) = before b xs"
  by (induction xs) auto

lemma before_notin: "b \<notin> fst ` set xs \<Longrightarrow> before b (xs @ ys) = fst ` set xs \<union> before b ys"
  by (induction xs) auto

lemma before_subset: "before c st \<subseteq> fst ` set st"
  by (induction st) auto

lemma held_before_append:
  "held_before (st @ [(c, l)]) a b \<longleftrightarrow> held_before st a b \<or> b = c \<and> c \<notin> fst ` set st \<and> a \<in> fst ` set st"
  by (cases "b \<in> fst ` set st") (auto simp: held_before_def before_append before_notin)

lemma push_lock_cases:
  fixes t :: nat
  assumes "order_ok (lockdata s)"
  defines "st \<equiv> (case lockstack s t of None \<Rightarrow> [] | Some st \<Rightarrow> st)"
  shows "(\<forall>a \<in> before c (st @ [(c, l)]). (c, a) \<notin> pairs (lockdata s)) \<and>
      (\<exists>d'. push_lock t c l s = Fine (s\<lparr>lockdata := d', lockstack := (lockstack s)(t \<mapsto> st @ [(c, l)])\<rparr>) \<and>
        order_ok d' \<and> available d' = available (lockdata s) \<and>
        pairs d' = pairs (lockdata s) \<union> (\<lambda>a. (a, c)) ` before c (st @ [(c, l)])) \<or>
    (\<exists>a \<in> before c (st @ [(c, l)]). (c, a) \<in> pairs (lockdata s) \<and>
      (\<exists>s1. push_lock t c l s = Deadlock (a, c) s1 (st @ [(c, l)])))"
  using push_loop_cases [OF assms(1), of c "st @ [(c, l)]" "st @ [(c, l)]"]
  by (elim disjE) (auto simp: push_lock_def Let_def simp flip: st_def)

lemma lock_reach_inv: "lock_reach s \<Longrightarrow> lock_inv s"
proof (induction rule: lock_reach.induct)
  case init
  show ?case by (simp add: lock_inv_def order_ok_new) (simp add: new_LockData_def)
next
  case (enter s t n f l cs tried s')
  let ?l = "new_CLockLocation n f l tried"
  define st where "st = (case lockstack s t of None \<Rightarrow> [] | Some st \<Rightarrow> st)"
  have ok: "order_ok (lockdata s)" using enter.IH by (simp add: lock_inv_def)
  obtain d' where d': "s' = s\<lparr>lockdata := d', lockstack := (lockstack s)(t \<mapsto> st @ [(cs, ?l)])\<rparr>"
    "order_ok d'" "available d' = available (lockdata s)"
    "pairs d' = pairs (lockdata s) \<union> (\<lambda>a. (a, cs)) ` before cs (st @ [(cs, ?l)])"
    using push_lock_cases [OF ok, of cs t ?l] enter.hyps(2) by (auto simp: EnterCritical_def st_def)
  have old: "(a, b) \<in> pairs (lockdata s)" if "held_before st a b" for a b
    using that enter.IH by (cases "lockstack s t") (auto simp: lock_inv_def held_before_def st_def)
  have "(a, b) \<in> pairs d'" if "held_before (st @ [(cs, ?l)]) a b" for a b
    using that unfolding held_before_append
  proof (elim disjE conjE)
    assume "b = cs" "cs \<notin> fst ` set st" "a \<in> fst ` set st"
    then show ?thesis unfolding d'(4) by (simp add: before_notin)
  qed (use old d'(4) in blast)
  then show ?case using enter.IH d' by (auto simp: lock_inv_def)
next
  case (leave s t s')
  then obtain st where st: "lockstack s t = Some st" "st \<noteq> []"
    "s' = s\<lparr>lockstack := (lockstack s)(t \<mapsto> butlast st)\<rparr>"
    by (auto simp: LeaveCritical_def pop_lock_def split: option.splits if_splits)
  have "held_before st a b" if "held_before (butlast st) a b" for a b
    using that held_before_append [of "butlast st" "fst (last st)" "snd (last st)" a b] st(2) by simp
  then show ?case using leave.IH st by (auto simp: lock_inv_def)
next
  case (delete s cs)
  then have "pairs (lockdata (DeleteLock cs s)) = {p \<in> pairs (lockdata s). fst p \<noteq> cs \<and> snd p \<noteq> cs}"
    "order_ok (lockdata (DeleteLock cs s))" "available (lockdata (DeleteLock cs s))"
    using delete_lock_data_pairs [of "lockdata s" cs] by (auto simp: lock_inv_def DeleteLock_def)
  moreover have "a \<noteq> cs \<and> b \<noteq> cs" if "lockstack s t = Some st" "held_before st a b" for t st a b
  proof -
    have "cs \<notin> fst ` set st" using that(1) delete.hyps(2) by (simp add: nowhere_def)
    moreover have "a \<in> fst ` set st" "b \<in> fst ` set st"
      using that(2) before_subset by (auto simp: held_before_def)
    ultimately show ?thesis by metis
  qed
  ultimately show ?case using delete.IH by (auto simp: lock_inv_def DeleteLock_def)
qed

section \<open>Properties\<close>

fun enter_all :: "(nat \<times> u64) list \<Rightarrow> lock_state \<Rightarrow> lock_state lock_result" where
  "enter_all [] s = Fine s"
| "enter_all ((t, c) # es) s =
     (case EnterCritical t ''cs'' ''file'' 1 c False s of Fine s' \<Rightarrow> enter_all es s' | r \<Rightarrow> r)"

definition no_locks :: lock_state where
  "no_locks = \<lparr>lockdata = new_LockData, lockstack = Map.empty\<rparr>"

lemma enter_all_reach: "lock_reach s \<Longrightarrow> enter_all es s = Fine s' \<Longrightarrow> lock_reach s'"
  by (induction es s rule: enter_all.induct) (auto split: lock_result.splits intro: lock_reach.enter)

lemma no_locks_reach: "lock_reach no_locks"
  unfolding no_locks_def by (rule lock_reach.init)

definition loc1 :: CLockLocation where
  "loc1 = new_CLockLocation ''cs'' ''file'' 1 False"

definition one_two :: lock_state where
  "one_two = \<lparr>lockdata = \<lparr>available = True, lockorders = [((1, 2), [(1, loc1), (2, loc1)])], invlockorders = [((2, 1), ())]\<rparr>,
     lockstack = [0 \<mapsto> [(1, loc1), (2, loc1)]]\<rparr>"

lemma one_two_run: "enter_all [(0, 1), (0, 2)] no_locks = Fine one_two"
  by (simp add: no_locks_def one_two_def new_LockData_def Let_def EnterCritical_def push_lock_def sm_count_def
      orders_at_def loc1_def)

lemma one_two_reach: "lock_reach one_two"
  using enter_all_reach [OF no_locks_reach one_two_run] .

text \<open>The stacks of the checker never hold two entries in opposite orders. A stack is what the thread holds or
  waits for as long as its sections nest (\<open>LockSystem\<close>).\<close>

theorem no_opposite_orders:
  assumes "lock_reach s" "lockstack s t1 = Some st1" "lockstack s t2 = Some st2" "held_before st1 a b"
  shows "\<not> held_before st2 b a"
  using lock_reach_inv [OF assms(1)] assms(2-4) unfolding lock_inv_def order_ok_def by blast

theorem no_opposite_orders_witness:
  "lock_reach one_two \<and> held_before [(1, loc1), (2, loc1)] 1 2 \<and> \<not> held_before [(1, loc1), (2, loc1)] 2 1"
proof -
  have st: "lockstack one_two 0 = Some [(1, loc1), (2, loc1)]" by (simp add: one_two_def)
  have h: "held_before [(1, loc1), (2, loc1)] 1 2" by (simp add: held_before_def)
  show ?thesis using no_opposite_orders [OF one_two_reach st st h] one_two_reach h by simp
qed

text \<open>C15: \<open>EnterCritical\<close> compares \<open>cs\<close> with the locks on the thread's stack before the first entry of \<open>cs\<close>: all
  of them if the thread does not have \<open>cs\<close> already, and only those below its first entry if it does. It stops the
  program exactly if one of these, \<open>a\<close>, is recorded as taken after \<open>cs\<close>, as the pair \<open>(cs, a)\<close>, and reports
  such an \<open>a\<close> with the thread's stack. Otherwise it pushes \<open>cs\<close> and records \<open>cs\<close> after each of these locks, and
  nothing else.\<close>

theorem enter_reports:
  assumes "lock_reach s" "stack_of = (case lockstack s t of None \<Rightarrow> [] | Some st \<Rightarrow> st)"
    and "new = stack_of @ [(cs, new_CLockLocation n f l tried)]"
  shows "if \<exists>a \<in> before cs new. (cs, a) \<in> pairs (lockdata s)
    then \<exists>a s1. a \<in> before cs new \<and> (cs, a) \<in> pairs (lockdata s) \<and>
      EnterCritical t n f l cs tried s = Deadlock (a, cs) s1 new
    else \<exists>s'. EnterCritical t n f l cs tried s = Fine s' \<and> lockstack s' = (lockstack s)(t \<mapsto> new) \<and>
      pairs (lockdata s') = pairs (lockdata s) \<union> (\<lambda>a. (a, cs)) ` before cs new"
proof -
  have "order_ok (lockdata s)" using lock_reach_inv [OF assms(1)] by (simp add: lock_inv_def)
  from push_lock_cases [OF this, of cs t "new_CLockLocation n f l tried", folded assms(2), folded assms(3)]
  show ?thesis by (elim disjE) (auto simp: EnterCritical_def)
qed

theorem enter_reports_witness:
  "\<exists>a s1. a = 2 \<and> EnterCritical 1 ''cs'' ''file'' 1 1 False
      (one_two\<lparr>lockstack := (lockstack one_two)(1 \<mapsto> [(2, loc1)])\<rparr>) = Deadlock (a, 1) s1 [(2, loc1), (1, loc1)]"
proof -
  let ?s = "one_two\<lparr>lockstack := (lockstack one_two)(1 \<mapsto> [(2, loc1)])\<rparr>"
  have "EnterCritical 1 ''cs'' ''file'' 1 2 False one_two = Fine ?s"
    by (simp add: one_two_def Let_def EnterCritical_def push_lock_def loc1_def)
  then have r: "lock_reach ?s" by (rule lock_reach.enter [OF one_two_reach])
  have "(1, 2) \<in> pairs (lockdata ?s)" by (simp add: pairs_def one_two_def)
  then show ?thesis using enter_reports [OF r refl refl, of 1 1 "''cs''" "''file''" 1 False]
    by (auto simp: loc1_def)
qed

text \<open>C16: \<open>DeleteLock\<close> removes exactly the recorded pairs with the destroyed mutex on either side;
  the two maps stay sorted and each other's inverse, so a new mutex at the same address starts without history.\<close>

theorem delete_forgets:
  assumes "lock_reach s"
  shows "order_ok (lockdata (DeleteLock cs s)) \<and>
    pairs (lockdata (DeleteLock cs s)) = {(a, b) \<in> pairs (lockdata s). a \<noteq> cs \<and> b \<noteq> cs}"
  using lock_reach_inv [OF assms] delete_lock_data_pairs [of "lockdata s" cs]
  by (auto simp: DeleteLock_def lock_inv_def)

theorem delete_forgets_witness:
  "order_ok (lockdata (DeleteLock 2 one_two)) \<and> pairs (lockdata (DeleteLock 2 one_two)) = {}"
  using delete_forgets [OF one_two_reach, of 2] by (auto simp: pairs_def one_two_def split: if_splits)

text \<open>\<open>LeaveCritical\<close> undoes the push of the \<open>EnterCritical\<close> before it: the stack is what it was, the
  recorded orders stay.\<close>

theorem enter_leave:
  assumes "lock_reach s" "EnterCritical t n f l cs tried s = Fine s'"
  shows "\<exists>s''. LeaveCritical t s' = Fine s'' \<and> lockdata s'' = lockdata s' \<and>
    lockstack s'' = (lockstack s)(t \<mapsto> (case lockstack s t of None \<Rightarrow> [] | Some st \<Rightarrow> st))"
proof -
  have "order_ok (lockdata s)" using lock_reach_inv [OF assms(1)] by (simp add: lock_inv_def)
  from push_lock_cases [OF this, of cs t "new_CLockLocation n f l tried"] assms(2)
  have "lockstack s' = (lockstack s)(t \<mapsto> (case lockstack s t of None \<Rightarrow> [] | Some st \<Rightarrow> st) @
      [(cs, new_CLockLocation n f l tried)])"
    by (auto simp: EnterCritical_def)
  then show ?thesis by (simp add: LeaveCritical_def pop_lock_def)
qed

theorem enter_leave_witness:
  "\<exists>s'. LeaveCritical 0 one_two = Fine s' \<and> lockstack s' 0 = Some [(1, loc1)]"
proof -
  let ?s = "\<lparr>lockdata = new_LockData, lockstack = [0 \<mapsto> [(1, loc1)]]\<rparr>"
  have "enter_all [(0, 1)] no_locks = Fine ?s"
    by (simp add: no_locks_def new_LockData_def Let_def EnterCritical_def push_lock_def loc1_def)
  then have r: "lock_reach ?s" by (rule enter_all_reach [OF no_locks_reach])
  have "EnterCritical 0 ''cs'' ''file'' 1 2 False ?s = Fine one_two"
    by (simp add: one_two_def new_LockData_def Let_def EnterCritical_def push_lock_def sm_count_def orders_at_def loc1_def)
  from enter_leave [OF r this] show ?thesis by auto
qed

lemma find_lock_iff: "find_lock cs st \<longleftrightarrow> cs \<in> fst ` set st"
  by (induction st) auto

text \<open>\<open>AssertLockHeldInternal\<close> returns exactly for a lock on the calling thread's stack; in a thread
  that never pushed a lock it reads through the null \<open>lockstack\<close> instead of failing the assertion.\<close>

theorem assert_held:
  "AssertLockHeldInternal itostr t cs s =
    (case lockstack s t of None \<Rightarrow> NullStack
     | Some st \<Rightarrow> if cs \<in> fst ` set st then Fine ()
         else AssertFailed (concat (map (\<lambda>i. ToString itostr (snd i) @ [CHR 0x0A]) st)))"
proof -
  have "locks_text itostr st r = r @ concat (map (\<lambda>i. ToString itostr (snd i) @ [CHR 0x0A]) st)" for st r
    by (induction st arbitrary: r) auto
  then show ?thesis by (simp add: AssertLockHeldInternal_def find_lock_iff split: option.split)
qed

text \<open>the checker only compares pairs. Three threads that take three locks in a cycle, each
  two of the three, pass it, and stand in a deadlock when each waits for its second lock.\<close>

theorem three_cycle_unseen:
  "case enter_all [(0, 1), (1, 2), (2, 3), (0, 2), (1, 3), (2, 1)] no_locks of
     Fine s \<Rightarrow> map (\<lambda>t. map_option (map fst) (lockstack s t)) [0, 1, 2] = [Some [1, 2], Some [2, 3], Some [3, 1]]
   | _ \<Rightarrow> False"
  by (simp add: no_locks_def new_LockData_def Let_def EnterCritical_def push_lock_def sm_count_def orders_at_def)

end
