(* ===== verification/MutexLock.thy ===== *)
theory MutexLock
  imports LockOrder
begin

text \<open>
  \<open>CMutexLock<Mutex>\<close> (boostthreadcontrol/sync.h), the scoped lock behind \<open>LOCK\<close>, \<open>LOCK2\<close> and
  \<open>TRY_LOCK\<close>: it reports to the lock order checker, locks the mutex through a
  \<open>boost::unique_lock\<close>, and undoes both when the scope ends. The mutex type is a parameter with
  the laws boost documents for it as a locale.
\<close>

section \<open>The mutex\<close>

text \<open>The operations take the calling thread. \<open>None\<close>: the call of \<open>lock\<close> does not return while
  the mutex is in this state.\<close>

record 'm mutex_ops =
  m_lock :: "nat \<Rightarrow> 'm \<Rightarrow> 'm option"
  m_try_lock :: "nat \<Rightarrow> 'm \<Rightarrow> bool \<times> 'm"
  m_unlock :: "nat \<Rightarrow> 'm \<Rightarrow> 'm"

locale boost_mutex =
  fixes M :: "'m mutex_ops"
  assumes unlock_lock: "m_lock M t m = Some m' \<Longrightarrow> m_unlock M t m' = m"
    and try_lock_lock: "m_try_lock M t m = (True, m') \<Longrightarrow> m_lock M t m = Some m'"
    and try_lock_fails: "m_try_lock M t m = (False, m') \<Longrightarrow> m' = m"

section \<open>The scoped lock\<close>

record lock_object =
  lock_mutex :: "u64 option"
  owns_lock :: bool

record 'm lock_world =
  mutexes :: "u64 \<Rightarrow> 'm"
  checker :: lock_state

text \<open>\<open>Blocked\<close> while the mutex cannot be had; \<open>Stopped\<close> with the outcome of the checker when it
  does not return. The first argument of the functions tells whether the program was built with
  \<open>DEBUG_LOCKORDER\<close>; otherwise \<open>EnterCritical\<close> and \<open>LeaveCritical\<close> are empty.\<close>

datatype 'a lock_outcome = Locked 'a | Blocked | Stopped "unit lock_result"

definition check :: "bool \<Rightarrow> (lock_state \<Rightarrow> lock_state lock_result) \<Rightarrow> 'm lock_world \<Rightarrow> 'm lock_world lock_outcome" where
  "check debug f w =
     (if \<not> debug then Locked w
      else case f (checker w) of
        Fine c \<Rightarrow> Locked (w\<lparr>checker := c\<rparr>)
      | Deadlock p s1 s2 \<Rightarrow> Stopped (Deadlock p s1 s2)
      | AssertFailed m \<Rightarrow> Stopped (AssertFailed m)
      | NullStack \<Rightarrow> Stopped NullStack)"

fun after_check :: "'a lock_outcome \<Rightarrow> ('a \<Rightarrow> 'b lock_outcome) \<Rightarrow> 'b lock_outcome" where
  "after_check (Locked w) k = k w"
| "after_check Blocked k = Blocked"
| "after_check (Stopped r) k = Stopped r"

definition Enter ::
  "'m mutex_ops \<Rightarrow> bool \<Rightarrow> nat \<Rightarrow> string \<Rightarrow> string \<Rightarrow> int \<Rightarrow> u64 \<Rightarrow> 'm lock_world \<Rightarrow> (lock_object \<times> 'm lock_world) lock_outcome" where
  "Enter M debug t pszName pszFile nLine cs w =
     after_check (check debug (EnterCritical t pszName pszFile nLine cs False) w) (\<lambda>w1.
       case m_lock M t (mutexes w1 cs) of
         None \<Rightarrow> Blocked
       | Some m \<Rightarrow> Locked (\<lparr>lock_mutex = Some cs, owns_lock = True\<rparr>, w1\<lparr>mutexes := (mutexes w1)(cs := m)\<rparr>))"

text \<open>\<open>Enter\<close> in a build with \<open>DEBUG_LOCKCONTENTION\<close>, with the lines it prints: \<open>PrintLockContention\<close>, whose
  statements are commented out, prints none.\<close>

definition PrintLockContention :: "string \<Rightarrow> string \<Rightarrow> int \<Rightarrow> string list" where
  "PrintLockContention pszName pszFile nLine = []"

definition Enter_contention ::
  "'m mutex_ops \<Rightarrow> bool \<Rightarrow> nat \<Rightarrow> string \<Rightarrow> string \<Rightarrow> int \<Rightarrow> u64 \<Rightarrow> 'm lock_world \<Rightarrow>
    string list \<times> (lock_object \<times> 'm lock_world) lock_outcome" where
  "Enter_contention M debug t pszName pszFile nLine cs w =
     (case check debug (EnterCritical t pszName pszFile nLine cs False) w of
        Locked w1 \<Rightarrow>
          let (owns, m) = m_try_lock M t (mutexes w1 cs);
              w2 = w1\<lparr>mutexes := (mutexes w1)(cs := m)\<rparr>;
              obj = \<lparr>lock_mutex = Some cs, owns_lock = True\<rparr>
          in if \<not> owns then
               (PrintLockContention pszName pszFile nLine,
                case m_lock M t (mutexes w2 cs) of
                  None \<Rightarrow> Blocked
                | Some m' \<Rightarrow> Locked (obj, w2\<lparr>mutexes := (mutexes w2)(cs := m')\<rparr>))
             else ([], Locked (obj, w2))
      | Blocked \<Rightarrow> ([], Blocked)
      | Stopped r \<Rightarrow> ([], Stopped r))"

definition TryEnter ::
  "'m mutex_ops \<Rightarrow> bool \<Rightarrow> nat \<Rightarrow> string \<Rightarrow> string \<Rightarrow> int \<Rightarrow> u64 \<Rightarrow> 'm lock_world \<Rightarrow> (lock_object \<times> 'm lock_world) lock_outcome" where
  "TryEnter M debug t pszName pszFile nLine cs w =
     after_check (check debug (EnterCritical t pszName pszFile nLine cs True) w) (\<lambda>w1.
       let (owns, m) = m_try_lock M t (mutexes w1 cs);
           w2 = w1\<lparr>mutexes := (mutexes w1)(cs := m)\<rparr>;
           obj = \<lparr>lock_mutex = Some cs, owns_lock = owns\<rparr>
       in if \<not> owns then after_check (check debug (LeaveCritical t) w2) (\<lambda>w3. Locked (obj, w3))
          else Locked (obj, w2))"

definition new_CMutexLock ::
  "'m mutex_ops \<Rightarrow> bool \<Rightarrow> nat \<Rightarrow> u64 \<Rightarrow> string \<Rightarrow> string \<Rightarrow> int \<Rightarrow> bool \<Rightarrow> 'm lock_world \<Rightarrow>
    (lock_object \<times> 'm lock_world) lock_outcome" where
  "new_CMutexLock M debug t mutexIn pszName pszFile nLine tried w =
     (if tried then TryEnter M debug t pszName pszFile nLine mutexIn w
      else Enter M debug t pszName pszFile nLine mutexIn w)"

text \<open>The constructor over a pointer: a null pointer gives an object without a mutex.\<close>

definition new_CMutexLock_ptr ::
  "'m mutex_ops \<Rightarrow> bool \<Rightarrow> nat \<Rightarrow> u64 \<Rightarrow> string \<Rightarrow> string \<Rightarrow> int \<Rightarrow> bool \<Rightarrow> 'm lock_world \<Rightarrow>
    (lock_object \<times> 'm lock_world) lock_outcome" where
  "new_CMutexLock_ptr M debug t pmutexIn pszName pszFile nLine tried w =
     (if pmutexIn = 0 then Locked (\<lparr>lock_mutex = None, owns_lock = False\<rparr>, w)
      else if tried then TryEnter M debug t pszName pszFile nLine pmutexIn w
      else Enter M debug t pszName pszFile nLine pmutexIn w)"

text \<open>The destructor: its body, then the destructor of the \<open>unique_lock\<close> member.\<close>

definition delete_CMutexLock ::
  "'m mutex_ops \<Rightarrow> bool \<Rightarrow> nat \<Rightarrow> lock_object \<Rightarrow> 'm lock_world \<Rightarrow> 'm lock_world lock_outcome" where
  "delete_CMutexLock M debug t obj w =
     after_check (if owns_lock obj then check debug (LeaveCritical t) w else Locked w) (\<lambda>w1.
       case lock_mutex obj of
         Some cs \<Rightarrow> if owns_lock obj
           then Locked (w1\<lparr>mutexes := (mutexes w1)(cs := m_unlock M t (mutexes w1 cs))\<rparr>) else Locked w1
       | None \<Rightarrow> Locked w1)"

text \<open>\<open>LOCK2(cs1, cs2)\<close>, over the two mutexes with their names, and the end of its scope, in the reverse order.\<close>

definition lock2 ::
  "'m mutex_ops \<Rightarrow> bool \<Rightarrow> nat \<Rightarrow> u64 \<times> string \<Rightarrow> u64 \<times> string \<Rightarrow> string \<Rightarrow> int \<Rightarrow> 'm lock_world \<Rightarrow>
    (lock_object \<times> lock_object \<times> 'm lock_world) lock_outcome" where
  "lock2 M debug t cs1 cs2 pszFile nLine w =
     (case new_CMutexLock M debug t (fst cs1) (snd cs1) pszFile nLine False w of
        Locked (o1, w1) \<Rightarrow>
          (case new_CMutexLock M debug t (fst cs2) (snd cs2) pszFile nLine False w1 of
             Locked (o2, w2) \<Rightarrow> Locked (o1, o2, w2)
           | Blocked \<Rightarrow> Blocked
           | Stopped r \<Rightarrow> Stopped r)
      | Blocked \<Rightarrow> Blocked
      | Stopped r \<Rightarrow> Stopped r)"

definition unlock2 ::
  "'m mutex_ops \<Rightarrow> bool \<Rightarrow> nat \<Rightarrow> lock_object \<Rightarrow> lock_object \<Rightarrow> 'm lock_world \<Rightarrow> 'm lock_world lock_outcome" where
  "unlock2 M debug t o1 o2 w = after_check (delete_CMutexLock M debug t o2 w) (delete_CMutexLock M debug t o1)"

text \<open>\<open>operator bool\<close> of the object.\<close>

definition lock_bool :: "lock_object \<Rightarrow> bool" where
  "lock_bool obj = owns_lock obj"

text \<open>\<open>ENTER_CRITICAL_SECTION\<close> and \<open>LEAVE_CRITICAL_SECTION\<close>, which have no object; the first is written with
  the text of its argument. The destructor of \<open>CCriticalSection\<close> removes the mutex from the checker.\<close>

definition ENTER_CRITICAL_SECTION ::
  "'m mutex_ops \<Rightarrow> bool \<Rightarrow> nat \<Rightarrow> u64 \<times> string \<Rightarrow> string \<Rightarrow> int \<Rightarrow> 'm lock_world \<Rightarrow> 'm lock_world lock_outcome" where
  "ENTER_CRITICAL_SECTION M debug t cs pszFile nLine w =
     after_check (check debug (EnterCritical t (snd cs) pszFile nLine (fst cs) False) w) (\<lambda>w1.
       case m_lock M t (mutexes w1 (fst cs)) of
         None \<Rightarrow> Blocked
       | Some m \<Rightarrow> Locked (w1\<lparr>mutexes := (mutexes w1)(fst cs := m)\<rparr>))"

definition LEAVE_CRITICAL_SECTION ::
  "'m mutex_ops \<Rightarrow> bool \<Rightarrow> nat \<Rightarrow> u64 \<Rightarrow> 'm lock_world \<Rightarrow> 'm lock_world lock_outcome" where
  "LEAVE_CRITICAL_SECTION M debug t cs w =
     check debug (LeaveCritical t) (w\<lparr>mutexes := (mutexes w)(cs := m_unlock M t (mutexes w cs))\<rparr>)"

definition delete_CCriticalSection :: "bool \<Rightarrow> u64 \<Rightarrow> 'm lock_world \<Rightarrow> 'm lock_world" where
  "delete_CCriticalSection debug cs w = (if debug then w\<lparr>checker := DeleteLock cs (checker w)\<rparr> else w)"

section \<open>Scopes are balanced\<close>

definition stack_of :: "lock_state \<Rightarrow> nat \<Rightarrow> LockStack" where
  "stack_of s t = (case lockstack s t of None \<Rightarrow> [] | Some st \<Rightarrow> st)"

definition same_locks :: "'m lock_world \<Rightarrow> 'm lock_world \<Rightarrow> bool" where
  "same_locks w w' \<longleftrightarrow> mutexes w' = mutexes w \<and> stack_of (checker w') = stack_of (checker w)"

text \<open>What an object holds: its mutex in the locked state, and a push of the checker's.\<close>

definition holding :: "'m mutex_ops \<Rightarrow> bool \<Rightarrow> nat \<Rightarrow> lock_object \<Rightarrow> 'm lock_world \<Rightarrow> 'm lock_world \<Rightarrow> bool" where
  "holding M debug t obj w w' \<longleftrightarrow>
     (if owns_lock obj then
        \<exists>cs m l. lock_mutex obj = Some cs \<and> m_lock M t (mutexes w cs) = Some m \<and>
          mutexes w' = (mutexes w)(cs := m) \<and>
          stack_of (checker w') = (if debug
            then (stack_of (checker w))(t := stack_of (checker w) t @ [(cs, l)]) else stack_of (checker w))
      else same_locks w w')"

lemma holding_same: "holding M debug t obj w w' \<Longrightarrow> same_locks w' w2 \<Longrightarrow> holding M debug t obj w w2"
  by (auto simp: holding_def same_locks_def split: if_splits)

lemma stack_of_update: "stack_of (s\<lparr>lockstack := (lockstack s)(t \<mapsto> st)\<rparr>) = (stack_of s)(t := st)"
  by (simp add: stack_of_def fun_eq_iff)

lemma stack_of_Some: "stack_of s t = st @ [x] \<Longrightarrow> lockstack s t = Some (st @ [x])"
  by (auto simp: stack_of_def split: option.splits)

lemma check_enter:
  assumes "check True (EnterCritical t n f l cs tried) w = Locked w1"
  shows "mutexes w1 = mutexes w \<and>
    stack_of (checker w1) = (stack_of (checker w))(t := stack_of (checker w) t @ [(cs, new_CLockLocation n f l tried)])"
  using assms
  by (auto simp: check_def EnterCritical_def push_lock_def Let_def fun_eq_iff split: lock_result.splits)
    (simp_all add: stack_of_def)

lemma check_leave:
  assumes "stack_of (checker w) t = st @ [x]"
  shows "check True (LeaveCritical t) w =
    Locked (w\<lparr>checker := (checker w)\<lparr>lockstack := (lockstack (checker w))(t \<mapsto> st)\<rparr>\<rparr>)"
  using stack_of_Some [OF assms] by (simp add: check_def LeaveCritical_def pop_lock_def)

lemma check_off: "check False g w = Locked w"
  by (simp add: check_def)

lemma holding_none: "holding M debug t \<lparr>lock_mutex = None, owns_lock = False\<rparr> w w"
  by (simp add: holding_def same_locks_def)

lemma new_object:
  "new_CMutexLock M debug t cs n f l tried w = Locked (obj, w') \<Longrightarrow>
   lock_mutex obj = Some cs \<and> (owns_lock obj \<or> tried)"
  by (cases "check debug (EnterCritical t n f l cs tried) w")
    (auto simp: new_CMutexLock_def Enter_def TryEnter_def Let_def split: if_splits option.splits prod.splits
      elim!: after_check.elims)

context boost_mutex
begin

lemma Enter_holding:
  assumes "Enter M debug t n f l cs w = Locked (obj, w')"
  shows "holding M debug t obj w w' \<and> owns_lock obj"
proof -
  obtain w1 where w1: "check debug (EnterCritical t n f l cs False) w = Locked w1"
    using assms by (cases "check debug (EnterCritical t n f l cs False) w") (auto simp: Enter_def)
  have "mutexes w1 = mutexes w" using w1 check_enter [of t n f l cs False w w1]
    by (cases debug) (auto simp: check_off)
  then obtain m where m: "m_lock M t (mutexes w cs) = Some m" "obj = \<lparr>lock_mutex = Some cs, owns_lock = True\<rparr>"
    "w' = w1\<lparr>mutexes := (mutexes w)(cs := m)\<rparr>"
    using assms w1 by (auto simp: Enter_def split: option.splits)
  then show ?thesis using w1 check_enter [of t n f l cs False w w1]
    by (cases debug) (auto simp: holding_def check_off)
qed

lemma contention_same: "Enter_contention M debug t n f l cs w = ([], Enter M debug t n f l cs w)"
proof (cases "check debug (EnterCritical t n f l cs False) w")
  case (Locked w1)
  obtain owns m where got: "m_try_lock M t (mutexes w1 cs) = (owns, m)" by fastforce
  show ?thesis using Locked got try_lock_lock try_lock_fails
    by (cases owns) (fastforce simp: Enter_contention_def Enter_def PrintLockContention_def split: option.split)+
qed (simp_all add: Enter_contention_def Enter_def)

lemma TryEnter_holding:
  assumes "TryEnter M debug t n f l cs w = Locked (obj, w')"
  shows "holding M debug t obj w w'"
proof -
  obtain w1 where w1: "check debug (EnterCritical t n f l cs True) w = Locked w1"
    using assms by (cases "check debug (EnterCritical t n f l cs True) w") (auto simp: TryEnter_def)
  have mt: "mutexes w1 = mutexes w" using w1 check_enter [of t n f l cs True w w1]
    by (cases debug) (auto simp: check_off)
  obtain owns m where got: "m_try_lock M t (mutexes w cs) = (owns, m)" by fastforce
  show ?thesis
  proof (cases owns)
    case True
    then have "m_lock M t (mutexes w cs) = Some m" using got try_lock_lock by simp
    then show ?thesis using assms w1 mt got True check_enter [of t n f l cs True w w1]
      by (cases debug) (auto simp: TryEnter_def holding_def check_off)
  next
    case False
    then have m: "m = mutexes w cs" using got try_lock_fails by simp
    show ?thesis
    proof (cases debug)
      case True
      let ?w2 = "w1\<lparr>mutexes := (mutexes w1)(cs := m)\<rparr>"
      have st: "stack_of (checker w1) =
          (stack_of (checker w))(t := stack_of (checker w) t @ [(cs, new_CLockLocation n f l True)])"
        using w1 True check_enter [of t n f l cs True w w1] by simp
      then have "check True (LeaveCritical t) ?w2 =
        Locked (?w2\<lparr>checker := (checker w1)\<lparr>lockstack := (lockstack (checker w1))(t \<mapsto> stack_of (checker w) t)\<rparr>\<rparr>)"
        using check_leave [of ?w2 t "stack_of (checker w) t"] by simp
      then have "w' = ?w2\<lparr>checker := (checker w1)\<lparr>lockstack := (lockstack (checker w1))(t \<mapsto> stack_of (checker w) t)\<rparr>\<rparr>"
        "\<not> owns_lock obj"
        using assms w1 mt got False True by (auto simp: TryEnter_def)
      then show ?thesis using mt m st by (simp add: holding_def same_locks_def stack_of_update)
    next
      case False
      then show ?thesis using assms w1 mt got \<open>\<not> owns\<close> m
        by (auto simp: TryEnter_def holding_def same_locks_def check_off)
    qed
  qed
qed

lemma new_holding:
  "new_CMutexLock M debug t cs n f l tried w = Locked (obj, w') \<Longrightarrow> holding M debug t obj w w'"
  using Enter_holding TryEnter_holding by (auto simp: new_CMutexLock_def split: if_splits)

lemma new_ptr_holding:
  "new_CMutexLock_ptr M debug t cs n f l tried w = Locked (obj, w') \<Longrightarrow> holding M debug t obj w w'"
  using Enter_holding TryEnter_holding holding_none
  by (auto simp: new_CMutexLock_ptr_def split: if_splits)

lemma delete_restores:
  assumes "holding M debug t obj w w'"
  shows "\<exists>w''. delete_CMutexLock M debug t obj w' = Locked w'' \<and> same_locks w w''"
proof (cases "owns_lock obj")
  case False
  then show ?thesis using assms by (auto simp: holding_def delete_CMutexLock_def split: option.split)
next
  case True
  then obtain cs m l where h: "lock_mutex obj = Some cs" "m_lock M t (mutexes w cs) = Some m"
    "mutexes w' = (mutexes w)(cs := m)"
    "stack_of (checker w') = (if debug
       then (stack_of (checker w))(t := stack_of (checker w) t @ [(cs, l)]) else stack_of (checker w))"
    using assms by (auto simp: holding_def)
  have u: "m_unlock M t m = mutexes w cs" using h(2) by (rule unlock_lock)
  show ?thesis
  proof (cases debug)
    case d: True
    then have st: "stack_of (checker w') t = stack_of (checker w) t @ [(cs, l)]" using h(4) by simp
    show ?thesis using True d h u check_leave [OF st]
      by (simp add: delete_CMutexLock_def same_locks_def stack_of_update)
  next
    case False
    then show ?thesis using True h u by (auto simp: delete_CMutexLock_def check_off same_locks_def)
  qed
qed

lemma lock2_restores:
  assumes "lock2 M debug t cs1 cs2 f l w = Locked (o1, o2, w')" "same_locks w' w2"
  shows "\<exists>w''. unlock2 M debug t o1 o2 w2 = Locked w'' \<and> same_locks w w''"
proof -
  obtain w1 where w1: "new_CMutexLock M debug t (fst cs1) (snd cs1) f l False w = Locked (o1, w1)"
    "new_CMutexLock M debug t (fst cs2) (snd cs2) f l False w1 = Locked (o2, w')"
    using assms(1) by (auto simp: lock2_def split: lock_outcome.splits)
  obtain w3 where w3: "delete_CMutexLock M debug t o2 w2 = Locked w3" "same_locks w1 w3"
    using delete_restores [OF holding_same [OF new_holding [OF w1(2)] assms(2)]] by blast
  show ?thesis
    using delete_restores [OF holding_same [OF new_holding [OF w1(1)] w3(2)]] w3(1) by (simp add: unlock2_def)
qed

lemma enter_section_restores:
  assumes "ENTER_CRITICAL_SECTION M debug t cs f l w = Locked w'" and "same_locks w' w2"
  shows "\<exists>w''. LEAVE_CRITICAL_SECTION M debug t (fst cs) w2 = Locked w'' \<and> same_locks w w''"
proof -
  obtain w1 where w1: "check debug (EnterCritical t (snd cs) f l (fst cs) False) w = Locked w1"
    using assms(1) by (cases "check debug (EnterCritical t (snd cs) f l (fst cs) False) w")
      (auto simp: ENTER_CRITICAL_SECTION_def)
  note enter = check_enter [of t "snd cs" f l "fst cs" False w w1]
  have "mutexes w1 = mutexes w" using w1 enter by (cases debug) (auto simp: check_off)
  then obtain m where m: "m_lock M t (mutexes w (fst cs)) = Some m" "w' = w1\<lparr>mutexes := (mutexes w)(fst cs := m)\<rparr>"
    using assms(1) w1 by (auto simp: ENTER_CRITICAL_SECTION_def split: option.splits)
  have u: "m_unlock M t m = mutexes w (fst cs)" using m(1) by (rule unlock_lock)
  let ?w3 = "w2\<lparr>mutexes := (mutexes w2)(fst cs := m_unlock M t (mutexes w2 (fst cs)))\<rparr>"
  have mt: "mutexes ?w3 = mutexes w" using assms(2) m(2) u by (simp add: same_locks_def)
  show ?thesis
  proof (cases debug)
    case True
    then have st: "stack_of (checker ?w3) =
        (stack_of (checker w))(t := stack_of (checker w) t @ [(fst cs, new_CLockLocation (snd cs) f l False)])"
      using w1 enter m(2) assms(2) by (simp add: same_locks_def)
    then have "stack_of (checker ?w3) t = stack_of (checker w) t @ [(fst cs, new_CLockLocation (snd cs) f l False)]"
      by simp
    from check_leave [OF this] show ?thesis
      using True mt st by (simp add: LEAVE_CRITICAL_SECTION_def same_locks_def stack_of_update)
  next
    case False
    then show ?thesis
      using w1 m(2) mt assms(2) by (auto simp: LEAVE_CRITICAL_SECTION_def check_off same_locks_def)
  qed
qed

end

section \<open>Properties\<close>

text \<open>An instance for the concrete runs: a recursive mutex as its owner with the number of further locks.\<close>

datatype rmutex = Free | Owned nat nat

fun rm_lock :: "nat \<Rightarrow> rmutex \<Rightarrow> rmutex option" where
  "rm_lock t Free = Some (Owned t 0)"
| "rm_lock t (Owned u n) = (if u = t then Some (Owned u (Suc n)) else None)"

definition rm_try_lock :: "nat \<Rightarrow> rmutex \<Rightarrow> bool \<times> rmutex" where
  "rm_try_lock t m = (case rm_lock t m of Some m' \<Rightarrow> (True, m') | None \<Rightarrow> (False, m))"

fun rm_unlock :: "nat \<Rightarrow> rmutex \<Rightarrow> rmutex" where
  "rm_unlock t (Owned u (Suc n)) = Owned u n"
| "rm_unlock t _ = Free"

definition recursive_mutex :: "rmutex mutex_ops" where
  "recursive_mutex = \<lparr>m_lock = rm_lock, m_try_lock = rm_try_lock, m_unlock = rm_unlock\<rparr>"

interpretation rmutex: boost_mutex recursive_mutex
proof unfold_locales
  fix t and m m' :: rmutex
  show "m_lock recursive_mutex t m = Some m' \<Longrightarrow> m_unlock recursive_mutex t m' = m"
    by (cases m) (auto simp: recursive_mutex_def split: if_splits)
qed (auto simp: recursive_mutex_def rm_try_lock_def split: option.splits)

text \<open>\<open>boost::mutex\<close>, which its owner cannot lock again.\<close>

datatype wmutex = WFree | WOwned nat

fun wm_lock :: "nat \<Rightarrow> wmutex \<Rightarrow> wmutex option" where
  "wm_lock t WFree = Some (WOwned t)"
| "wm_lock t (WOwned u) = None"

definition wm_try_lock :: "nat \<Rightarrow> wmutex \<Rightarrow> bool \<times> wmutex" where
  "wm_try_lock t m = (case wm_lock t m of Some m' \<Rightarrow> (True, m') | None \<Rightarrow> (False, m))"

definition wm_unlock :: "nat \<Rightarrow> wmutex \<Rightarrow> wmutex" where
  "wm_unlock t m = WFree"

definition simple_mutex :: "wmutex mutex_ops" where
  "simple_mutex = \<lparr>m_lock = wm_lock, m_try_lock = wm_try_lock, m_unlock = wm_unlock\<rparr>"

interpretation wmutex: boost_mutex simple_mutex
proof unfold_locales
  fix t and m m' :: wmutex
  show "m_lock simple_mutex t m = Some m' \<Longrightarrow> m_unlock simple_mutex t m' = m"
    by (cases m) (auto simp: simple_mutex_def wm_unlock_def)
qed (auto simp: simple_mutex_def wm_try_lock_def split: option.splits)

text \<open>\<open>AnnotatedMixin<PARENT>\<close> passes every call on to its parent; its two instances.\<close>

definition AnnotatedMixin :: "'m mutex_ops \<Rightarrow> 'm mutex_ops" where
  "AnnotatedMixin PARENT =
     \<lparr>m_lock = (\<lambda>t m. m_lock PARENT t m), m_try_lock = (\<lambda>t m. m_try_lock PARENT t m),
      m_unlock = (\<lambda>t m. m_unlock PARENT t m)\<rparr>"

definition CCriticalSection :: "rmutex mutex_ops" where
  "CCriticalSection = AnnotatedMixin recursive_mutex"

definition CWaitableCriticalSection :: "wmutex mutex_ops" where
  "CWaitableCriticalSection = AnnotatedMixin simple_mutex"

lemma AnnotatedMixin_eq: "AnnotatedMixin PARENT = PARENT"
  by (simp add: AnnotatedMixin_def)

definition free_world :: "rmutex lock_world" where
  "free_world = \<lparr>mutexes = (\<lambda>_. Free), checker = no_locks\<rparr>"

text \<open>C21: a scope with \<open>LOCK\<close> or \<open>TRY_LOCK\<close> is balanced, in both builds: whatever balanced
  scopes run inside it, when it ends every mutex and every thread's lock stack is as before. An object
  that could not get its mutex has changed neither, and only \<open>TRY_LOCK\<close> gives one.\<close>

theorem scoped_lock_balanced:
  assumes "boost_mutex M" "new_CMutexLock M debug t cs n f l tried w = Locked (obj, w')" "same_locks w' w2"
  shows "(\<exists>w''. delete_CMutexLock M debug t obj w2 = Locked w'' \<and> same_locks w w'') \<and>
    (if owns_lock obj then \<exists>m. m_lock M t (mutexes w cs) = Some m \<and> mutexes w' = (mutexes w)(cs := m)
     else tried \<and> same_locks w w')"
proof -
  have h: "holding M debug t obj w w'" using boost_mutex.new_holding [OF assms(1,2)] .
  then have "\<exists>w''. delete_CMutexLock M debug t obj w2 = Locked w'' \<and> same_locks w w''"
    using boost_mutex.delete_restores [OF assms(1) holding_same [OF _ assms(3)]] by blast
  moreover have "lock_mutex obj = Some cs \<and> (owns_lock obj \<or> tried)" using new_object [OF assms(2)] .
  ultimately show ?thesis using h by (auto simp: holding_def)
qed

theorem scoped_lock_balanced_witness:
  "\<exists>obj w' w''. new_CMutexLock recursive_mutex True 0 7 ''cs'' ''f'' 1 True free_world = Locked (obj, w') \<and>
     owns_lock obj \<and> mutexes w' 7 = Owned 0 0 \<and>
     delete_CMutexLock recursive_mutex True 0 obj w' = Locked w'' \<and> mutexes w'' = (\<lambda>_. Free)"
proof -
  let ?obj = "\<lparr>lock_mutex = Some 7, owns_lock = True\<rparr>"
  let ?w' = "\<lparr>mutexes = (\<lambda>_. Free)(7 := Owned 0 0),
    checker = no_locks\<lparr>lockstack := [0 \<mapsto> [(7, new_CLockLocation ''cs'' ''f'' 1 True)]]\<rparr>\<rparr>"
  have new: "new_CMutexLock recursive_mutex True 0 7 ''cs'' ''f'' 1 True free_world = Locked (?obj, ?w')"
    by (simp add: new_CMutexLock_def TryEnter_def check_def EnterCritical_def push_lock_def free_world_def
      no_locks_def recursive_mutex_def rm_try_lock_def Let_def)
  have "same_locks ?w' ?w'" by (simp add: same_locks_def)
  from scoped_lock_balanced [OF rmutex.boost_mutex_axioms new this]
  obtain w'' where "delete_CMutexLock recursive_mutex True 0 ?obj ?w' = Locked w''" "same_locks free_world w''"
    by auto
  note w'' = this
  show ?thesis
  proof (intro exI conjI)
    show "new_CMutexLock recursive_mutex True 0 7 ''cs'' ''f'' 1 True free_world = Locked (?obj, ?w')" by (rule new)
    show "delete_CMutexLock recursive_mutex True 0 ?obj ?w' = Locked w''" by (rule w'')
  qed (use w'' in \<open>simp_all add: same_locks_def free_world_def\<close>)
qed

text \<open>\<open>LOCK2\<close> takes its two mutexes in the order they are written and its scope gives both
  back; if the second cannot be had the call does not return, with the first one held.\<close>

theorem lock2_balanced:
  assumes "boost_mutex M" "lock2 M debug t cs1 cs2 f l w = Locked (o1, o2, w')" "same_locks w' w2"
  shows "\<exists>w''. unlock2 M debug t o1 o2 w2 = Locked w'' \<and> mutexes w'' = mutexes w \<and>
    stack_of (checker w'') = stack_of (checker w)"
  using boost_mutex.lock2_restores [OF assms] by (auto simp: same_locks_def)

theorem lock2_balanced_witness:
  "\<exists>o1 o2 w' w''. lock2 recursive_mutex False 0 (7, ''a'') (8, ''b'') ''f'' 1 free_world = Locked (o1, o2, w') \<and>
     mutexes w' 8 = Owned 0 0 \<and> unlock2 recursive_mutex False 0 o1 o2 w' = Locked w'' \<and> mutexes w'' = (\<lambda>_. Free)"
proof -
  let ?o = "\<lambda>c. \<lparr>lock_mutex = Some c, owns_lock = True\<rparr>"
  let ?w' = "\<lparr>mutexes = (\<lambda>_. Free)(7 := Owned 0 0, 8 := Owned 0 0), checker = no_locks\<rparr>"
  have new: "lock2 recursive_mutex False 0 (7, ''a'') (8, ''b'') ''f'' 1 free_world = Locked (?o 7, ?o 8, ?w')"
    by (simp add: lock2_def new_CMutexLock_def Enter_def check_def free_world_def recursive_mutex_def)
  have "same_locks ?w' ?w'" by (simp add: same_locks_def)
  from lock2_balanced [OF rmutex.boost_mutex_axioms new this]
  obtain w'' where "unlock2 recursive_mutex False 0 (?o 7) (?o 8) ?w' = Locked w''" "mutexes w'' = mutexes free_world"
    by auto
  note w'' = this
  show ?thesis
  proof (intro exI conjI)
    show "lock2 recursive_mutex False 0 (7, ''a'') (8, ''b'') ''f'' 1 free_world = Locked (?o 7, ?o 8, ?w')" by (rule new)
    show "unlock2 recursive_mutex False 0 (?o 7) (?o 8) ?w' = Locked w''" by (rule w'')
  qed (use w'' in \<open>simp_all add: free_world_def\<close>)
qed

text \<open>A section between \<open>ENTER_CRITICAL_SECTION\<close> and \<open>LEAVE_CRITICAL_SECTION\<close> is balanced as a scope is, and
  so can stand inside one.\<close>

theorem critical_section_balanced:
  assumes "boost_mutex M" "ENTER_CRITICAL_SECTION M debug t cs f l w = Locked w'" "same_locks w' w2"
  shows "\<exists>w''. LEAVE_CRITICAL_SECTION M debug t (fst cs) w2 = Locked w'' \<and> same_locks w w''"
  using boost_mutex.enter_section_restores [OF assms] .

end
