(* ===== verification/LockSystem.thy ===== *)
theory LockSystem
  imports MutexLock
begin

text \<open>
  Threads that use \<open>CMutexLock\<close> and the critical section macros of sync.h together: the lock order checker,
  the mutexes and the scopes of every thread in one state. A lock is taken in two steps, as in the code: the
  check \<open>EnterCritical\<close>, which already pushes the lock, and then \<open>lock\<close> of the mutex, which may have to wait
  while other threads go on. The lemmas relate the two builds and show what the checker is for: in the
  \<open>DEBUG_LOCKORDER\<close> build no two threads ever wait for each other.
\<close>

section \<open>The state\<close>

text \<open>How a thread asks for a mutex: \<open>LOCK\<close>, \<open>TRY_LOCK\<close> or \<open>ENTER_CRITICAL_SECTION\<close>; and what it gets:
  an object whose scope is open, or a section.\<close>

datatype ask = AskLock | AskTry | AskSection

datatype entry = Scope lock_object | Section u64

text \<open>The open scopes and sections of a thread, the innermost first, and the mutex a thread has asked for after the
  check of its order.\<close>

record 'm lk_sys =
  world :: "'m lock_world"
  entries :: "nat \<Rightarrow> entry list"
  pending :: "nat \<Rightarrow> (ask \<times> u64) option"

datatype lk_event =
    Ask nat ask "u64 \<times> string" string int
  | Got nat
  | Close nat
  | Destroy u64

section \<open>The steps\<close>

text \<open>What follows \<open>EnterCritical\<close> in \<open>Enter\<close>, \<open>TryEnter\<close> and \<open>ENTER_CRITICAL_SECTION\<close>.\<close>

definition taken ::
  "'m mutex_ops \<Rightarrow> bool \<Rightarrow> nat \<Rightarrow> ask \<Rightarrow> u64 \<Rightarrow> 'm lock_world \<Rightarrow> (entry \<times> 'm lock_world) lock_outcome" where
  "taken M debug t k cs w =
     (if k = AskTry then
        let (owns, m) = m_try_lock M t (mutexes w cs);
            w1 = w\<lparr>mutexes := (mutexes w)(cs := m)\<rparr>;
            obj = \<lparr>lock_mutex = Some cs, owns_lock = owns\<rparr>
        in if \<not> owns then after_check (check debug (LeaveCritical t) w1) (\<lambda>w2. Locked (Scope obj, w2))
           else Locked (Scope obj, w1)
      else case m_lock M t (mutexes w cs) of
          None \<Rightarrow> Blocked
        | Some m \<Rightarrow> Locked (if k = AskSection then Section cs else Scope \<lparr>lock_mutex = Some cs, owns_lock = True\<rparr>,
            w\<lparr>mutexes := (mutexes w)(cs := m)\<rparr>))"

text \<open>The end of the innermost scope, or \<open>LEAVE_CRITICAL_SECTION\<close> of the innermost section.\<close>

fun closed :: "'m mutex_ops \<Rightarrow> bool \<Rightarrow> nat \<Rightarrow> entry \<Rightarrow> 'm lock_world \<Rightarrow> 'm lock_world lock_outcome" where
  "closed M debug t (Scope obj) w = delete_CMutexLock M debug t obj w"
| "closed M debug t (Section cs) w = LEAVE_CRITICAL_SECTION M debug t cs w"

fun lk_step :: "'m mutex_ops \<Rightarrow> bool \<Rightarrow> lk_event \<Rightarrow> 'm lk_sys \<Rightarrow> 'm lk_sys lock_outcome" where
  "lk_step M debug (Ask t k cs f l) st =
     after_check (check debug (EnterCritical t (snd cs) f l (fst cs) (k = AskTry)) (world st))
       (\<lambda>w. Locked (st\<lparr>world := w, pending := (pending st)(t \<mapsto> (k, fst cs))\<rparr>))"
| "lk_step M debug (Got t) st =
     (case pending st t of
        None \<Rightarrow> Locked st
      | Some (k, cs) \<Rightarrow> after_check (taken M debug t k cs (world st))
          (\<lambda>(e, w). Locked (st\<lparr>world := w, entries := (entries st)(t := e # entries st t),
             pending := (pending st)(t := None)\<rparr>)))"
| "lk_step M debug (Close t) st =
     (case entries st t of
        [] \<Rightarrow> Locked st
      | e # es \<Rightarrow> after_check (closed M debug t e (world st))
          (\<lambda>w. Locked (st\<lparr>world := w, entries := (entries st)(t := es)\<rparr>)))"
| "lk_step M debug (Destroy cs) st = Locked (st\<lparr>world := delete_CCriticalSection debug cs (world st)\<rparr>)"

text \<open>The mutexes a thread has, the innermost first, and those it uses: it also uses the one it has asked for.\<close>

fun addrs :: "entry \<Rightarrow> u64 list" where
  "addrs (Scope obj) = (if owns_lock obj then (case lock_mutex obj of Some cs \<Rightarrow> [cs] | None \<Rightarrow> []) else [])"
| "addrs (Section cs) = [cs]"

definition has :: "'m lk_sys \<Rightarrow> nat \<Rightarrow> u64 list" where
  "has st t = concat (map addrs (entries st t))"

definition uses :: "'m lk_sys \<Rightarrow> nat \<Rightarrow> u64 list" where
  "uses st t = (case pending st t of None \<Rightarrow> has st t | Some (k, cs) \<Rightarrow> cs # has st t)"

text \<open>A thread uses \<open>b\<close>, and it took \<open>a\<close>, which it also uses, before it first asked for \<open>b\<close>.\<close>

definition taken_before :: "'m lk_sys \<Rightarrow> nat \<Rightarrow> u64 \<Rightarrow> u64 \<Rightarrow> bool" where
  "taken_before st t a b \<longleftrightarrow> b \<in> set (uses st t) \<and> a \<in> set (takeWhile (\<lambda>x. x \<noteq> b) (rev (uses st t)))"

text \<open>When a step can come: a thread that waits does nothing else, scopes and sections nest, and a mutex is only
  destroyed while no thread uses it.\<close>

fun can :: "lk_event \<Rightarrow> 'm lk_sys \<Rightarrow> bool" where
  "can (Ask t k cs f l) st = (pending st t = None)"
| "can (Got t) st = (pending st t \<noteq> None)"
| "can (Close t) st = (pending st t = None \<and> entries st t \<noteq> [])"
| "can (Destroy cs) st = (\<forall>t. cs \<notin> set (uses st t))"

definition lk_init :: "'m \<Rightarrow> 'm lk_sys" where
  "lk_init m0 = \<lparr>world = \<lparr>mutexes = (\<lambda>_. m0), checker = no_locks\<rparr>, entries = (\<lambda>_. []), pending = (\<lambda>_. None)\<rparr>"

inductive lk_reach :: "'m mutex_ops \<Rightarrow> 'm \<Rightarrow> bool \<Rightarrow> 'm lk_sys \<Rightarrow> bool" for M m0 debug where
  init: "lk_reach M m0 debug (lk_init m0)"
| step: "lk_reach M m0 debug st \<Longrightarrow> can ev st \<Longrightarrow> lk_step M debug ev st = Locked st' \<Longrightarrow> lk_reach M m0 debug st'"

text \<open>The two steps make up the constructors and the macro.\<close>

lemma new_CMutexLock_steps:
  "new_CMutexLock M debug t cs n f l tried w =
     after_check (check debug (EnterCritical t n f l cs tried) w)
       (\<lambda>w1. after_check (taken M debug t (if tried then AskTry else AskLock) cs w1)
          (\<lambda>(e, w2). case e of Scope obj \<Rightarrow> Locked (obj, w2) | Section _ \<Rightarrow> Blocked))"
proof (cases "check debug (EnterCritical t n f l cs tried) w")
  case (Locked w1)
  let ?leave = "check debug (LeaveCritical t)
    (w1\<lparr>mutexes := (mutexes w1)(cs := snd (m_try_lock M t (mutexes w1 cs)))\<rparr>)"
  show ?thesis using Locked
    by (cases ?leave) (auto simp: new_CMutexLock_def Enter_def TryEnter_def taken_def Let_def split: option.splits prod.splits)
qed (auto simp: new_CMutexLock_def Enter_def TryEnter_def)

lemma ENTER_CRITICAL_SECTION_steps:
  "ENTER_CRITICAL_SECTION M debug t cs f l w =
     after_check (check debug (EnterCritical t (snd cs) f l (fst cs) False) w)
       (\<lambda>w1. after_check (taken M debug t AskSection (fst cs) w1) (\<lambda>(e, w2). Locked w2))"
  by (cases "check debug (EnterCritical t (snd cs) f l (fst cs) False) w")
    (auto simp: ENTER_CRITICAL_SECTION_def taken_def split: option.splits)

section \<open>The two builds\<close>

text \<open>The state of the release build that corresponds to one of the debug build: there the checker is never
  touched.\<close>

definition erase :: "'m lk_sys \<Rightarrow> 'm lk_sys" where
  "erase st = st\<lparr>world := (world st)\<lparr>checker := no_locks\<rparr>\<rparr>"

lemma erase_simps [simp]:
  "pending (erase st) = pending st" "entries (erase st) = entries st"
  "mutexes (world (erase st)) = mutexes (world st)"
  by (simp_all add: erase_def)

lemma has_pending [simp]:
  "has (st\<lparr>world := w\<rparr>) = has st"
  "has (st\<lparr>world := w, pending := p\<rparr>) = has st"
  by (simp_all add: has_def fun_eq_iff)

lemma uses_world [simp]: "uses (st\<lparr>world := w\<rparr>) = uses st"
  by (simp add: uses_def fun_eq_iff split: option.split)

lemma has_entries [simp]:
  "has (st\<lparr>world := w, entries := E\<rparr>) t = concat (map addrs (E t))"
  "has (st\<lparr>world := w, entries := E, pending := p\<rparr>) t = concat (map addrs (E t))"
  by (simp_all add: has_def)

lemma has_erase [simp]: "has (erase st) = has st"
  by (simp add: has_def fun_eq_iff)

lemma uses_erase [simp]: "uses (erase st) = uses st"
  by (simp add: uses_def fun_eq_iff split: option.split)

lemma can_erase: "can ev (erase st) = can ev st"
  by (cases ev) simp_all

lemma erase_init: "erase (lk_init m0) = lk_init m0"
  by (simp add: erase_def lk_init_def)

lemma check_erase: "check True g w = Locked w1 \<Longrightarrow> w1\<lparr>checker := c\<rparr> = w\<lparr>checker := c\<rparr>"
  by (auto simp: check_def split: lock_result.splits)

lemma check_not_blocked [simp]: "check debug g w \<noteq> Blocked"
  by (auto simp: check_def split: lock_result.splits)

lemma after_check_Locked: "after_check r k = Locked x \<longleftrightarrow> (\<exists>y. r = Locked y \<and> k y = Locked x)"
  by (cases r) auto

lemma after_check_Blocked: "after_check r k = Blocked \<longleftrightarrow> r = Blocked \<or> (\<exists>y. r = Locked y \<and> k y = Blocked)"
  by (cases r) auto

lemma after_check_Stopped: "after_check r k = Stopped e \<longleftrightarrow> r = Stopped e \<or> (\<exists>y. r = Locked y \<and> k y = Stopped e)"
  by (cases r) auto

lemmas after_check_iffs = after_check_Locked after_check_Blocked after_check_Stopped

lemma taken_erase:
  "taken M True t k cs w = Locked (e, w') \<Longrightarrow>
   taken M False t k cs (w\<lparr>checker := c\<rparr>) = Locked (e, w'\<lparr>checker := c\<rparr>)"
  by (auto simp: taken_def check_off Let_def after_check_iffs split: if_splits prod.splits option.splits
      dest: check_erase [where c = c])

lemma taken_blocked: "taken M debug t k cs w = Blocked \<longleftrightarrow> k \<noteq> AskTry \<and> m_lock M t (mutexes w cs) = None"
  by (auto simp: taken_def Let_def after_check_iffs split: prod.splits option.splits)

lemma delete_erase:
  "delete_CMutexLock M True t obj w = Locked w' \<Longrightarrow>
   delete_CMutexLock M False t obj (w\<lparr>checker := c\<rparr>) = Locked (w'\<lparr>checker := c\<rparr>)"
  by (cases w) (auto simp: delete_CMutexLock_def check_def after_check_iffs
      split: if_splits option.splits lock_result.splits)

lemma leave_erase:
  "LEAVE_CRITICAL_SECTION M True t cs w = Locked w' \<Longrightarrow>
   LEAVE_CRITICAL_SECTION M False t cs (w\<lparr>checker := c\<rparr>) = Locked (w'\<lparr>checker := c\<rparr>)"
  by (auto simp: LEAVE_CRITICAL_SECTION_def check_off dest: check_erase [where c = c])

lemma closed_erase:
  "closed M True t e w = Locked w' \<Longrightarrow> closed M False t e (w\<lparr>checker := c\<rparr>) = Locked (w'\<lparr>checker := c\<rparr>)"
  by (cases e) (simp_all add: delete_erase leave_erase)

lemma closed_not_blocked [simp]: "closed M debug t e w \<noteq> Blocked"
  by (cases e) (auto simp: delete_CMutexLock_def LEAVE_CRITICAL_SECTION_def after_check_iffs split: option.splits)

lemma step_erase: "lk_step M True ev st = Locked st' \<Longrightarrow> lk_step M False ev (erase st) = Locked (erase st')"
proof (cases ev)
  case (Ask t k cs f l)
  assume "lk_step M True ev st = Locked st'"
  then show ?thesis using Ask
    by (auto simp: erase_def check_off after_check_iffs dest: check_erase [where c = no_locks])
next
  case (Got t)
  assume "lk_step M True ev st = Locked st'"
  then show ?thesis using Got
    by (auto simp: erase_def after_check_iffs split: option.splits dest!: taken_erase [where c = no_locks])
next
  case (Close t)
  assume "lk_step M True ev st = Locked st'"
  then show ?thesis using Close
    by (auto simp: erase_def after_check_iffs split: list.splits dest!: closed_erase [where c = no_locks])
qed (auto simp: erase_def delete_CCriticalSection_def)

lemma step_blocked: "lk_step M True ev st = Blocked \<Longrightarrow> lk_step M False ev (erase st) = Blocked"
  by (cases ev) (auto simp: after_check_iffs taken_blocked split: option.splits list.splits)

section \<open>The stacks of the checker\<close>

definition entry_ok :: "entry \<Rightarrow> bool" where
  "entry_ok e \<longleftrightarrow> (case e of Scope obj \<Rightarrow> owns_lock obj \<longrightarrow> lock_mutex obj \<noteq> None | Section _ \<Rightarrow> True)"

text \<open>In the debug build the stack of every thread lists what it uses.\<close>

definition stacks_ok :: "'m lk_sys \<Rightarrow> bool" where
  "stacks_ok st \<longleftrightarrow> (\<forall>t. (\<forall>e \<in> set (entries st t). entry_ok e) \<and> map fst (stack_of (checker (world st)) t) = rev (uses st t))"

lemma stacks_init: "stacks_ok (lk_init m0)"
  by (simp add: stacks_ok_def lk_init_def uses_def has_def stack_of_def no_locks_def)

text \<open>\<open>LeaveCritical\<close> in a thread that has pushed something.\<close>

lemma leave_top:
  assumes "map fst (stack_of (checker w) t) = rev (c # hs)"
  shows "\<exists>s. LeaveCritical t (checker w) = Fine s \<and> check True (LeaveCritical t) w = Locked (w\<lparr>checker := s\<rparr>) \<and>
    map fst (stack_of s t) = rev hs \<and> (\<forall>u. u \<noteq> t \<longrightarrow> stack_of s u = stack_of (checker w) u)"
proof -
  have "stack_of (checker w) t \<noteq> []" using assms by auto
  then obtain st x where st: "stack_of (checker w) t = st @ [x]" by (metis rev_exhaust)
  let ?s = "(checker w)\<lparr>lockstack := (lockstack (checker w))(t \<mapsto> st)\<rparr>"
  have "LeaveCritical t (checker w) = Fine ?s"
    using stack_of_Some [OF st] by (simp add: LeaveCritical_def pop_lock_def)
  moreover have "map fst (stack_of ?s t) = rev hs" using assms st by (simp add: stack_of_update)
  ultimately show ?thesis using check_leave [OF st] by (auto simp: stack_of_update intro!: exI [of _ ?s])
qed

lemma push_loop_fine: "(\<exists>d'. push_loop c st is d = Fine d') \<or> (\<exists>p s1 s2. push_loop c st is d = Deadlock p s1 s2)"
  by (induction c st "is" d rule: push_loop.induct) (auto simp: Let_def)

lemma enter_stops:
  assumes "check True (EnterCritical t n f l cs tried) w = Stopped r"
  shows "\<exists>p s1 s2. r = Deadlock p s1 s2"
proof -
  let ?st = "(case lockstack (checker w) t of None \<Rightarrow> [] | Some st \<Rightarrow> st) @ [(cs, new_CLockLocation n f l tried)]"
  from push_loop_fine [of cs ?st ?st "lockdata (checker w)"] show ?thesis
    using assms by (elim disjE exE) (auto simp: check_def EnterCritical_def push_lock_def Let_def)
qed

lemma enter_pushes:
  assumes "check True (EnterCritical t n f l cs tried) w = Locked w'"
  shows "mutexes w' = mutexes w \<and> EnterCritical t n f l cs tried (checker w) = Fine (checker w') \<and>
    map fst (stack_of (checker w') t) = map fst (stack_of (checker w) t) @ [cs] \<and>
    (\<forall>u. u \<noteq> t \<longrightarrow> stack_of (checker w') u = stack_of (checker w) u)"
  using check_enter [OF assms] assms by (auto simp: check_def split: lock_result.splits)

text \<open>The step that ends the wait for a mutex, in the debug build: the checker changes only when \<open>TRY_LOCK\<close> fails,
  and then gives the lock back.\<close>

lemma taken_debug:
  assumes "map fst (stack_of (checker w) t) = rev (cs # hs)"
  shows "taken M True t k cs w = Blocked \<or>
    (\<exists>e w'. taken M True t k cs w = Locked (e, w') \<and> entry_ok e \<and>
      map fst (stack_of (checker w') t) = rev (addrs e @ hs) \<and>
      (\<forall>u. u \<noteq> t \<longrightarrow> stack_of (checker w') u = stack_of (checker w) u) \<and>
      (checker w' = checker w \<or> LeaveCritical t (checker w) = Fine (checker w')))"
proof (cases "k = AskTry")
  case False
  then show ?thesis using assms
    by (cases "m_lock M t (mutexes w cs)") (auto simp: taken_def entry_ok_def)
next
  case True
  obtain owns m where got: "m_try_lock M t (mutexes w cs) = (owns, m)" by fastforce
  let ?w1 = "w\<lparr>mutexes := (mutexes w)(cs := m)\<rparr>"
  have "map fst (stack_of (checker ?w1) t) = rev (cs # hs)" using assms by simp
  from leave_top [OF this] show ?thesis using True got assms
    by (cases owns) (auto simp: taken_def entry_ok_def)
qed

lemma closed_debug:
  assumes "map fst (stack_of (checker w) t) = rev (addrs e @ hs)" "entry_ok e"
  shows "\<exists>w'. closed M True t e w = Locked w' \<and> map fst (stack_of (checker w') t) = rev hs \<and>
    (\<forall>u. u \<noteq> t \<longrightarrow> stack_of (checker w') u = stack_of (checker w) u) \<and>
    (checker w' = checker w \<or> LeaveCritical t (checker w) = Fine (checker w'))"
proof (cases e)
  case (Section cs)
  let ?w1 = "w\<lparr>mutexes := (mutexes w)(cs := m_unlock M t (mutexes w cs))\<rparr>"
  have "map fst (stack_of (checker ?w1) t) = rev (cs # hs)" using assms(1) Section by simp
  from leave_top [OF this] show ?thesis using Section by (auto simp: LEAVE_CRITICAL_SECTION_def)
next
  case (Scope obj)
  show ?thesis
  proof (cases "owns_lock obj")
    case False
    then show ?thesis using Scope assms by (auto simp: delete_CMutexLock_def split: option.split)
  next
    case True
    then obtain cs where cs: "lock_mutex obj = Some cs" using assms(2) Scope by (auto simp: entry_ok_def)
    then have "map fst (stack_of (checker w) t) = rev (cs # hs)" using assms(1) Scope True by simp
    from leave_top [OF this] show ?thesis using Scope True cs by (auto simp: delete_CMutexLock_def)
  qed
qed

text \<open>What a step of the debug build does to the checker, as steps of the checker alone.\<close>

definition checker_move :: "'m lk_sys \<Rightarrow> lk_event \<Rightarrow> 'm lk_sys \<Rightarrow> bool" where
  "checker_move st ev st' \<longleftrightarrow>
     checker (world st') = checker (world st) \<or>
     (\<exists>t n f l cs tried. EnterCritical t n f l cs tried (checker (world st)) = Fine (checker (world st'))) \<or>
     (\<exists>t. LeaveCritical t (checker (world st)) = Fine (checker (world st'))) \<or>
     (\<exists>cs. ev = Destroy cs \<and> checker (world st') = DeleteLock cs (checker (world st)))"

lemma stacks_step:
  assumes "stacks_ok st" "can ev st"
  shows "lk_step M True ev st = Blocked \<or>
    (\<exists>p s1 s2. lk_step M True ev st = Stopped (Deadlock p s1 s2)) \<or>
    (\<exists>st'. lk_step M True ev st = Locked st' \<and> stacks_ok st' \<and> checker_move st ev st')"
proof (cases ev)
  case (Ask t k cs f l)
  then show ?thesis
  proof (cases "check True (EnterCritical t (snd cs) f l (fst cs) (k = AskTry)) (world st)")
    case (Locked w)
    show ?thesis using Ask Locked assms enter_pushes [OF Locked]
      by (auto simp: stacks_ok_def uses_def checker_move_def split: option.splits)
  qed (auto dest: enter_stops)
next
  case (Got t)
  then obtain k cs where p: "pending st t = Some (k, cs)" using assms(2) by auto
  then have "map fst (stack_of (checker (world st)) t) = rev (cs # has st t)"
    using assms(1) by (simp add: stacks_ok_def uses_def)
  from taken_debug [OF this, of M k] show ?thesis using Got p assms(1)
    by (elim disjE exE conjE) (auto simp: stacks_ok_def uses_def checker_move_def has_def split: option.splits)
next
  case (Close t)
  then obtain e es where es: "entries st t = e # es" "pending st t = None" using assms(2) by (cases "entries st t") auto
  then have "map fst (stack_of (checker (world st)) t) = rev (addrs e @ concat (map addrs es))" "entry_ok e"
    and ok: "\<forall>x \<in> set es. entry_ok x"
    using assms(1) by (auto simp: stacks_ok_def uses_def has_def dest!: spec [of _ t])
  from closed_debug [OF this(1,2), of M] show ?thesis using Close es ok assms(1)
    by (elim exE conjE) (auto simp: stacks_ok_def uses_def checker_move_def has_def split: option.splits)
next
  case (Destroy cs)
  then show ?thesis using assms(1)
    by (simp add: stacks_ok_def checker_move_def delete_CCriticalSection_def DeleteLock_def stack_of_def)
qed

section \<open>Runs\<close>

fun lk_run :: "'m mutex_ops \<Rightarrow> bool \<Rightarrow> lk_event list \<Rightarrow> 'm lk_sys \<Rightarrow> 'm lk_sys lock_outcome" where
  "lk_run M debug [] st = Locked st"
| "lk_run M debug (ev # evs) st = after_check (lk_step M debug ev st) (lk_run M debug evs)"

text \<open>Every event comes when it can.\<close>

fun can_run :: "'m mutex_ops \<Rightarrow> bool \<Rightarrow> lk_event list \<Rightarrow> 'm lk_sys \<Rightarrow> bool" where
  "can_run M debug [] st = True"
| "can_run M debug (ev # evs) st =
     (can ev st \<and> (case lk_step M debug ev st of Locked st' \<Rightarrow> can_run M debug evs st' | _ \<Rightarrow> True))"

lemma run_reach:
  "lk_reach M m0 debug st \<Longrightarrow> can_run M debug evs st \<Longrightarrow> lk_run M debug evs st = Locked st' \<Longrightarrow> lk_reach M m0 debug st'"
proof (induction evs arbitrary: st)
  case (Cons ev evs)
  then obtain st1 where st1: "lk_step M debug ev st = Locked st1" "lk_run M debug evs st1 = Locked st'"
    by (auto simp: after_check_iffs)
  then show ?case using Cons.IH [of st1] Cons.prems lk_reach.step [OF Cons.prems(1) _ st1(1)] by simp
qed simp

lemma run_builds:
  assumes "stacks_ok st" "can_run M True evs st"
  shows "case lk_run M True evs st of
      Locked st' \<Rightarrow> lk_run M False evs (erase st) = Locked (erase st') \<and> can_run M False evs (erase st)
    | Blocked \<Rightarrow> lk_run M False evs (erase st) = Blocked
    | Stopped r \<Rightarrow> \<exists>p s1 s2. r = Deadlock p s1 s2"
  using assms
proof (induction evs arbitrary: st)
  case Nil
  then show ?case by simp
next
  case (Cons ev evs)
  then have c: "can ev st" by simp
  from stacks_step [OF Cons.prems(1) c, of M] show ?case
  proof (elim disjE exE conjE)
    fix st' assume st': "lk_step M True ev st = Locked st'" "stacks_ok st'"
    then have "can_run M True evs st'" using Cons.prems(2) by simp
    from Cons.IH [OF st'(2) this] show ?thesis using st'(1) step_erase [OF st'(1)] c
      by (simp add: can_erase split: lock_outcome.splits)
  qed (simp_all add: step_blocked)
qed

section \<open>The debug build as a system\<close>

lemma destroy_nowhere:
  assumes "stacks_ok st" "can (Destroy cs) st"
  shows "nowhere cs (checker (world st))"
proof -
  have "cs \<notin> fst ` set s" if "lockstack (checker (world st)) t = Some s" for t s
  proof -
    have "map fst s = rev (uses st t)" using assms(1) that by (auto simp: stacks_ok_def stack_of_def dest: spec [of _ t])
    then have "fst ` set s = set (uses st t)" by (metis list.set_map set_rev)
    then show ?thesis using assms(2) by simp
  qed
  then show ?thesis by (simp add: nowhere_def)
qed

lemma lk_reach_checker:
  "lk_reach M m0 True st \<Longrightarrow> stacks_ok st \<and> lock_reach (checker (world st))"
proof (induction rule: lk_reach.induct)
  case init
  show ?case using stacks_init no_locks_reach by (simp add: lk_init_def)
next
  case (step st ev st')
  then have st: "stacks_ok st" "lock_reach (checker (world st))" by simp_all
  have st': "stacks_ok st'" "checker_move st ev st'"
    using stacks_step [OF st(1) step.hyps(2), of M] step.hyps(3) by auto
  from st'(2) have "lock_reach (checker (world st'))" unfolding checker_move_def
  proof (elim disjE exE conjE)
    fix cs assume "ev = Destroy cs" "checker (world st') = DeleteLock cs (checker (world st))"
    then show ?thesis using lock_reach.delete [OF st(2)] destroy_nowhere [OF st(1)] step.hyps(2) by simp
  next
    fix t n f l cs tried
    assume "EnterCritical t n f l cs tried (checker (world st)) = Fine (checker (world st'))"
    then show ?thesis by (rule lock_reach.enter [OF st(2)])
  next
    fix t
    assume "LeaveCritical t (checker (world st)) = Fine (checker (world st'))"
    then show ?thesis by (rule lock_reach.leave [OF st(2)])
  qed (use st(2) in simp)
  then show ?case using st'(1) by simp
qed

text \<open>What a thread took in some order is recorded, and stays recorded until one of the two is destroyed.\<close>

lemma taken_before_recorded:
  assumes "lk_reach M m0 True st" "taken_before st t a b"
  shows "(a, b) \<in> pairs (lockdata (checker (world st)))"
proof -
  let ?c = "checker (world st)"
  have s: "map fst (stack_of ?c t) = rev (uses st t)" and inv: "lock_inv ?c"
    using lk_reach_checker [OF assms(1)] lock_reach_inv by (auto simp: stacks_ok_def)
  have "b \<in> set (map fst (stack_of ?c t))" "a \<in> set (takeWhile (\<lambda>x. x \<noteq> b) (map fst (stack_of ?c t)))"
    using assms(2) unfolding s by (simp_all add: taken_before_def)
  then have "held_before (stack_of ?c t) a b" by (simp add: held_before_def before_def)
  then show ?thesis using inv
    by (cases "lockstack ?c t") (auto simp: lock_inv_def stack_of_def held_before_def)
qed

lemma enter_keeps_pairs:
  assumes "lock_reach s" "EnterCritical t n f l cs tried s = Fine s'"
  shows "pairs (lockdata s) \<subseteq> pairs (lockdata s')"
proof -
  have "order_ok (lockdata s)" using lock_reach_inv [OF assms(1)] by (simp add: lock_inv_def)
  from push_lock_cases [OF this, of cs t "new_CLockLocation n f l tried"] assms(2)
  show ?thesis by (auto simp: EnterCritical_def)
qed

lemma step_keeps_pairs:
  assumes "lk_reach M m0 True st" "can ev st" "lk_step M True ev st = Locked st'"
    and "ev \<noteq> Destroy a" "ev \<noteq> Destroy b" "(a, b) \<in> pairs (lockdata (checker (world st)))"
  shows "(a, b) \<in> pairs (lockdata (checker (world st')))"
proof -
  note r = lk_reach_checker [OF assms(1)]
  have inv: "lock_inv (checker (world st))" using r lock_reach_inv by blast
  have "checker_move st ev st'" using stacks_step [of st ev M] r assms(2,3) by auto
  then show ?thesis unfolding checker_move_def
  proof (elim disjE exE conjE)
    fix cs assume "ev = Destroy cs" "checker (world st') = DeleteLock cs (checker (world st))"
    then show ?thesis using assms(4-6) inv delete_lock_data_pairs [of "lockdata (checker (world st))" cs]
      by (auto simp: DeleteLock_def lock_inv_def)
  next
    fix t assume "LeaveCritical t (checker (world st)) = Fine (checker (world st'))"
    then have "lockdata (checker (world st')) = lockdata (checker (world st))"
      by (auto simp: LeaveCritical_def pop_lock_def split: option.splits if_splits dest!: arg_cong [where f = lockdata])
    then show ?thesis using assms(6) by simp
  next
    fix t n f l cs tried
    assume "EnterCritical t n f l cs tried (checker (world st)) = Fine (checker (world st'))"
    from enter_keeps_pairs [OF conjunct2 [OF r] this] show ?thesis using assms(6) by blast
  qed (use assms(6) in simp)
qed

lemma run_keeps_pairs:
  "lk_reach M m0 True st \<Longrightarrow> can_run M True evs st \<Longrightarrow> lk_run M True evs st = Locked st' \<Longrightarrow>
   Destroy a \<notin> set evs \<Longrightarrow> Destroy b \<notin> set evs \<Longrightarrow> (a, b) \<in> pairs (lockdata (checker (world st))) \<Longrightarrow>
   (a, b) \<in> pairs (lockdata (checker (world st')))"
proof (induction evs arbitrary: st)
  case (Cons ev evs)
  then obtain st1 where st1: "lk_step M True ev st = Locked st1" "lk_run M True evs st1 = Locked st'"
    by (auto simp: after_check_iffs)
  have c: "can ev st" "can_run M True evs st1" using Cons.prems(2) st1(1) by auto
  have "(a, b) \<in> pairs (lockdata (checker (world st1)))"
    using step_keeps_pairs [OF Cons.prems(1) c(1) st1(1)] Cons.prems(4-6) by auto
  then show ?case
    using Cons.IH [OF lk_reach.step [OF Cons.prems(1) c(1) st1(1)] c(2) st1(2)] Cons.prems(4,5) by simp
qed simp

section \<open>Owners\<close>

text \<open>What the mutexes of boost also promise: how often a thread has locked one, and that only one thread has.\<close>

locale owned_mutex = boost_mutex M for M :: "'m mutex_ops" +
  fixes m0 :: 'm
    and depth :: "nat \<Rightarrow> 'm \<Rightarrow> nat"
  assumes depth_new: "depth t m0 = 0"
    and lock_depth: "m_lock M t m = Some m' \<Longrightarrow> depth u m' = (if u = t then Suc (depth t m) else depth u m)"
    and unlock_depth: "0 < depth t m \<Longrightarrow> depth u (m_unlock M t m) = (if u = t then depth t m - 1 else depth u m)"
    and one_owner: "0 < depth t m \<Longrightarrow> 0 < depth u m \<Longrightarrow> t = u"
    and lock_fails: "m_lock M t m = None \<Longrightarrow> \<exists>u. 0 < depth u m"

lemma check_mutexes: "check debug g w = Locked w1 \<Longrightarrow> mutexes w1 = mutexes w"
  by (auto simp: check_def split: if_splits lock_result.splits)

lemma closed_mutexes:
  "closed M debug t e w = Locked w' \<Longrightarrow> entry_ok e \<Longrightarrow>
   addrs e = [] \<and> mutexes w' = mutexes w \<or>
   (\<exists>cs. addrs e = [cs] \<and> mutexes w' = (mutexes w)(cs := m_unlock M t (mutexes w cs)))"
  by (cases e) (auto simp: delete_CMutexLock_def LEAVE_CRITICAL_SECTION_def entry_ok_def after_check_iffs
    split: if_splits option.splits dest!: check_mutexes)

definition owned_ok :: "(nat \<Rightarrow> 'm \<Rightarrow> nat) \<Rightarrow> 'm lk_sys \<Rightarrow> bool" where
  "owned_ok depth st \<longleftrightarrow>
     (\<forall>t. (\<forall>e \<in> set (entries st t). entry_ok e) \<and> (\<forall>c. count_list (has st t) c = depth t (mutexes (world st) c)))"

lemma held_before_waiting:
  assumes "map fst s = rev (b # hs)" "a \<in> set hs" "b \<notin> set hs"
  shows "held_before s a b"
proof -
  have m: "map fst s = rev hs @ [b]" using assms(1) by simp
  then have "b \<in> fst ` set s" by (metis in_set_conv_decomp list.set_map)
  moreover have "takeWhile (\<lambda>x. x \<noteq> b) (map fst s) = rev hs"
    unfolding m using assms(3) by (subst takeWhile_append2) auto
  ultimately show ?thesis using assms(2) by (simp add: held_before_def before_def)
qed

context owned_mutex
begin

lemma taken_mutexes:
  "taken M debug t k cs w = Locked (e, w') \<Longrightarrow>
   entry_ok e \<and> (addrs e = [] \<and> mutexes w' = mutexes w \<or>
     addrs e = [cs] \<and> (\<exists>m. m_lock M t (mutexes w cs) = Some m \<and> mutexes w' = (mutexes w)(cs := m)))"
  by (auto simp: taken_def Let_def entry_ok_def after_check_iffs try_lock_lock
    split: if_splits option.splits prod.splits dest!: check_mutexes try_lock_fails)

lemma owned_step:
  assumes ok: "owned_ok depth st" and c: "can ev st" and step: "lk_step M debug ev st = Locked st'"
  shows "owned_ok depth st'"
proof (cases ev)
  case (Ask t k cs f l)
  then show ?thesis using ok step
    by (auto simp: owned_ok_def after_check_iffs dest!: check_mutexes)
next
  case (Got t)
  then obtain k cs e w where g: "taken M debug t k cs (world st) = Locked (e, w)"
    "st' = st\<lparr>world := w, entries := (entries st)(t := e # entries st t), pending := (pending st)(t := None)\<rparr>"
    using c step by (auto simp: after_check_iffs)
  from taken_mutexes [OF g(1)] show ?thesis using ok g(2)
    by (auto simp: owned_ok_def lock_depth has_def)
next
  case (Close t)
  then obtain e es w where g: "entries st t = e # es" "closed M debug t e (world st) = Locked w"
    "st' = st\<lparr>world := w, entries := (entries st)(t := es)\<rparr>"
    using c step by (cases "entries st t") (auto simp: after_check_iffs)
  have e: "entry_ok e" "\<forall>x \<in> set es. entry_ok x"
    and n: "\<And>c. depth t (mutexes (world st) c) = count_list (addrs e) c + count_list (concat (map addrs es)) c"
    using ok g(1) by (auto simp: owned_ok_def has_def dest!: spec [of _ t])
  from closed_mutexes [OF g(2) e(1)] show ?thesis
  proof (elim disjE exE conjE)
    fix cs assume cs: "addrs e = [cs]" "mutexes w = (mutexes (world st))(cs := m_unlock M t (mutexes (world st) cs))"
    then have "0 < depth t (mutexes (world st) cs)" using n [of cs] by simp
    then show ?thesis using ok g e n cs
      by (auto simp: owned_ok_def unlock_depth has_def)
  qed (use ok g e n in \<open>auto simp: owned_ok_def has_def\<close>)
next
  case (Destroy cs)
  then show ?thesis using ok step by (auto simp: owned_ok_def delete_CCriticalSection_def)
qed

lemma reach_owned: "lk_reach M m0 debug st \<Longrightarrow> owned_ok depth st"
proof (induction rule: lk_reach.induct)
  case init
  show ?case by (simp add: owned_ok_def lk_init_def has_def depth_new)
qed (rule owned_step)

lemma owner_has: "lk_reach M m0 debug st \<Longrightarrow> 0 < depth t (mutexes (world st) c) \<longleftrightarrow> c \<in> set (has st t)"
  using reach_owned [of debug st] count_list_0_iff [of "has st t" c] by (metis owned_ok_def neq0_conv)

lemma no_opposite_waits:
  assumes r: "lk_reach M m0 True st" and t: "t1 \<noteq> t2"
    and p: "pending st t1 = Some (k1, b)" "pending st t2 = Some (k2, a)"
    and o: "0 < depth t1 (mutexes (world st) a)"
  shows "depth t2 (mutexes (world st) b) = 0"
proof (rule ccontr)
  assume "depth t2 (mutexes (world st) b) \<noteq> 0"
  then have o2: "0 < depth t2 (mutexes (world st) b)" by simp
  note has = owner_has [OF r]
  have s: "map fst (stack_of (checker (world st)) t1) = rev (b # has st t1)"
    "map fst (stack_of (checker (world st)) t2) = rev (a # has st t2)"
    using lk_reach_checker [OF r] p by (simp_all add: stacks_ok_def uses_def)
  have "b \<notin> set (has st t1)" "a \<notin> set (has st t2)"
    using t o o2 one_owner has by blast+
  then have h: "held_before (stack_of (checker (world st)) t1) a b"
    "held_before (stack_of (checker (world st)) t2) b a"
    using held_before_waiting s o o2 has by blast+
  then obtain s1 s2 where "lockstack (checker (world st)) t1 = Some s1" "held_before s1 a b"
    "lockstack (checker (world st)) t2 = Some s2" "held_before s2 b a"
    by (auto simp: stack_of_def held_before_def split: option.splits)
  then show False using lock_reach_inv [OF conjunct2 [OF lk_reach_checker [OF r]]]
    unfolding lock_inv_def order_ok_def by blast
qed

end

section \<open>Properties\<close>

fun rm_depth :: "nat \<Rightarrow> rmutex \<Rightarrow> nat" where
  "rm_depth t Free = 0"
| "rm_depth t (Owned u n) = (if u = t then Suc n else 0)"

fun wm_depth :: "nat \<Rightarrow> wmutex \<Rightarrow> nat" where
  "wm_depth t WFree = 0"
| "wm_depth t (WOwned u) = (if u = t then 1 else 0)"

lemma rm_unlock_depth: "0 < rm_depth t m \<Longrightarrow> rm_depth u (rm_unlock t m) = (if u = t then rm_depth t m - 1 else rm_depth u m)"
  by (cases "(t, m)" rule: rm_unlock.cases) (auto split: if_splits)

interpretation critical_section: owned_mutex CCriticalSection Free rm_depth
  unfolding CCriticalSection_def AnnotatedMixin_eq
proof unfold_locales
  fix t u m and m' :: rmutex
  show "m_lock recursive_mutex t m = Some m' \<Longrightarrow> rm_depth u m' = (if u = t then Suc (rm_depth t m) else rm_depth u m)"
    by (cases m) (auto simp: recursive_mutex_def split: if_splits)
  show "0 < rm_depth t m \<Longrightarrow> rm_depth u (m_unlock recursive_mutex t m) = (if u = t then rm_depth t m - 1 else rm_depth u m)"
    by (simp add: recursive_mutex_def rm_unlock_depth)
  show "0 < rm_depth t m \<Longrightarrow> 0 < rm_depth u m \<Longrightarrow> t = u" by (cases m) (auto split: if_splits)
  show "m_lock recursive_mutex t m = None \<Longrightarrow> \<exists>u. 0 < rm_depth u m"
    by (cases m) (auto simp: recursive_mutex_def)
qed simp

interpretation waitable: owned_mutex CWaitableCriticalSection WFree wm_depth
  unfolding CWaitableCriticalSection_def AnnotatedMixin_eq
proof unfold_locales
  fix t u m and m' :: wmutex
  show "m_lock simple_mutex t m = Some m' \<Longrightarrow> wm_depth u m' = (if u = t then Suc (wm_depth t m) else wm_depth u m)"
    by (cases m) (auto simp: simple_mutex_def)
  show "0 < wm_depth t m \<Longrightarrow> wm_depth u (m_unlock simple_mutex t m) = (if u = t then wm_depth t m - 1 else wm_depth u m)"
    by (cases m) (auto simp: simple_mutex_def wm_unlock_def split: if_splits)
  show "0 < wm_depth t m \<Longrightarrow> 0 < wm_depth u m \<Longrightarrow> t = u" by (cases m) (auto split: if_splits)
  show "m_lock simple_mutex t m = None \<Longrightarrow> \<exists>u. 0 < wm_depth u m"
    by (cases m) (auto simp: simple_mutex_def)
qed simp

text \<open>A thread that waits in \<open>lock\<close>.\<close>

definition blocked :: "'m mutex_ops \<Rightarrow> 'm lk_sys \<Rightarrow> nat \<Rightarrow> bool" where
  "blocked M st t \<longleftrightarrow> (case pending st t of
     None \<Rightarrow> False | Some (k, cs) \<Rightarrow> k \<noteq> AskTry \<and> m_lock M t (mutexes (world st) cs) = None)"

lemma blocked_step: "blocked M st t \<longleftrightarrow> (pending st t \<noteq> None \<and> lk_step M debug (Got t) st = Blocked)"
  by (auto simp: blocked_def after_check_iffs taken_blocked split: option.splits)

lemma blocked_owner:
  "blocked CCriticalSection st t \<longleftrightarrow> (\<exists>k cs u. pending st t = Some (k, cs) \<and> k \<noteq> AskTry \<and> u \<noteq> t \<and>
     0 < rm_depth u (mutexes (world st) cs))"
proof -
  have "m_lock CCriticalSection t m = None \<longleftrightarrow> (\<exists>u. u \<noteq> t \<and> 0 < rm_depth u m)" for m
    by (cases m) (auto simp: CCriticalSection_def AnnotatedMixin_eq recursive_mutex_def)
  then show ?thesis by (auto simp: blocked_def split: option.split)
qed

text \<open>C18: the order checker only ever stops a program, and only in
  \<open>potential_deadlock_detected\<close>: on the same sequence of requests, locks taken, scopes closed and mutexes
  destroyed by any number of threads, the \<open>DEBUG_LOCKORDER\<close> build either stops there or goes through the same
  mutexes, objects and waits as the build without it. No pop meets an empty stack.\<close>

theorem debug_refines_release:
  assumes "can_run M True evs (lk_init m0)"
  shows "case lk_run M True evs (lk_init m0) of
      Locked st \<Rightarrow> lk_run M False evs (lk_init m0) = Locked (erase st) \<and> can_run M False evs (lk_init m0)
    | Blocked \<Rightarrow> lk_run M False evs (lk_init m0) = Blocked
    | Stopped r \<Rightarrow> \<exists>p s1 s2. r = Deadlock p s1 s2"
  using run_builds [OF stacks_init assms] unfolding erase_init .

text \<open>Two threads that take the mutexes 1 and 2 in opposite orders.\<close>

definition crossing :: "lk_event list" where
  "crossing = [Ask 0 AskLock (1, ''a'') ''f'' 1, Got 0, Ask 1 AskLock (2, ''b'') ''f'' 2, Got 1,
     Ask 0 AskLock (2, ''b'') ''f'' 3, Ask 1 AskLock (1, ''a'') ''f'' 4]"

lemmas run_eval = lk_init_def no_locks_def new_LockData_def check_def EnterCritical_def push_lock_def Let_def
  sm_count_def orders_at_def taken_def CCriticalSection_def AnnotatedMixin_eq recursive_mutex_def
  uses_def has_def blocked_def

lemma crossing_debug:
  "lk_run CCriticalSection True crossing (lk_init Free) =
     Stopped (Deadlock (2, 1) [(1, new_CLockLocation ''a'' ''f'' 1 False), (2, new_CLockLocation ''b'' ''f'' 3 False)]
       [(2, new_CLockLocation ''b'' ''f'' 2 False), (1, new_CLockLocation ''a'' ''f'' 4 False)])"
  by (simp add: crossing_def run_eval)

lemma crossing_can: "can_run CCriticalSection True crossing (lk_init Free)"
  by (simp add: crossing_def run_eval)

text \<open>The same events without the checker end in the deadlock it is for.\<close>

theorem crossing_release:
  "case lk_run CCriticalSection False crossing (lk_init Free) of
     Locked st \<Rightarrow> blocked CCriticalSection st 0 \<and> blocked CCriticalSection st 1 | _ \<Rightarrow> False"
  by (simp add: crossing_def run_eval)

theorem debug_refines_release_witness:
  "\<exists>p s1 s2. lk_run CCriticalSection True crossing (lk_init Free) = Stopped (Deadlock p s1 s2)"
  using debug_refines_release [OF crossing_can] crossing_debug by simp

text \<open>C14: in the \<open>DEBUG_LOCKORDER\<close> build no two threads that got past the checker ever take, or
  wait for, two mutexes in opposite orders, at whatever time the two orders were taken: once some thread that had
  \<open>a\<close> has asked for \<open>b\<close>, which it did not have, no thread ever has \<open>b\<close> and gets as far as waiting for \<open>a\<close>, unless it
  had \<open>a\<close> before \<open>b\<close>, as long as neither mutex is destroyed. The first thread may long have left both. Scopes and
  sections of a thread nest, as the step relation has it, and no mutex is destroyed while it is in use.\<close>

theorem orders_agree:
  assumes "lk_reach M m0 True st" "taken_before st t1 a b"
    and "can_run M True evs st" "lk_run M True evs st = Locked st'"
    and "Destroy a \<notin> set evs" "Destroy b \<notin> set evs"
  shows "\<not> taken_before st' t2 b a"
proof
  assume "taken_before st' t2 b a"
  note r' = run_reach [OF assms(1,3,4)]
  have "(b, a) \<in> pairs (lockdata (checker (world st')))" using taken_before_recorded [OF r'] \<open>taken_before st' t2 b a\<close> by simp
  moreover have "(a, b) \<in> pairs (lockdata (checker (world st')))"
    using run_keeps_pairs [OF assms(1,3-6)] taken_before_recorded [OF assms(1,2)] by simp
  moreover have "lock_inv (checker (world st'))" using lk_reach_checker [OF r'] lock_reach_inv by blast
  ultimately show False by (auto simp: lock_inv_def order_ok_def)
qed

text \<open>A thread takes 1 and asks for 2, and goes on; another one takes 2.\<close>

theorem orders_agree_witness:
  "\<exists>st st'. lk_run CCriticalSection True [Ask 0 AskLock (1, ''a'') ''f'' 1, Got 0, Ask 0 AskLock (2, ''b'') ''f'' 2]
       (lk_init Free) = Locked st \<and> taken_before st 0 1 2 \<and>
     lk_run CCriticalSection True [Got 0, Close 0, Close 0, Ask 1 AskLock (2, ''b'') ''f'' 3, Got 1] st = Locked st' \<and>
     uses st' 0 = [] \<and> uses st' 1 = [2] \<and> \<not> taken_before st' 1 2 1"
proof -
  let ?evs = "[Ask 0 AskLock (1, ''a'') ''f'' 1, Got 0, Ask 0 AskLock (2, ''b'') ''f'' 2]"
  let ?more = "[Got 0, Close 0, Close 0, Ask 1 AskLock (2, ''b'') ''f'' 3, Got 1]"
  obtain st where st: "lk_run CCriticalSection True ?evs (lk_init Free) = Locked st" "taken_before st 0 1 2"
    and run: "case lk_run CCriticalSection True ?more st of Locked st' \<Rightarrow> uses st' 0 = [] \<and> uses st' 1 = [2] | _ \<Rightarrow> False"
      "can_run CCriticalSection True ?more st"
    by (simp add: run_eval taken_before_def delete_CMutexLock_def LeaveCritical_def pop_lock_def)
  then obtain st' where st': "lk_run CCriticalSection True ?more st = Locked st'" "uses st' 0 = []" "uses st' 1 = [2]"
    by (auto split: lock_outcome.splits)
  have "can_run CCriticalSection True ?evs (lk_init Free)" by (simp add: run_eval)
  then have "lk_reach CCriticalSection Free True st" by (rule run_reach [OF lk_reach.init _ st(1)])
  from orders_agree [OF this st(2) run(2) st'(1)] show ?thesis using st st' by auto
qed

text \<open>C17: in the \<open>DEBUG_LOCKORDER\<close> build no two threads are ever in the deadlock that
  sync.cpp describes: if one has mutex \<open>a\<close> and has asked for \<open>b\<close>, and the other has asked for \<open>a\<close>, then the other
  does not have \<open>b\<close>. This holds from the moment a mutex is asked for, at every interleaving, also after recursive
  locks, failed \<open>TRY_LOCK\<close>s and mutexes destroyed and reused, as long as sections nest.\<close>

theorem no_two_thread_deadlock:
  assumes "lk_reach CCriticalSection Free True st" "t1 \<noteq> t2"
    and "pending st t1 = Some (k1, b)" "pending st t2 = Some (k2, a)"
    and "0 < rm_depth t1 (mutexes (world st) a)"
  shows "rm_depth t2 (mutexes (world st) b) = 0"
  using critical_section.no_opposite_waits [OF assms] .

theorem no_two_thread_deadlock_witness:
  "\<exists>st. lk_run CCriticalSection True [Ask 0 AskLock (1, ''a'') ''f'' 1, Got 0, Ask 0 AskLock (2, ''b'') ''f'' 2,
       Ask 1 AskLock (1, ''a'') ''f'' 3] (lk_init Free) = Locked st \<and>
     blocked CCriticalSection st 1 \<and> rm_depth 1 (mutexes (world st) 2) = 0"
proof -
  let ?evs = "[Ask 0 AskLock (1, ''a'') ''f'' 1, Got 0, Ask 0 AskLock (2, ''b'') ''f'' 2, Ask 1 AskLock (1, ''a'') ''f'' 3]"
  obtain st where st: "lk_run CCriticalSection True ?evs (lk_init Free) = Locked st"
    "pending st 0 = Some (AskLock, 2)" "pending st 1 = Some (AskLock, 1)"
    "0 < rm_depth 0 (mutexes (world st) 1)" "blocked CCriticalSection st 1"
    by (simp add: run_eval)
  have "can_run CCriticalSection True ?evs (lk_init Free)" by (simp add: run_eval)
  then have "lk_reach CCriticalSection Free True st" by (rule run_reach [OF lk_reach.init _ st(1)])
  from no_two_thread_deadlock [OF this _ st(2,3,4)] show ?thesis using st(1,5) by auto
qed

text \<open>while only two threads have or want a mutex, in the \<open>DEBUG_LOCKORDER\<close> build at
  most one of them waits: the other can always go on.\<close>

theorem two_threads_progress:
  assumes "lk_reach CCriticalSection Free True st" "\<forall>t. t \<notin> {t1, t2} \<longrightarrow> entries st t = []" "t1 \<noteq> t2"
  shows "\<not> (blocked CCriticalSection st t1 \<and> blocked CCriticalSection st t2)"
proof
  note has = critical_section.owner_has [OF assms(1)]
  assume b: "blocked CCriticalSection st t1 \<and> blocked CCriticalSection st t2"
  obtain k1 c1 u1 where 1: "pending st t1 = Some (k1, c1)" "u1 \<noteq> t1" "0 < rm_depth u1 (mutexes (world st) c1)"
    using b by (auto simp: blocked_owner)
  obtain k2 c2 u2 where 2: "pending st t2 = Some (k2, c2)" "u2 \<noteq> t2" "0 < rm_depth u2 (mutexes (world st) c2)"
    using b by (auto simp: blocked_owner)
  have "u \<in> {t1, t2}" if "0 < rm_depth u (mutexes (world st) c)" for u c
    using that assms(2) has [of u c] by (cases "entries st u") (auto simp: has_def)
  then have "u1 = t2" "u2 = t1" using 1 2 by auto
  then show False
    using critical_section.no_opposite_waits [OF assms(1,3) 1(1) 2(1)] 1(3) 2(3) by simp
qed

theorem two_threads_progress_witness:
  "\<exists>st. lk_run CCriticalSection True [Ask 0 AskLock (1, ''a'') ''f'' 1, Got 0, Ask 1 AskLock (2, ''b'') ''f'' 2, Got 1,
       Ask 0 AskLock (2, ''b'') ''f'' 3] (lk_init Free) = Locked st \<and>
     blocked CCriticalSection st 0 \<and> \<not> blocked CCriticalSection st 1"
proof -
  let ?evs = "[Ask 0 AskLock (1, ''a'') ''f'' 1, Got 0, Ask 1 AskLock (2, ''b'') ''f'' 2, Got 1,
    Ask 0 AskLock (2, ''b'') ''f'' 3]"
  obtain st where st: "lk_run CCriticalSection True ?evs (lk_init Free) = Locked st"
    "\<forall>t. t \<notin> {0, 1} \<longrightarrow> entries st t = []" "blocked CCriticalSection st 0"
    by (simp add: run_eval)
  have "can_run CCriticalSection True ?evs (lk_init Free)" by (simp add: run_eval)
  then have "lk_reach CCriticalSection Free True st" by (rule run_reach [OF lk_reach.init _ st(1)])
  from two_threads_progress [OF this st(2)] show ?thesis using st(1,3) by auto
qed

text \<open>Sections that do not nest: \<open>LeaveCritical\<close> takes the last entry off the stack whatever mutex is left. A
  thread that enters 1 and 2 and leaves 1 has 2, but the checker believes it has 1: \<open>AssertLockHeld\<close> of 2 fails,
  and taking 1 again, now in the opposite order, is not reported.\<close>

theorem leave_out_of_order:
  "case after_check (ENTER_CRITICAL_SECTION CCriticalSection True 0 (1, ''a'') ''f'' 1 free_world)
      (\<lambda>w1. after_check (ENTER_CRITICAL_SECTION CCriticalSection True 0 (2, ''b'') ''f'' 2 w1)
        (LEAVE_CRITICAL_SECTION CCriticalSection True 0 1)) of
     Locked w \<Rightarrow> mutexes w 1 = Free \<and> mutexes w 2 = Owned 0 0 \<and> map fst (stack_of (checker w) 0) = [1] \<and>
       (\<exists>m. AssertLockHeldInternal itostr 0 2 (checker w) = AssertFailed m) \<and>
       (\<exists>w'. ENTER_CRITICAL_SECTION CCriticalSection True 0 (1, ''a'') ''f'' 3 w = Locked w')
   | _ \<Rightarrow> False"
  by (simp add: run_eval ENTER_CRITICAL_SECTION_def LEAVE_CRITICAL_SECTION_def LeaveCritical_def pop_lock_def
    free_world_def stack_of_def AssertLockHeldInternal_def)

text \<open>The limit of pairs: three threads, each with one of three mutexes and waiting for the next, are not reported,
  and none of them can go on.\<close>

definition three_crossing :: "lk_event list" where
  "three_crossing =
     [Ask 0 AskLock (1, ''a'') ''f'' 1, Got 0, Ask 1 AskLock (2, ''b'') ''f'' 2, Got 1,
      Ask 2 AskLock (3, ''c'') ''f'' 3, Got 2, Ask 0 AskLock (2, ''b'') ''f'' 4,
      Ask 1 AskLock (3, ''c'') ''f'' 5, Ask 2 AskLock (1, ''a'') ''f'' 6]"

theorem three_threads_deadlock:
  "can_run CCriticalSection True three_crossing (lk_init Free) \<and>
   (case lk_run CCriticalSection True three_crossing (lk_init Free) of
      Locked st \<Rightarrow> blocked CCriticalSection st 0 \<and> blocked CCriticalSection st 1 \<and> blocked CCriticalSection st 2
    | _ \<Rightarrow> False)"
  by (simp add: three_crossing_def run_eval)

end
