(* ===== verification/LockAnnotations.thy ===== *)
theory LockAnnotations
  imports LockSystem
begin

text \<open>
  The lock annotations of boostthreadcontrol/threadsafety.h and their uses in sync.h. The macros expand to
  attributes of clang, or to nothing with other compilers. What the attributes claim of a function is a
  contract on whether the calling thread has the mutex before and after; the lemmas compare it with what the
  annotated functions do, and show what a program gains that keeps to it.
\<close>

section \<open>The macros\<close>

datatype annotation =
    LOCKABLE | SCOPED_LOCKABLE | GUARDED_BY | GUARDED_VAR | PT_GUARDED_BY | PT_GUARDED_VAR
  | ACQUIRED_AFTER | ACQUIRED_BEFORE | EXCLUSIVE_LOCK_FUNCTION | SHARED_LOCK_FUNCTION
  | EXCLUSIVE_TRYLOCK_FUNCTION | SHARED_TRYLOCK_FUNCTION | UNLOCK_FUNCTION | LOCK_RETURNED
  | LOCKS_EXCLUDED | EXCLUSIVE_LOCKS_REQUIRED | SHARED_LOCKS_REQUIRED | NO_THREAD_SAFETY_ANALYSIS

definition all_annotations :: "annotation list" where
  "all_annotations =
     [LOCKABLE, SCOPED_LOCKABLE, GUARDED_BY, GUARDED_VAR, PT_GUARDED_BY, PT_GUARDED_VAR,
      ACQUIRED_AFTER, ACQUIRED_BEFORE, EXCLUSIVE_LOCK_FUNCTION, SHARED_LOCK_FUNCTION,
      EXCLUSIVE_TRYLOCK_FUNCTION, SHARED_TRYLOCK_FUNCTION, UNLOCK_FUNCTION, LOCK_RETURNED,
      LOCKS_EXCLUDED, EXCLUSIVE_LOCKS_REQUIRED, SHARED_LOCKS_REQUIRED, NO_THREAD_SAFETY_ANALYSIS]"

lemma UNIV_annotation: "UNIV = set all_annotations"
proof -
  have "a \<in> set all_annotations" for a by (cases a) (simp_all add: all_annotations_def)
  then show ?thesis by auto
qed

instantiation annotation :: enum
begin

definition enum_annotation :: "annotation list" where
  "enum_annotation = all_annotations"

definition enum_all_annotation :: "(annotation \<Rightarrow> bool) \<Rightarrow> bool" where
  "enum_all_annotation P = list_all P all_annotations"

definition enum_ex_annotation :: "(annotation \<Rightarrow> bool) \<Rightarrow> bool" where
  "enum_ex_annotation P = list_ex P all_annotations"

instance
proof
  show "distinct (enum_class.enum :: annotation list)"
    by (simp add: enum_annotation_def all_annotations_def)
qed (simp_all add: enum_annotation_def enum_all_annotation_def enum_ex_annotation_def UNIV_annotation
      list_all_iff list_ex_iff)

end

text \<open>The name of the attribute, and whether the macro takes arguments.\<close>

fun attribute_name :: "annotation \<Rightarrow> string" where
  "attribute_name LOCKABLE = ''lockable''"
| "attribute_name SCOPED_LOCKABLE = ''scoped_lockable''"
| "attribute_name GUARDED_BY = ''guarded_by''"
| "attribute_name GUARDED_VAR = ''guarded_var''"
| "attribute_name PT_GUARDED_BY = ''pt_guarded_by''"
| "attribute_name PT_GUARDED_VAR = ''pt_guarded_var''"
| "attribute_name ACQUIRED_AFTER = ''acquired_after''"
| "attribute_name ACQUIRED_BEFORE = ''acquired_before''"
| "attribute_name EXCLUSIVE_LOCK_FUNCTION = ''exclusive_lock_function''"
| "attribute_name SHARED_LOCK_FUNCTION = ''shared_lock_function''"
| "attribute_name EXCLUSIVE_TRYLOCK_FUNCTION = ''exclusive_trylock_function''"
| "attribute_name SHARED_TRYLOCK_FUNCTION = ''shared_trylock_function''"
| "attribute_name UNLOCK_FUNCTION = ''unlock_function''"
| "attribute_name LOCK_RETURNED = ''lock_returned''"
| "attribute_name LOCKS_EXCLUDED = ''locks_excluded''"
| "attribute_name EXCLUSIVE_LOCKS_REQUIRED = ''exclusive_locks_required''"
| "attribute_name SHARED_LOCKS_REQUIRED = ''shared_locks_required''"
| "attribute_name NO_THREAD_SAFETY_ANALYSIS = ''no_thread_safety_analysis''"

definition takes_arguments :: "annotation \<Rightarrow> bool" where
  "takes_arguments a \<longleftrightarrow>
     a \<notin> {LOCKABLE, SCOPED_LOCKABLE, GUARDED_VAR, PT_GUARDED_VAR, NO_THREAD_SAFETY_ANALYSIS}"

definition expansion :: "bool \<Rightarrow> annotation \<Rightarrow> string \<Rightarrow> string" where
  "expansion clang a args =
     (if clang then ''__attribute__(('' @ attribute_name a @
        (if takes_arguments a then ''('' @ args @ '')'' else '''') @ ''))''
      else '''')"

text \<open>No two macros stand for the same attribute.\<close>

lemma attribute_names: "\<forall>a b. attribute_name a = attribute_name b \<longrightarrow> a = b"
  by code_simp

section \<open>The annotated functions of sync.h\<close>

datatype lock_function = Fn_lock | Fn_unlock | Fn_try_lock | Fn_construct | Fn_construct_ptr | Fn_destruct

fun annotated :: "lock_function \<Rightarrow> annotation \<times> string" where
  "annotated Fn_lock = (EXCLUSIVE_LOCK_FUNCTION, '''')"
| "annotated Fn_unlock = (UNLOCK_FUNCTION, '''')"
| "annotated Fn_try_lock = (EXCLUSIVE_TRYLOCK_FUNCTION, ''true'')"
| "annotated Fn_construct = (EXCLUSIVE_LOCK_FUNCTION, ''mutexIn'')"
| "annotated Fn_construct_ptr = (EXCLUSIVE_LOCK_FUNCTION, ''pmutexIn'')"
| "annotated Fn_destruct = (UNLOCK_FUNCTION, '''')"

text \<open>The contract that clang documents for the attributes that sync.h uses on functions: an acquiring function is
  called without the mutex and returns with it, a releasing one the other way round, and one that tries returns
  the value of the argument exactly if it has acquired.\<close>

datatype contract = Acquires | Releases | TryAcquires bool

definition contract_of :: "lock_function \<Rightarrow> contract" where
  "contract_of f = (case annotated f of (a, args) \<Rightarrow>
     if a = UNLOCK_FUNCTION then Releases
     else if a = EXCLUSIVE_TRYLOCK_FUNCTION then TryAcquires (args = ''true'')
     else Acquires)"

fun may_call :: "contract \<Rightarrow> bool \<Rightarrow> bool" where
  "may_call Acquires had = (\<not> had)"
| "may_call Releases had = had"
| "may_call (TryAcquires b) had = (\<not> had)"

fun has_after :: "contract \<Rightarrow> bool \<Rightarrow> bool" where
  "has_after Acquires result = True"
| "has_after Releases result = False"
| "has_after (TryAcquires b) result = (result = b)"

lemma contract_simps [simp]:
  "contract_of Fn_lock = Acquires" "contract_of Fn_unlock = Releases" "contract_of Fn_try_lock = TryAcquires True"
  "contract_of Fn_construct = Acquires" "contract_of Fn_construct_ptr = Acquires" "contract_of Fn_destruct = Releases"
  by (simp_all add: contract_of_def)

section \<open>Calls of a mutex by several threads\<close>

datatype mutex_call = Call_lock | Call_unlock | Call_try_lock

fun function_of :: "mutex_call \<Rightarrow> lock_function" where
  "function_of Call_lock = Fn_lock"
| "function_of Call_unlock = Fn_unlock"
| "function_of Call_try_lock = Fn_try_lock"

text \<open>The result of a call and the mutex afterwards; \<open>None\<close> while \<open>lock\<close> does not return.\<close>

fun call :: "'m mutex_ops \<Rightarrow> nat \<Rightarrow> mutex_call \<Rightarrow> 'm \<Rightarrow> (bool \<times> 'm) option" where
  "call M t Call_lock m = map_option (Pair True) (m_lock M t m)"
| "call M t Call_unlock m = Some (True, m_unlock M t m)"
| "call M t Call_try_lock m = Some (m_try_lock M t m)"

text \<open>The results of a sequence of calls, and the mutex at the end unless one does not return.\<close>

fun calls :: "'m mutex_ops \<Rightarrow> (nat \<times> mutex_call) list \<Rightarrow> 'm \<Rightarrow> bool list \<times> 'm option" where
  "calls M [] m = ([], Some m)"
| "calls M ((t, c) # cs) m =
     (case call M t c m of
        None \<Rightarrow> ([], None)
      | Some (r, m') \<Rightarrow> (let (rs, e) = calls M cs m' in (r # rs, e)))"

text \<open>A sequence that keeps to the annotations: \<open>h\<close> tells which threads have the mutex according to them.\<close>

fun keeps_annotations :: "'m mutex_ops \<Rightarrow> (nat \<times> mutex_call) list \<Rightarrow> 'm \<Rightarrow> (nat \<Rightarrow> bool) \<Rightarrow> bool" where
  "keeps_annotations M [] m h = True"
| "keeps_annotations M ((t, c) # cs) m h =
     (may_call (contract_of (function_of c)) (h t) \<and>
      (case call M t c m of
         None \<Rightarrow> True
       | Some (r, m') \<Rightarrow> keeps_annotations M cs m' (h(t := has_after (contract_of (function_of c)) r))))"

text \<open>Who has the mutex at the end according to the annotations.\<close>

fun has_at_end :: "'m mutex_ops \<Rightarrow> (nat \<times> mutex_call) list \<Rightarrow> 'm \<Rightarrow> (nat \<Rightarrow> bool) \<Rightarrow> nat \<Rightarrow> bool" where
  "has_at_end M [] m h = h"
| "has_at_end M ((t, c) # cs) m h =
     (case call M t c m of
        None \<Rightarrow> h
      | Some (r, m') \<Rightarrow> has_at_end M cs m' (h(t := has_after (contract_of (function_of c)) r)))"

text \<open>The two mutexes in the same state, and the annotations right about it: the recursive one locked once.\<close>

fun same_mutex :: "rmutex \<Rightarrow> wmutex \<Rightarrow> (nat \<Rightarrow> bool) \<Rightarrow> bool" where
  "same_mutex Free WFree h = (\<forall>t. \<not> h t)"
| "same_mutex (Owned u 0) (WOwned v) h = (u = v \<and> h = (\<lambda>t. t = u))"
| "same_mutex _ _ h = False"

lemmas mixins = CCriticalSection_def CWaitableCriticalSection_def AnnotatedMixin_eq recursive_mutex_def simple_mutex_def

lemma same_call:
  assumes "same_mutex m w h" "may_call (contract_of (function_of c)) (h t)"
  shows "call CCriticalSection t c m = None \<and> call CWaitableCriticalSection t c w = None \<or>
    (\<exists>r m' w'. call CCriticalSection t c m = Some (r, m') \<and> call CWaitableCriticalSection t c w = Some (r, w') \<and>
      same_mutex m' w' (h(t := has_after (contract_of (function_of c)) r)))"
  using assms
  by (cases "(m, w, h)" rule: same_mutex.cases; cases c)
    (auto simp: mixins rm_try_lock_def wm_try_lock_def wm_unlock_def fun_eq_iff)

lemma same_calls:
  "same_mutex m w h \<Longrightarrow> keeps_annotations CCriticalSection cs m h \<Longrightarrow>
   fst (calls CCriticalSection cs m) = fst (calls CWaitableCriticalSection cs w) \<and>
   rel_option (\<lambda>m' w'. same_mutex m' w' (has_at_end CCriticalSection cs m h))
     (snd (calls CCriticalSection cs m)) (snd (calls CWaitableCriticalSection cs w))"
proof (induction cs arbitrary: m w h)
  case Nil
  then show ?case by simp
next
  case (Cons tc cs)
  obtain t c where tc: "tc = (t, c)" by fastforce
  have may: "may_call (contract_of (function_of c)) (h t)" using Cons.prems(2) tc by simp
  from same_call [OF Cons.prems(1) may] show ?case
  proof (elim disjE exE conjE)
    fix r m' w'
    assume c1: "call CCriticalSection t c m = Some (r, m')" "call CWaitableCriticalSection t c w = Some (r, w')"
      and s: "same_mutex m' w' (h(t := has_after (contract_of (function_of c)) r))"
    have "keeps_annotations CCriticalSection cs m' (h(t := has_after (contract_of (function_of c)) r))"
      using Cons.prems(2) tc c1(1) by simp
    from Cons.IH [OF s this] show ?thesis using tc c1 by (simp add: case_prod_beta Let_def del: fun_upd_apply)
  qed (simp add: tc)
qed

section \<open>Properties\<close>

text \<open>C19: code that keeps to the annotations, as \<open>-Wthread-safety\<close> demands, never uses that
  \<open>CCriticalSection\<close> can be locked twice: over the non-recursive mutex of \<open>CWaitableCriticalSection\<close> the same
  calls of any number of threads have the same results and wait at the same point, and at every point the
  annotations say rightly which thread has the mutex. The change that sync.h notes as to do is safe for such code.\<close>

theorem annotated_calls_agree:
  assumes "keeps_annotations CCriticalSection cs Free (\<lambda>_. False)"
  shows "fst (calls CCriticalSection cs Free) = fst (calls CWaitableCriticalSection cs WFree) \<and>
    rel_option (\<lambda>m w. same_mutex m w (has_at_end CCriticalSection cs Free (\<lambda>_. False)))
      (snd (calls CCriticalSection cs Free)) (snd (calls CWaitableCriticalSection cs WFree))"
  using same_calls [OF _ assms, of WFree] by simp

theorem annotated_calls_agree_witness:
  "\<exists>w. calls CWaitableCriticalSection [(0, Call_lock), (1, Call_try_lock), (0, Call_unlock), (1, Call_lock)] WFree =
     ([True, False, True, True], Some w) \<and> w = WOwned 1"
proof -
  let ?cs = "[(0, Call_lock), (1, Call_try_lock), (0, Call_unlock), (1, Call_lock)] :: (nat \<times> mutex_call) list"
  have "keeps_annotations CCriticalSection ?cs Free (\<lambda>_. False)" by (simp add: mixins rm_try_lock_def)
  moreover have "calls CCriticalSection ?cs Free = ([True, False, True, True], Some (Owned 1 0))"
    by (simp add: mixins rm_try_lock_def)
  ultimately have "fst (calls CWaitableCriticalSection ?cs WFree) = [True, False, True, True]"
    "rel_option (\<lambda>m w. same_mutex m w (has_at_end CCriticalSection ?cs Free (\<lambda>_. False))) (Some (Owned 1 0))
      (snd (calls CWaitableCriticalSection ?cs WFree))"
    using annotated_calls_agree [of ?cs] by auto
  then obtain w where "snd (calls CWaitableCriticalSection ?cs WFree) = Some w" "same_mutex (Owned 1 0) w
      (has_at_end CCriticalSection ?cs Free (\<lambda>_. False))"
    by (auto simp: option_rel_Some1)
  then have "w = WOwned 1" by (cases w) auto
  then show ?thesis using \<open>fst _ = _\<close> \<open>snd _ = _\<close> by (metis prod.collapse)
qed

text \<open>A second lock by the owner separates the two mutexes; the annotations forbid it.\<close>

theorem second_lock_differs:
  "calls CCriticalSection [(0, Call_lock), (0, Call_lock)] Free = ([True, True], Some (Owned 0 1)) \<and>
   calls CWaitableCriticalSection [(0, Call_lock), (0, Call_lock)] WFree = ([True], None) \<and>
   \<not> keeps_annotations CCriticalSection [(0, Call_lock), (0, Call_lock)] Free (\<lambda>_. False)"
  by (simp add: mixins)

text \<open>C20: the annotations of \<open>CMutexLock\<close> in a thread that does not have the mutex. The
  constructor without \<open>fTry\<close> returns with the mutex, as it is declared to; with \<open>fTry\<close> it returns with the mutex
  exactly if the object owns it, which the declaration does not say. The destructor leaves the thread without
  the mutex in every case.\<close>

theorem scoped_annotations:
  assumes "may_call (contract_of Fn_construct) (0 < rm_depth t (mutexes w cs))"
    and "new_CMutexLock CCriticalSection debug t cs n f l tried w = Locked (obj, w')"
  shows "(0 < rm_depth t (mutexes w' cs)) = owns_lock obj \<and>
    (\<not> tried \<longrightarrow> (0 < rm_depth t (mutexes w' cs)) = has_after (contract_of Fn_construct) True) \<and>
    (\<exists>w''. delete_CMutexLock CCriticalSection debug t obj w' = Locked w'' \<and>
      (0 < rm_depth t (mutexes w'' cs)) = has_after (contract_of Fn_destruct) True)"
proof -
  have h: "holding CCriticalSection debug t obj w w'" by (rule critical_section.new_holding [OF assms(2)])
  have o: "lock_mutex obj = Some cs" "owns_lock obj \<or> tried" using new_object [OF assms(2)] by simp_all
  have d: "rm_depth t (mutexes w cs) = 0" using assms(1) by simp
  have "(0 < rm_depth t (mutexes w' cs)) = owns_lock obj"
  proof (cases "owns_lock obj")
    case True
    then obtain m where "m_lock CCriticalSection t (mutexes w cs) = Some m" "mutexes w' = (mutexes w)(cs := m)"
      using h o(1) by (auto simp: holding_def)
    then show ?thesis using True critical_section.lock_depth [of t _ m t] by simp
  qed (use h d in \<open>simp add: holding_def same_locks_def\<close>)
  moreover obtain w'' where "delete_CMutexLock CCriticalSection debug t obj w' = Locked w''" "same_locks w w''"
    using critical_section.delete_restores [OF h] by blast
  ultimately show ?thesis using o(2) d by (auto simp: same_locks_def)
qed

text \<open>\<open>TRY_LOCK\<close> of a mutex that another thread has: the constructor returns, declared to acquire it.\<close>

theorem try_annotation_false:
  "case new_CMutexLock CCriticalSection True 1 7 ''cs'' ''f'' 1 True (free_world\<lparr>mutexes := (\<lambda>_. Owned 0 0)\<rparr>) of
     Locked (obj, w) \<Rightarrow> annotated Fn_construct = (EXCLUSIVE_LOCK_FUNCTION, ''mutexIn'') \<and>
       (0 < rm_depth 1 (mutexes w 7)) \<noteq> has_after (contract_of Fn_construct) True
   | _ \<Rightarrow> False"
  by (simp add: run_eval free_world_def new_CMutexLock_def TryEnter_def rm_try_lock_def LeaveCritical_def pop_lock_def)

theorem scoped_annotations_witness:
  "\<exists>obj w' w''. new_CMutexLock CCriticalSection True 0 7 ''cs'' ''f'' 1 False free_world = Locked (obj, w') \<and>
     0 < rm_depth 0 (mutexes w' 7) \<and> delete_CMutexLock CCriticalSection True 0 obj w' = Locked w'' \<and>
     rm_depth 0 (mutexes w'' 7) = 0"
proof -
  obtain obj w' where new: "new_CMutexLock CCriticalSection True 0 7 ''cs'' ''f'' 1 False free_world = Locked (obj, w')"
    by (simp add: run_eval free_world_def new_CMutexLock_def Enter_def)
  have "may_call (contract_of Fn_construct) (0 < rm_depth 0 (mutexes free_world 7))" by (simp add: free_world_def)
  from scoped_annotations [OF this new] show ?thesis using new by auto
qed

end
