(* ===== verification/NetUtil.thy ===== *)
theory NetUtil
  imports Prelude "HOL-Library.Signed_Division"
begin

text \<open>
  learntorrent/include/util.h: the time stamp of the log lines, and \<open>BaseServer\<close>, the part the
  three servers share. The clock is a parameter: the milliseconds since the first call.
\<close>

section \<open>Time stamps\<close>

text \<open>\<open>int(...)\<close> of a 64 bit count keeps the low 32 bits, read as a signed number. The divisions
  are C's, towards zero.\<close>

definition int_of_count :: "int \<Rightarrow> int" where
  "int_of_count n = signed_take_bit 31 n"

definition time_fields :: "int \<Rightarrow> int \<times> int \<times> int \<times> int" where
  "time_fields t0 =
     (let t = t0;
          h = t sdiv 1000 sdiv 60 sdiv 60;
          t = t - h * 60 * 60 * 1000;
          m = t sdiv 1000 sdiv 60;
          t = t - m * 60 * 1000;
          s = t sdiv 1000;
          t = t - s * 1000;
          ms = t
      in (h, m, s, ms))"

text \<open>\<open>%0wd\<close>: the decimal digits, filled up with zeros to the width \<open>w\<close>, the sign included.\<close>

fun digits :: "nat \<Rightarrow> string" where
  "digits n = (if n < 10 then [char_of (48 + n)] else digits (n div 10) @ [char_of (48 + n mod 10)])"

declare digits.simps [simp del]

definition pad :: "nat \<Rightarrow> string \<Rightarrow> string" where
  "pad w ds = replicate (w - length ds) (CHR ''0'') @ ds"

definition print_d :: "nat \<Rightarrow> int \<Rightarrow> string" where
  "print_d w i = (if i < 0 then CHR ''-'' # pad (w - 1) (digits (nat (- i))) else pad w (digits (nat i)))"

definition time_string :: "int \<Rightarrow> string" where
  "time_string t =
     (let (h, m, s, ms) = time_fields t
      in print_d 2 h @ '':'' @ print_d 2 m @ '':'' @ print_d 2 s @ ''.'' @ print_d 3 ms)"

definition time_now_string :: "int \<Rightarrow> string" where
  "time_now_string total_milliseconds = time_string (int_of_count total_milliseconds)"

section \<open>The base of the servers\<close>

text \<open>\<open>requests_\<close> is a \<open>std::atomic<int>\<close>: its increment wraps around, and it is read as a signed number.\<close>

record base_server =
  requests :: u32
  portno :: int
  has_thread :: bool

definition new_BaseServer :: base_server where
  "new_BaseServer = \<lparr>requests = 0, portno = 0, has_thread = False\<rparr>"

definition port :: "('a base_server_scheme) \<Rightarrow> int" where
  "port s = portno s"

definition numHits :: "('a base_server_scheme) \<Rightarrow> int" where
  "numHits s = sint (requests s)"

text \<open>How the constructors of the servers end: the errors of the calls on the socket, in their
  order, and the port the system chose. \<open>socket_setup\<close> is the code they share: an error leaves the
  constructor early, without a thread; the third check comes after \<open>portno\<close> is assigned.\<close>

record socket_env =
  open_fails :: bool
  bind_fails :: bool
  endpoint_fails :: bool
  local_port :: int

definition socket_setup :: "socket_env \<Rightarrow> ('a base_server_scheme) \<Rightarrow> ('a base_server_scheme) \<times> bool" where
  "socket_setup env s =
     (if open_fails env then (s, False)
      else if bind_fails env then (s, False)
      else
        let s1 = s\<lparr>portno := local_port env\<rparr>
        in if endpoint_fails env then (s1, False) else (s1, True))"

definition start_thread :: "('a base_server_scheme) \<Rightarrow> ('a base_server_scheme)" where
  "start_thread s = s\<lparr>has_thread := True\<rparr>"

section \<open>Loops that serve until an event ends them\<close>

text \<open>A thread function over the events of its loop: an event ends the function, or it is handled, which may
  count as a request, and the loop goes on.\<close>

locale server_loop =
  fixes serve :: "'e list \<Rightarrow> 's \<Rightarrow> 's"
    and hits :: "'s \<Rightarrow> u32"
    and finished :: "'s \<Rightarrow> bool"
    and ends :: "'e \<Rightarrow> bool"
    and counts :: "'e \<Rightarrow> bool"
  assumes serve_Nil: "serve [] s = s"
    and serve_end: "ends e \<Longrightarrow> hits (serve (e # es) s) = hits s \<and> finished (serve (e # es) s)"
    and serve_step: "\<not> ends e \<Longrightarrow> \<exists>s'. serve (e # es) s = serve es s' \<and>
      hits s' = hits s + (if counts e then 1 else 0) \<and> finished s' = finished s"
begin

lemma serve_hits:
  "hits (serve es s) = hits s + of_nat (length (filter counts (takeWhile (\<lambda>e. \<not> ends e) es)))"
proof (induction es arbitrary: s)
  case Nil
  then show ?case by (simp add: serve_Nil)
next
  case (Cons e es)
  show ?case
  proof (cases "ends e")
    case True
    then show ?thesis by (simp add: serve_end)
  next
    case False
    then obtain s' where "serve (e # es) s = serve es s'" "hits s' = hits s + (if counts e then 1 else 0)"
      using serve_step by blast
    with Cons.IH [of s'] False show ?thesis by simp
  qed
qed

lemma serve_finished: "finished (serve es s) \<longleftrightarrow> finished s \<or> list_ex ends es"
proof (induction es arbitrary: s)
  case Nil
  then show ?case by (simp add: serve_Nil)
next
  case (Cons e es)
  show ?case
  proof (cases "ends e")
    case True
    then show ?thesis by (simp add: serve_end)
  next
    case False
    then obtain s' where "serve (e # es) s = serve es s'" "finished s' = finished s"
      using serve_step by blast
    with Cons.IH [of s'] False show ?thesis by simp
  qed
qed

end

section \<open>The printed time\<close>

lemma sdiv_nonneg: "0 \<le> a \<Longrightarrow> 0 < b \<Longrightarrow> a sdiv b = a div b" for a b :: int
  by (cases "a = 0") (simp_all add: signed_divide_int_def)

lemma time_fields_nonneg:
  assumes "0 \<le> t"
  shows "time_fields t = (t div 3600000, t mod 3600000 div 60000, t mod 60000 div 1000, t mod 1000)"
proof -
  have h: "t sdiv 1000 sdiv 60 sdiv 60 = t div 3600000"
    using assms by (simp add: sdiv_nonneg pos_imp_zdiv_nonneg_iff zdiv_zmult2_eq [symmetric])
  define r where "r = t - t div 3600000 * 60 * 60 * 1000"
  have r: "r = t mod 3600000" unfolding r_def by (simp add: minus_div_mult_eq_mod [symmetric])
  then have r0: "0 \<le> r" by simp
  have m: "r sdiv 1000 sdiv 60 = r div 60000"
    using r0 by (simp add: sdiv_nonneg pos_imp_zdiv_nonneg_iff zdiv_zmult2_eq [symmetric])
  define q where "q = r - r div 60000 * 60 * 1000"
  have q: "q = r mod 60000" unfolding q_def by (simp add: minus_div_mult_eq_mod [symmetric])
  have "r mod 60000 = t mod 60000" unfolding r by (simp add: mod_mod_cancel)
  then have q': "q = t mod 60000" using q by simp
  then have s: "q sdiv 1000 = q div 1000" by (simp add: sdiv_nonneg)
  have "q - q div 1000 * 1000 = t mod 1000"
    unfolding q' by (simp add: minus_div_mult_eq_mod mod_mod_cancel)
  then show ?thesis
    unfolding time_fields_def Let_def h r_def [symmetric] m q_def [symmetric] s
    by (simp add: q' r)
qed

lemma time_fields_range:
  assumes "0 \<le> t" "time_fields t = (h, m, s, ms)"
  shows "t = h * 3600000 + m * 60000 + s * 1000 + ms"
    and "0 \<le> h" "0 \<le> m \<and> m < 60" "0 \<le> s \<and> s < 60" "0 \<le> ms \<and> ms < 1000"
proof -
  have f: "h = t div 3600000" "m = t mod 3600000 div 60000" "s = t mod 60000 div 1000" "ms = t mod 1000"
    using assms(2) unfolding time_fields_nonneg [OF assms(1)] by simp_all
  have "t mod 3600000 mod 60000 = t mod 60000" "t mod 60000 mod 1000 = t mod 1000"
    by (simp_all add: mod_mod_cancel)
  then show "t = h * 3600000 + m * 60000 + s * 1000 + ms"
    unfolding f using div_mult_mod_eq [of t 3600000] div_mult_mod_eq [of "t mod 3600000" 60000]
      div_mult_mod_eq [of "t mod 60000" 1000] by linarith
  have "t mod 3600000 < 3600000" "0 \<le> t mod 3600000" "t mod 60000 < 60000" "0 \<le> t mod 60000" by simp_all
  then show "0 \<le> h" "0 \<le> m \<and> m < 60" "0 \<le> s \<and> s < 60" "0 \<le> ms \<and> ms < 1000"
    using assms(1) div_mult_mod_eq [of "t mod 3600000" 60000] div_mult_mod_eq [of "t mod 60000" 1000]
      pos_mod_sign [of 60000 "t mod 3600000"] pos_mod_sign [of 1000 "t mod 60000"]
    by (simp_all add: f pos_imp_zdiv_nonneg_iff)
qed

text \<open>Reading a number back.\<close>

fun of_digits :: "nat \<Rightarrow> string \<Rightarrow> nat" where
  "of_digits acc [] = acc"
| "of_digits acc (c # cs) = of_digits (acc * 10 + (of_char c - 48)) cs"

lemma of_digits_append: "of_digits a (xs @ ys) = of_digits (of_digits a xs) ys"
  by (induction xs arbitrary: a) auto

lemma of_digits_digits: "of_digits 0 (digits n) = n"
proof (induction n rule: digits.induct)
  case (1 n)
  show ?case
  proof (cases "n < 10")
    case True
    then show ?thesis by (simp add: digits.simps [of n] of_char_of)
  next
    case False
    with 1 show ?thesis by (simp add: digits.simps [of n] of_digits_append of_char_of)
  qed
qed

lemma of_digits_pad: "of_digits 0 (pad w ds) = of_digits 0 ds"
proof -
  have "of_digits 0 (replicate k (CHR ''0'') @ ds) = of_digits 0 ds" for k
    by (induction k) auto
  then show ?thesis by (simp add: pad_def)
qed

lemma digits_length: "0 < w \<Longrightarrow> n < 10 ^ w \<Longrightarrow> length (digits n) \<le> w"
proof (induction w arbitrary: n)
  case (Suc w)
  show ?case
  proof (cases "n < 10")
    case False
    then have "0 < w" using Suc.prems(2) by (cases w) auto
    moreover have "n div 10 < 10 ^ w" using Suc.prems(2) by (simp add: div_less_iff_less_mult)
    ultimately have "length (digits (n div 10)) \<le> w" by (rule Suc.IH)
    then show ?thesis using False by (simp add: digits.simps [of n])
  qed (simp add: digits.simps [of n])
qed simp

lemma print_d_fits:
  assumes "0 < w" "0 \<le> i" "i < 10 ^ w"
  shows "length (print_d w i) = w" "of_digits 0 (print_d w i) = nat i"
proof -
  have "nat i < 10 ^ w" using assms by (simp add: nat_less_iff)
  then have "length (digits (nat i)) \<le> w" using digits_length assms(1) by simp
  then show "length (print_d w i) = w" using assms(2) by (simp add: print_d_def pad_def)
  show "of_digits 0 (print_d w i) = nat i"
    using assms(2) by (simp add: print_d_def of_digits_pad of_digits_digits)
qed

definition is_digit :: "char \<Rightarrow> bool" where
  "is_digit c \<longleftrightarrow> 48 \<le> (of_char c :: nat) \<and> (of_char c :: nat) \<le> 57"

lemma digits_digits: "list_all is_digit (digits n)"
proof (induction n rule: digits.induct)
  case (1 n)
  then show ?case by (cases "n < 10") (auto simp: digits.simps [of n] is_digit_def of_char_of)
qed

lemma print_d_digits: "0 \<le> i \<Longrightarrow> list_all is_digit (print_d w i)"
  by (auto simp: print_d_def pad_def digits_digits list_all_iff is_digit_def digits_digits [unfolded list_all_iff is_digit_def])

text \<open>The reading of a time stamp of twelve characters.\<close>

definition read_time :: "string \<Rightarrow> nat" where
  "read_time cs =
     ((of_digits 0 (take 2 cs) * 60 + of_digits 0 (take 2 (drop 3 cs))) * 60
       + of_digits 0 (take 2 (drop 6 cs))) * 1000 + of_digits 0 (take 3 (drop 9 cs))"

section \<open>Properties\<close>

text \<open>C24: for the first hundred hours the time stamp has twelve characters in the format \<open>hh:mm:ss.mmm\<close>: four
  groups of two, two, two and three decimal digits, filled up with zeros, between two colons and a dot. Reading
  it back gives the number of milliseconds it was printed from; the minutes and the seconds in it are below
  sixty, as are the fields they are printed from.\<close>

theorem time_stamp_exact:
  assumes "0 \<le> n" "n < 100 * 60 * 60 * 1000"
  shows "length (time_now_string n) = 12 \<and> read_time (time_now_string n) = nat n \<and>
    (case time_fields n of (h, m, s, ms) \<Rightarrow> h < 100 \<and> m < 60 \<and> s < 60 \<and> ms < 1000) \<and>
    (\<exists>hh mm ss mmm. time_now_string n = hh @ '':'' @ mm @ '':'' @ ss @ ''.'' @ mmm \<and>
       length hh = 2 \<and> length mm = 2 \<and> length ss = 2 \<and> length mmm = 3 \<and>
       list_all is_digit (hh @ mm @ ss @ mmm) \<and> of_digits 0 mm < 60 \<and> of_digits 0 ss < 60)"
proof -
  have n: "int_of_count n = n"
    using assms by (simp add: int_of_count_def signed_take_bit_int_eq_self)
  obtain h m s ms where f: "time_fields n = (h, m, s, ms)" by (metis prod_cases4)
  note r = time_fields_range [OF assms(1) f]
  have h: "h < 100" using r assms(2) by linarith
  note p = print_d_fits [of 2 h] print_d_fits [of 2 m] print_d_fits [of 2 s] print_d_fits [of 3 ms]
  have len: "length (print_d 2 h) = 2" "length (print_d 2 m) = 2" "length (print_d 2 s) = 2" "length (print_d 3 ms) = 3"
    using p r(2-5) h by simp_all
  have ts: "time_now_string n = print_d 2 h @ CHR '':'' # print_d 2 m @ CHR '':'' # print_d 2 s @ CHR ''.'' # print_d 3 ms"
    by (simp add: time_now_string_def n time_string_def f)
  have "read_time (time_now_string n) = ((nat h * 60 + nat m) * 60 + nat s) * 1000 + nat ms"
    unfolding read_time_def ts using len p r(2-5) h by (simp add: drop_Cons' take_Cons')
  moreover have "nat n = ((nat h * 60 + nat m) * 60 + nat s) * 1000 + nat ms"
    using r by (simp add: nat_add_distrib nat_mult_distrib algebra_simps)
  moreover have "list_all is_digit (print_d 2 h @ print_d 2 m @ print_d 2 s @ print_d 3 ms)"
    using r(2-5) print_d_digits by simp
  moreover have "of_digits 0 (print_d 2 m) < 60" "of_digits 0 (print_d 2 s) < 60" using p r(3,4) by auto
  moreover have "time_now_string n = print_d 2 h @ '':'' @ print_d 2 m @ '':'' @ print_d 2 s @ ''.'' @ print_d 3 ms"
    by (simp add: ts)
  moreover have "length (time_now_string n) = 12" using len by (simp add: ts)
  moreover have "case time_fields n of (h, m, s, ms) \<Rightarrow> h < 100 \<and> m < 60 \<and> s < 60 \<and> ms < 1000"
    using r(3-5) h f by simp
  ultimately show ?thesis using len
    by (intro conjI exI [of _ "print_d 2 h"] exI [of _ "print_d 2 m"] exI [of _ "print_d 2 s"] exI [of _ "print_d 3 ms"])
      simp_all
qed

theorem time_stamp_exact_witness:
  "time_now_string 3725042 = ''01:02:05.042'' \<and> read_time (time_now_string 3725042) = 3725042 \<and>
   (\<exists>hh mm ss mmm. ''01:02:05.042'' = hh @ '':'' @ mm @ '':'' @ ss @ ''.'' @ mmm \<and> list_all is_digit (hh @ mm @ ss @ mmm))"
proof -
  have "time_now_string 3725042 = ''01:02:05.042''" by code_simp
  then show ?thesis using time_stamp_exact [of 3725042] by auto
qed

text \<open>the milliseconds are kept in an \<open>int\<close>, so the time stamp is periodic with \<open>2 ^ 32\<close>
  milliseconds, and after \<open>2 ^ 31\<close> of them, less than twenty-five days, its fields are negative.\<close>

theorem time_stamp_wraps:
  "time_now_string (n + 2 ^ 32) = time_now_string n \<and> time_now_string (2 ^ 31) = ''-596:-31:-23.-648''"
proof
  show "time_now_string (n + 2 ^ 32) = time_now_string n"
  proof -
    have "(n + 6442450944) mod 4294967296 = (n + 2147483648) mod 4294967296"
      using mod_add_self2 [of "n + 2147483648" 4294967296] by (simp add: add.assoc)
    then show ?thesis
      by (simp add: time_now_string_def int_of_count_def signed_take_bit_eq_take_bit_shift take_bit_eq_mod ac_simps)
  qed
  show "time_now_string (2 ^ 31) = ''-596:-31:-23.-648''" by code_simp
qed

end
