(* ===== verification/UdpTracker.thy ===== *)
theory UdpTracker
  imports NetUtil
begin

text \<open>
  learntorrent/src/tracker.cpp: a UDP tracker that answers connect and announce requests from a
  fixed reply. The handler \<open>onUdpReceive\<close> works in the receive buffer; its reads and writes move a
  pointer, which is an offset here, and a write beyond the buffer is \<open>None\<close>. libtorrent's
  \<open>detail::read_*\<close> and \<open>write_*\<close> are parameters with the laws of a codec.
\<close>

section \<open>The codec of libtorrent\<close>

text \<open>A read takes the bytes from the pointer on and gives the value; a write gives the bytes it
  stores. The pointer moves by the width.\<close>

record codec =
  read32 :: "u8 list \<Rightarrow> u32"
  write8 :: "u8 \<Rightarrow> u8 list"
  write16 :: "u16 \<Rightarrow> u8 list"
  write32 :: "u32 \<Rightarrow> u8 list"
  write64 :: "u64 \<Rightarrow> u8 list"

locale net_codec =
  fixes C :: codec
  assumes read_write32: "read32 C (write32 C v @ rest) = v"
    and read32_prefix: "4 \<le> length bs \<Longrightarrow> read32 C (bs @ rest) = read32 C bs"
    and length_write8: "length (write8 C b) = 1"
    and length_write16: "length (write16 C h) = 2"
    and length_write32: "length (write32 C v) = 4"
    and length_write64: "length (write64 C w) = 8"

section \<open>The server\<close>

record udp_tracker = base_server +
  udp_announces :: u32
  abort :: bool
  armed :: bool

text \<open>\<open>armed\<close>: an \<open>async_receive_from\<close> is pending. What a handler does to the outside: packets it
  sends and the lines it logs.\<close>

datatype log_line =
    LogReadFailed | LogTooShort | LogMessage int | LogConnect | LogAnnounce int | LogScrape
  | LogUnknown u32 | LogSendFailed | LogSent | LogStop | LogExit

datatype effect = Send "u8 list" | Log log_line

text \<open>Writing through \<open>ptr\<close>.\<close>

definition put_bytes :: "u8 list \<Rightarrow> u8 list \<times> nat \<Rightarrow> (u8 list \<times> nat) option" where
  "put_bytes bs bp =
     (let (buf, ptr) = bp
      in if ptr + length bs \<le> length buf
         then Some (take ptr buf @ bs @ drop (ptr + length bs) buf, ptr + length bs) else None)"

fun put_all :: "u8 list list \<Rightarrow> u8 list \<times> nat \<Rightarrow> (u8 list \<times> nat) option" where
  "put_all [] bp = Some bp"
| "put_all (bs # bss) bp = Option.bind (put_bytes bs bp) (put_all bss)"

definition connect_writes :: "codec \<Rightarrow> u32 \<Rightarrow> u8 list list" where
  "connect_writes C transaction_id = [write32 C 0, write32 C transaction_id, write64 C 10]"

definition announce_writes :: "codec \<Rightarrow> u32 \<Rightarrow> bool \<Rightarrow> u8 list list" where
  "announce_writes C transaction_id is_v6 =
     [write32 C 1, write32 C transaction_id, write32 C 1800, write32 C 1, write32 C 1] @
     (if is_v6 then
        [write32 C 0, write32 C 0, write32 C 0, write8 C 1, write8 C 3, write8 C 3, write8 C 7, write16 C 1337]
      else
        [write8 C 1, write8 C 3, write8 C 3, write8 C 7, write16 C 1337])"

text \<open>\<open>send_to\<close> with its error logged; the outcome is an argument.\<close>

definition send_effects :: "bool \<Rightarrow> u8 list \<Rightarrow> effect list" where
  "send_effects send_fails packet = [Send packet, Log (if send_fails then LogSendFailed else LogSent)]"

text \<open>The switch on the action. Case 1 has no break and goes on with the body of case 2.\<close>

definition switch_action ::
  "codec \<Rightarrow> bool \<Rightarrow> bool \<Rightarrow> u32 \<Rightarrow> u32 \<Rightarrow> u8 list \<Rightarrow> udp_tracker \<Rightarrow> (udp_tracker \<times> u8 list \<times> effect list) option"
where
  "switch_action C is_v6 send_fails action transaction_id buffer s =
     (let case2 = [Log LogScrape]
      in if action = 0 then
           Option.bind (put_all (connect_writes C transaction_id) (buffer, 0)) (\<lambda>(buf, ptr).
             Some (s, buf, Log LogConnect # send_effects send_fails (take 16 buf)))
         else if action = 1 then
           (let s1 = s\<lparr>udp_announces := udp_announces s + 1\<rparr>
            in Option.bind (put_all (announce_writes C transaction_id is_v6) (buffer, 0)) (\<lambda>(buf, ptr).
                 Some (s1, buf, Log (LogAnnounce (sint (udp_announces s1))) #
                   send_effects send_fails (take ptr buf) @ case2)))
         else if action = 2 then Some (s, buffer, case2)
         else Some (s, buffer, [Log (LogUnknown action)]))"

definition onUdpReceive ::
  "codec \<Rightarrow> bool \<Rightarrow> nat \<Rightarrow> bool \<Rightarrow> bool \<Rightarrow> u8 list \<Rightarrow> udp_tracker \<Rightarrow> (udp_tracker \<times> u8 list \<times> effect list) option"
where
  "onUdpReceive C ec bytes_transferred is_v6 send_fails buffer s =
     (if ec then Some (s, buffer, [Log LogReadFailed])
      else if bytes_transferred < 16 then Some (s, buffer, [Log LogTooShort])
      else if abort s then Some (s, buffer, [])
      else
        let action = read32 C (drop 8 buffer);
            transaction_id = read32 C (drop 12 buffer)
        in Option.bind (switch_action C is_v6 send_fails action transaction_id buffer s) (\<lambda>(s1, buf, out).
             Some (s1\<lparr>armed := True\<rparr>, buf, Log (LogMessage (int bytes_transferred)) # out)))"

text \<open>The constructor, and the start of \<open>threadFun\<close>, which makes the first receive pending.\<close>

definition new_UdpTracker :: "socket_env \<Rightarrow> udp_tracker" where
  "new_UdpTracker env =
     (let s0 = base_server.extend new_BaseServer \<lparr>udp_announces = 0, abort = False, armed = False\<rparr>;
          s1 = s0\<lparr>portno := 0\<rparr>;
          (s2, ok) = socket_setup env s1
      in if ok then start_thread s2 else s2)"

definition threadFun :: "udp_tracker \<Rightarrow> udp_tracker" where
  "threadFun s = (if has_thread s then s\<lparr>armed := True\<rparr> else s)"

text \<open>\<open>stop\<close> runs in the thread of the server; cancelling the socket lets the pending receive complete with an
  error.\<close>

definition stop :: "udp_tracker \<Rightarrow> udp_tracker" where
  "stop s = s\<lparr>abort := True\<rparr>"

text \<open>The destructor posts \<open>stop\<close> and joins the thread. While a receive is pending, \<open>run\<close> has work: it calls
  \<open>stop\<close> and then the handler with the error, which leaves it without work, and \<open>threadFun\<close> ends. Otherwise the
  thread has ended before, and \<open>stop\<close> is never called.\<close>

definition delete_UdpTracker :: "codec \<Rightarrow> u8 list \<Rightarrow> udp_tracker \<Rightarrow> (udp_tracker \<times> effect list) option" where
  "delete_UdpTracker C buffer s =
     (if has_thread s \<and> armed s then
        map_option (\<lambda>(s1, buf, out). (s1, Log LogStop # out @ [Log LogExit]))
          (onUdpReceive C True 0 False False buffer ((stop s)\<lparr>armed := False\<rparr>))
      else Some (s, []))"

section \<open>Datagrams\<close>

record datagram =
  d_error :: bool
  d_data :: "u8 list"
  d_v6 :: bool
  d_send_fails :: bool

text \<open>A pending receive is completed: the socket copies what fits into the buffer of the receive and
  calls the handler. Without one a datagram is not looked at.\<close>

definition receive :: "codec \<Rightarrow> datagram \<Rightarrow> udp_tracker \<times> u8 list \<times> effect list \<Rightarrow>
    (udp_tracker \<times> u8 list \<times> effect list) option" where
  "receive C d st =
     (let (s, buffer, out) = st
      in if \<not> armed s then Some (s, buffer, out)
         else
           let data = take (length buffer) (d_data d);
               buf = data @ drop (length data) buffer
           in map_option (\<lambda>(s1, buf1, out1). (s1, buf1, out @ out1))
                (onUdpReceive C (d_error d) (length data) (d_v6 d) (d_send_fails d) buf (s\<lparr>armed := False\<rparr>)))"

fun receive_all :: "codec \<Rightarrow> datagram list \<Rightarrow> udp_tracker \<times> u8 list \<times> effect list \<Rightarrow>
    (udp_tracker \<times> u8 list \<times> effect list) option" where
  "receive_all C [] st = Some st"
| "receive_all C (d # ds) st = Option.bind (receive C d st) (receive_all C ds)"

section \<open>The global tracker\<close>

text \<open>A tracker that is still there is destroyed when the pointer is reset, in \<open>StartUdpTracker\<close> after the new one
  has been constructed. \<open>buffer\<close> is that of its pending receive.\<close>

definition reset_tracker :: "codec \<Rightarrow> u8 list \<Rightarrow> udp_tracker option \<Rightarrow> effect list option" where
  "reset_tracker C buffer g = (case g of Some s \<Rightarrow> map_option snd (delete_UdpTracker C buffer s) | None \<Rightarrow> Some [])"

definition StartUdpTracker ::
  "codec \<Rightarrow> u8 list \<Rightarrow> socket_env \<Rightarrow> udp_tracker option \<Rightarrow> (udp_tracker option \<times> int \<times> effect list) option" where
  "StartUdpTracker C buffer env g =
     (let t = new_UdpTracker env
      in map_option (\<lambda>out. (Some (threadFun t), port t, out)) (reset_tracker C buffer g))"

definition NumUdpAnnounces :: "udp_tracker option \<Rightarrow> int" where
  "NumUdpAnnounces g = (case g of Some t \<Rightarrow> numHits t | None \<Rightarrow> 0)"

definition StopUdpTracker :: "codec \<Rightarrow> u8 list \<Rightarrow> udp_tracker option \<Rightarrow> (udp_tracker option \<times> effect list) option" where
  "StopUdpTracker C buffer g = map_option (Pair None) (reset_tracker C buffer g)"

section \<open>Writes stay inside the buffer\<close>

lemma put_all_eq:
  "ptr + length (concat bss) \<le> length buf \<Longrightarrow>
   put_all bss (buf, ptr) =
     Some (take ptr buf @ concat bss @ drop (ptr + length (concat bss)) buf, ptr + length (concat bss))"
proof (induction bss arbitrary: buf ptr)
  case (Cons bs bss)
  let ?buf = "take ptr buf @ bs @ drop (ptr + length bs) buf"
  have "put_all (bs # bss) (buf, ptr) = put_all bss (?buf, ptr + length bs)"
    using Cons.prems by (simp add: put_bytes_def)
  also have "\<dots> = Some (take (ptr + length bs) ?buf @ concat bss @ drop (ptr + length bs + length (concat bss)) ?buf,
      ptr + length bs + length (concat bss))"
    using Cons.prems by (intro Cons.IH) auto
  finally have eq: "put_all (bs # bss) (buf, ptr) = \<dots>" .
  obtain A where A: "take ptr buf = A" "length A = ptr" using Cons.prems by simp
  show ?case unfolding eq A(1) using A(2) by (simp add: ac_simps)
qed simp

definition connect_packet :: "codec \<Rightarrow> u32 \<Rightarrow> u8 list" where
  "connect_packet C tid = concat (connect_writes C tid)"

definition announce_packet :: "codec \<Rightarrow> u32 \<Rightarrow> bool \<Rightarrow> u8 list" where
  "announce_packet C tid v6 = concat (announce_writes C tid v6)"

fun sent :: "effect list \<Rightarrow> u8 list list" where
  "sent [] = []"
| "sent (Send p # es) = p # sent es"
| "sent (Log l # es) = sent es"

lemma sent_append [simp]: "sent (xs @ ys) = sent xs @ sent ys"
  by (induction xs rule: sent.induct) auto

text \<open>The reply to a request with this action, if it gets one.\<close>

definition reply_to :: "codec \<Rightarrow> u32 \<Rightarrow> u32 \<Rightarrow> bool \<Rightarrow> u8 list list" where
  "reply_to C action tid v6 =
     (if action = 0 then [connect_packet C tid] else if action = 1 then [announce_packet C tid v6] else [])"

context net_codec
begin

lemma packet_lengths:
  "length (connect_packet C tid) = 16"
  "length (announce_packet C tid v6) = (if v6 then 38 else 26)"
  by (simp_all add: connect_packet_def announce_packet_def connect_writes_def announce_writes_def
      length_write8 length_write16 length_write32 length_write64)

lemma put_packet:
  assumes "38 \<le> length buf"
  shows "put_all (connect_writes C tid) (buf, 0) = Some (connect_packet C tid @ drop 16 buf, 16)"
    and "put_all (announce_writes C tid v6) (buf, 0) =
      Some (announce_packet C tid v6 @ drop (length (announce_packet C tid v6)) buf, length (announce_packet C tid v6))"
  using assms packet_lengths(1) [of tid] packet_lengths(2) [of tid v6] put_all_eq [of 0 "connect_writes C tid" buf]
    put_all_eq [of 0 "announce_writes C tid v6" buf]
  by (simp_all add: connect_packet_def announce_packet_def)

lemma read_packet:
  "read32 C (connect_packet C tid) = 0" "read32 C (drop 4 (connect_packet C tid)) = tid"
  "read32 C (announce_packet C tid v6) = 1" "read32 C (drop 4 (announce_packet C tid v6)) = tid"
  "read32 C (drop 8 (announce_packet C tid v6)) = 1800"
  using length_write32
  by (simp_all add: connect_packet_def announce_packet_def connect_writes_def announce_writes_def
      read_write32 drop_append)

text \<open>A request long enough, without an error, before \<open>stop\<close>.\<close>

lemma receive_request:
  assumes "16 \<le> n" "\<not> abort s" "38 \<le> length buf"
  defines "action \<equiv> read32 C (drop 8 buf)" and "tid \<equiv> read32 C (drop 12 buf)"
  shows "\<exists>buf' out. onUdpReceive C False n v6 fails buf s =
      Some (s\<lparr>armed := True, udp_announces := udp_announces s + (if action = 1 then 1 else 0)\<rparr>, buf', out) \<and>
    length buf' = length buf \<and> sent out = reply_to C action tid v6"
proof -
  consider "action = 0" | "action = 1" | "action = 2" | "action \<noteq> 0" "action \<noteq> 1" "action \<noteq> 2" by blast
  then show ?thesis
  proof cases
    case 1
    then show ?thesis using assms(1-3) put_packet(1) [OF assms(3), of tid] packet_lengths(1) [of tid]
      by (simp add: onUdpReceive_def switch_action_def Let_def action_def tid_def send_effects_def reply_to_def)
  next
    case 2
    then show ?thesis using assms(1-3) put_packet(2) [OF assms(3), of tid v6] packet_lengths(2) [of tid v6]
      by (simp add: onUdpReceive_def switch_action_def Let_def action_def tid_def send_effects_def reply_to_def)
  qed (use assms(1-3) in \<open>simp_all add: onUdpReceive_def switch_action_def Let_def reply_to_def flip: action_def tid_def\<close>)
qed

text \<open>The fields of a request as it came in: what is left in the buffer from earlier packets does not
  matter.\<close>

lemma read_received:
  assumes "16 \<le> length data" "data = take n xs"
  shows "read32 C (drop 8 (data @ old)) = read32 C (drop 8 xs)"
    and "read32 C (drop 12 (data @ old)) = read32 C (drop 12 xs)"
proof -
  have xs: "xs = data @ drop n xs" using assms(2) by simp
  have "read32 C (drop 8 data @ old) = read32 C (drop 8 data)" "read32 C (drop 8 data @ drop n xs) = read32 C (drop 8 data)"
    "read32 C (drop 12 data @ old) = read32 C (drop 12 data)" "read32 C (drop 12 data @ drop n xs) = read32 C (drop 12 data)"
    using assms(1) by (simp_all add: read32_prefix)
  then show "read32 C (drop 8 (data @ old)) = read32 C (drop 8 xs)"
    "read32 C (drop 12 (data @ old)) = read32 C (drop 12 xs)"
    using assms(1) by (subst xs; simp)+
qed

end

section \<open>What the tracker does with a sequence of datagrams\<close>

definition good :: "datagram \<Rightarrow> bool" where
  "good d \<longleftrightarrow> \<not> d_error d \<and> 16 \<le> length (d_data d)"

definition action_of :: "codec \<Rightarrow> datagram \<Rightarrow> u32" where
  "action_of C d = read32 C (drop 8 (d_data d))"

definition served :: "codec \<Rightarrow> datagram list \<Rightarrow> u8 list list" where
  "served C ds = concat (map (\<lambda>d. reply_to C (action_of C d) (read32 C (drop 12 (d_data d))) (d_v6 d)) ds)"

definition announced :: "codec \<Rightarrow> datagram list \<Rightarrow> nat" where
  "announced C ds = length (filter (\<lambda>d. action_of C d = 1) ds)"

lemma receive_off: "\<not> armed s \<Longrightarrow> receive_all C ds (s, buf, out) = Some (s, buf, out)"
  by (induction ds) (auto simp: receive_def)

lemma receive_bad:
  assumes "\<not> good d" "armed s"
  shows "\<exists>buf' l. receive C d (s, buf, out) = Some (s\<lparr>armed := False\<rparr>, buf', out @ [Log l])"
  using assms by (auto simp: receive_def onUdpReceive_def good_def Let_def min_def)

context net_codec
begin

lemma receive_good:
  assumes "good d" "armed s" "\<not> abort s" "38 \<le> length buf"
  shows "\<exists>buf' out'. receive C d (s, buf, out) =
      Some (s\<lparr>udp_announces := udp_announces s + of_nat (announced C [d])\<rparr>, buf', out @ out') \<and>
    length buf' = length buf \<and> sent out' = served C [d]"
proof -
  let ?data = "take (length buf) (d_data d)"
  let ?buf = "?data @ drop (length ?data) buf"
  have len: "16 \<le> length ?data" "length ?buf = length buf" using assms(1,4) by (auto simp: good_def)
  note rd = read_received [OF len(1) refl, of "drop (length ?data) buf"]
  obtain buf' out' where "onUdpReceive C False (length ?data) (d_v6 d) (d_send_fails d) ?buf (s\<lparr>armed := False\<rparr>) =
      Some (s\<lparr>armed := True, udp_announces := udp_announces s + (if action_of C d = 1 then 1 else 0)\<rparr>, buf', out')"
    "length buf' = length buf" "sent out' = reply_to C (action_of C d) (read32 C (drop 12 (d_data d))) (d_v6 d)"
    using receive_request [of "length ?data" "s\<lparr>armed := False\<rparr>" ?buf "d_v6 d" "d_send_fails d"] len assms(3,4)
    unfolding rd action_of_def [symmetric] by auto
  moreover have "\<not> d_error d" using assms(1) by (simp add: good_def)
  ultimately show ?thesis using assms(2) by (simp add: receive_def Let_def served_def announced_def)
qed

lemma receive_all_replies:
  assumes "armed s" "\<not> abort s" "38 \<le> length buf"
  shows "\<exists>s' buf' out'. receive_all C ds (s, buf, out) = Some (s', buf', out @ out') \<and>
    s' = s\<lparr>udp_announces := udp_announces s + of_nat (announced C (takeWhile good ds)),
      armed := list_all good ds\<rparr> \<and>
    sent out' = served C (takeWhile good ds)"
  using assms
proof (induction ds arbitrary: s buf out)
  case Nil
  then show ?case by (simp add: announced_def served_def)
next
  case (Cons d ds)
  show ?case
  proof (cases "good d")
    case True
    let ?s1 = "s\<lparr>udp_announces := udp_announces s + of_nat (announced C [d])\<rparr>"
    obtain buf1 out1 where r: "receive C d (s, buf, out) = Some (?s1, buf1, out @ out1)"
      "length buf1 = length buf" "sent out1 = served C [d]"
      using receive_good [OF True Cons.prems] by blast
    obtain s' buf' out' where "receive_all C ds (?s1, buf1, out @ out1) = Some (s', buf', (out @ out1) @ out')"
      "s' = ?s1\<lparr>udp_announces := udp_announces ?s1 + of_nat (announced C (takeWhile good ds)), armed := list_all good ds\<rparr>"
      "sent out' = served C (takeWhile good ds)"
      using Cons.IH [of ?s1 buf1 "out @ out1"] Cons.prems r(2) by auto
    then show ?thesis using True r by (simp add: announced_def served_def add.assoc)
  next
    case False
    obtain buf' l where "receive C d (s, buf, out) = Some (s\<lparr>armed := False\<rparr>, buf', out @ [Log l])"
      using receive_bad [OF False Cons.prems(1)] by blast
    then show ?thesis using False by (simp add: receive_off served_def announced_def)
  qed
qed

end

section \<open>An instance: big endian\<close>

unbundle bit_operations_syntax

definition be_codec :: codec where
  "be_codec =
     \<lparr>read32 = (\<lambda>bs. push_bit 24 (ucast (bs ! 0)) OR push_bit 16 (ucast (bs ! 1)) OR
        push_bit 8 (ucast (bs ! 2)) OR ucast (bs ! 3)),
      write8 = (\<lambda>b. [b]),
      write16 = (\<lambda>h. [ucast (drop_bit 8 h), ucast h]),
      write32 = (\<lambda>v. [ucast (drop_bit 24 v), ucast (drop_bit 16 v), ucast (drop_bit 8 v), ucast v]),
      write64 = (\<lambda>w. map (\<lambda>i. ucast (drop_bit i w)) [56, 48, 40, 32, 24, 16, 8, 0])\<rparr>"

lemma be_read_write:
  fixes v :: u32
  shows "push_bit 24 (ucast (ucast (drop_bit 24 v) :: u8)) OR push_bit 16 (ucast (ucast (drop_bit 16 v) :: u8)) OR
    push_bit 8 (ucast (ucast (drop_bit 8 v) :: u8)) OR ucast (ucast v :: u8) = v" (is "?l = v")
proof (rule bit_word_eqI)
  fix n assume "n < LENGTH(32)"
  then have n: "n < 32" by simp
  consider "n < 8" | "8 \<le> n" "n < 16" | "16 \<le> n" "n < 24" | "24 \<le> n" by linarith
  then show "bit ?l n = bit v n"
    by cases (use n in \<open>auto simp: bit_simps\<close>)
qed

interpretation be: net_codec be_codec
proof unfold_locales
  show "read32 be_codec (write32 be_codec v @ rest) = v" for v rest
    using be_read_write [of v] by (simp add: be_codec_def)
  show "read32 be_codec (bs @ rest) = read32 be_codec bs" if "4 \<le> length bs" for bs rest
    using that by (cases "bs = []") (simp_all add: be_codec_def nth_append)
qed (simp_all add: be_codec_def)

section \<open>Properties\<close>

definition ready :: "udp_tracker" where
  "ready = threadFun (new_UdpTracker \<lparr>open_fails = False, bind_fails = False, endpoint_fails = False, local_port = 4000\<rparr>)"

definition request :: "u32 \<Rightarrow> u32 \<Rightarrow> datagram" where
  "request action tid = \<lparr>d_error = False, d_data = replicate 8 0 @ write32 be_codec action @ write32 be_codec tid,
     d_v6 = False, d_send_fails = False\<rparr>"

lemma ready_state: "armed ready" "\<not> abort ready" "udp_announces ready = 0" "requests ready = 0"
  by (simp_all add: ready_def threadFun_def new_UdpTracker_def socket_setup_def start_thread_def
      base_server.defs new_BaseServer_def)

lemma request_good: "good (request a t)"
  by (simp add: request_def good_def be_codec_def)

text \<open>C22: a running tracker replies to the datagrams in their order, with one packet for each
  connect and each announce and none for anything else, until the first one that is too short or was
  received with an error; it counts the announces, and no write leaves the receive buffer, whatever the
  packets contain and whatever an earlier reply left in the buffer.\<close>

theorem tracker_replies:
  assumes "net_codec C" "armed s" "\<not> abort s" "38 \<le> length buf"
  shows "\<exists>s' buf' out'. receive_all C ds (s, buf, out) = Some (s', buf', out @ out') \<and>
    sent out' = concat (map (\<lambda>d. reply_to C (action_of C d) (read32 C (drop 12 (d_data d))) (d_v6 d)) (takeWhile good ds)) \<and>
    udp_announces s' = udp_announces s + of_nat (announced C (takeWhile good ds))"
  using net_codec.receive_all_replies [OF assms] unfolding served_def by fastforce

theorem tracker_replies_witness:
  "\<exists>s' buf' out'. receive_all be_codec [request 0 5, request 1 6] (ready, replicate 2000 0, []) = Some (s', buf', out') \<and>
     sent out' = [connect_packet be_codec 5, announce_packet be_codec 6 False] \<and> udp_announces s' = 1"
proof -
  have a: "action_of be_codec (request a t) = a" "read32 be_codec (drop 12 (d_data (request a t))) = t" for a t
    using be.read_write32 [of a "write32 be_codec t"] be.read_write32 [of t "[]"] be.length_write32 [of a]
    by (simp_all add: action_of_def request_def)
  have len: "38 \<le> length (replicate 2000 0 :: u8 list)" by simp
  obtain s' buf' out' where r: "receive_all be_codec [request 0 5, request 1 6] (ready, replicate 2000 0, []) = Some (s', buf', [] @ out')"
    "sent out' = concat (map (\<lambda>d. reply_to be_codec (action_of be_codec d) (read32 be_codec (drop 12 (d_data d))) (d_v6 d))
        (takeWhile good [request 0 5, request 1 6]))"
    "udp_announces s' = udp_announces ready + of_nat (announced be_codec (takeWhile good [request 0 5, request 1 6]))"
    using tracker_replies [OF be.net_codec_axioms ready_state(1,2) len, of "[request 0 5, request 1 6]" "[]"] by blast
  have v: "d_v6 (request a t) = False" for a t by (simp add: request_def)
  have "sent out' = [connect_packet be_codec 5, announce_packet be_codec 6 False]"
    using r(2) by (simp add: request_good a v reply_to_def)
  moreover have "udp_announces s' = 1" using r(3) by (simp add: request_good a announced_def ready_state)
  ultimately show ?thesis using r(1) by auto
qed

text \<open>the replies have the layout of the protocol: a connect reply is 16 bytes with action 0 and
  the request's transaction id; an announce reply has action 1, the transaction id and the interval 1800, and
  one peer entry, in 26 bytes for IPv4 and 38 for IPv6.\<close>

theorem reply_packets:
  assumes "net_codec C"
  shows "length (connect_packet C tid) = 16 \<and> read32 C (connect_packet C tid) = 0 \<and>
    read32 C (drop 4 (connect_packet C tid)) = tid \<and>
    length (announce_packet C tid v6) = (if v6 then 38 else 26) \<and> read32 C (announce_packet C tid v6) = 1 \<and>
    read32 C (drop 4 (announce_packet C tid v6)) = tid \<and> read32 C (drop 8 (announce_packet C tid v6)) = 1800"
  using net_codec.packet_lengths [OF assms] net_codec.read_packet [OF assms] by simp

theorem reply_packets_witness:
  "length (connect_packet be_codec 5) = 16 \<and> read32 be_codec (drop 4 (connect_packet be_codec 5)) = 5"
  using reply_packets [OF be.net_codec_axioms, of 5] by simp

text \<open>C23: one datagram of fewer than sixteen bytes, or one failed receive, ends the service:
  the handler returns without a new \<open>async_receive_from\<close>, so no later datagram is answered.\<close>

theorem short_datagram_stops:
  assumes "armed s" "d_error d \<or> length (d_data d) < 16"
  shows "\<exists>s' buf' l. receive_all C (d # ds) (s, buf, out) = Some (s', buf', out @ [Log l]) \<and> \<not> armed s'"
proof -
  have "\<not> good d" using assms(2) by (auto simp: good_def)
  from receive_bad [OF this assms(1), of C buf out] show ?thesis by (auto simp: receive_off)
qed

theorem short_datagram_stops_witness:
  "\<exists>s' buf' l. receive_all be_codec [\<lparr>d_error = False, d_data = [1, 2, 3], d_v6 = False, d_send_fails = False\<rparr>, request 0 5]
      (ready, replicate 2000 0, []) = Some (s', buf', [Log l]) \<and> \<not> armed s'"
  using short_datagram_stops [OF ready_state(1), of "\<lparr>d_error = False, d_data = [1, 2, 3], d_v6 = False, d_send_fails = False\<rparr>"
    be_codec "[request 0 5]" "replicate 2000 0" "[]"] by simp

lemma receive_requests: "receive C d (s, buf, out) = Some (s', buf', out') \<Longrightarrow> requests s' = requests s"
  by (auto simp: receive_def onUdpReceive_def switch_action_def Let_def bind_eq_Some_conv split: if_splits)

lemma receive_all_requests: "receive_all C ds (s, buf, out) = Some (s', buf', out') \<Longrightarrow> requests s' = requests s"
proof (induction ds arbitrary: s buf out)
  case (Cons d ds)
  then obtain s1 buf1 out1 where "receive C d (s, buf, out) = Some (s1, buf1, out1)"
    "receive_all C ds (s1, buf1, out1) = Some (s', buf', out')"
    by (auto simp: bind_eq_Some_conv)
  then show ?case using Cons.IH receive_requests by metis
qed simp

text \<open>\<open>NumUdpAnnounces\<close> returns \<open>requests_\<close>, which the tracker never changes, and not
  \<open>udp_announces_\<close>, which it counts: the result is zero whatever has been received.\<close>

theorem announces_not_counted:
  assumes "receive_all C ds (threadFun (new_UdpTracker env), buf, out) = Some (s', buf', out')"
  shows "NumUdpAnnounces (Some s') = 0"
  using receive_all_requests [OF assms]
  by (simp add: NumUdpAnnounces_def numHits_def threadFun_def new_UdpTracker_def socket_setup_def start_thread_def
      base_server.defs new_BaseServer_def Let_def)

theorem announces_not_counted_witness:
  "\<exists>s' buf' out'. receive_all be_codec [] (ready, replicate 2000 0, []) = Some (s', buf', out') \<and>
     NumUdpAnnounces (Some s') = 0"
  using announces_not_counted [of be_codec "[]" "\<lparr>open_fails = False, bind_fails = False, endpoint_fails = False, local_port = 4000\<rparr>"
    "replicate 2000 0" "[]"] by (simp add: ready_def)

text \<open>\<open>StopUdpTracker\<close> returns in every state of the tracker, sends nothing, and leaves no receive pending that
  could call the handler of a destroyed object.\<close>

theorem stop_returns:
  "\<exists>s' out. delete_UdpTracker C buffer s = Some (s', out) \<and> sent out = [] \<and> (has_thread s \<longrightarrow> \<not> armed s') \<and>
    StopUdpTracker C buffer (Some s) = Some (None, out)"
  by (auto simp: delete_UdpTracker_def StopUdpTracker_def reset_tracker_def onUdpReceive_def stop_def)

end
