(* ===== verification/TorrentServers.thy ===== *)
theory TorrentServers
  imports NetUtil
begin

text \<open>
  The two servers that serve in a loop on their own thread: \<open>DhtServer\<close> (learntorrent/src/dht.cpp),
  which decodes each datagram it receives, and \<open>PeerServer\<close> (learntorrent/src/peer.cpp), which
  accepts connections and closes them. The inner loop polls until the completion handler has set
  \<open>done\<close>, so one round of the outer loop is one completion. \<open>bdecode\<close> is a parameter: \<open>None\<close> is the
  exception it throws. The destructors are the calls of the code: cancelling and closing the socket, what asio
  then completes the operations of the thread with, and \<open>join\<close>, which waits for the thread to return.
\<close>

section \<open>DhtServer\<close>

text \<open>What the completion handler stores: the number of bytes, the error, and that it ran.\<close>

record completion =
  c_ret :: nat
  c_error :: bool
  c_done :: bool

definition incomingPacket :: "bool \<Rightarrow> nat \<Rightarrow> completion \<Rightarrow> completion" where
  "incomingPacket ec bytes_transferred c = \<lparr>c_ret = bytes_transferred, c_error = ec, c_done = True\<rparr>"

text \<open>\<open>returned\<close>: the function of the thread has returned.\<close>

record 'e dht_server = base_server +
  socket_open :: bool
  returned :: bool
  decoded :: "'e list"

definition new_DhtServer :: "socket_env \<Rightarrow> 'e dht_server" where
  "new_DhtServer env =
     (let s0 = base_server.extend new_BaseServer \<lparr>socket_open = \<not> open_fails env, returned = False, decoded = []\<rparr>;
          (s1, ok) = socket_setup env s0
      in if ok then start_thread s1 else s1)"

text \<open>\<open>threadFun\<close> over the completions of its receives: each is the error and the bytes received. The
  decoded messages, which the code prints, are kept in order.\<close>

fun dht_thread :: "(u8 list \<Rightarrow> 'e option) \<Rightarrow> (bool \<times> u8 list) list \<Rightarrow> 'e dht_server \<Rightarrow> 'e dht_server" where
  "dht_thread bdecode [] s = s"
| "dht_thread bdecode ((err, bytes) # es) s =
     (let buffer = take 2000 bytes;
          c = incomingPacket err (length buffer) \<lparr>c_ret = 0, c_error = False, c_done = False\<rparr>
      in if c_error c then s\<lparr>returned := True\<rparr>
         else case bdecode (take (c_ret c) buffer) of
           Some msg \<Rightarrow> dht_thread bdecode es (s\<lparr>decoded := decoded s @ [msg], requests := requests s + 1\<rparr>)
         | None \<Rightarrow> dht_thread bdecode es s)"

section \<open>Stopping a server\<close>

text \<open>How a destructor ends: an exception that leaves it terminates the program, and \<open>join\<close> waits forever for a
  thread that does not return.\<close>

datatype 'a ended = Done 'a | Terminated | Hangs

text \<open>The circumstances of a stop: the completions the thread handles after the destructor has begun and before it
  meets the closed socket, whether an operation is pending when the socket is cancelled and closed, and the errors
  of these two calls.\<close>

record 'ev stopping =
  late :: "'ev list"
  was_pending :: bool
  cancel_fails :: bool
  close_fails :: bool

text \<open>A call of asio without an error code throws its error.\<close>

definition may_throw :: "bool \<Rightarrow> 'a ended \<Rightarrow> 'a ended" where
  "may_throw ec go_on = (if ec then Terminated else go_on)"

text \<open>How asio completes what is left of the operations on a socket: a pending one is aborted, and one started on a
  closed socket fails for its descriptor. On a socket still open nothing comes.\<close>

datatype accept_error = NoError | OperationAborted | BadDescriptor | OtherError

definition abandoned :: "bool \<Rightarrow> bool \<Rightarrow> accept_error list" where
  "abandoned pending open_still =
     (if pending then [OperationAborted] else if open_still then [] else [BadDescriptor])"

definition join :: "bool \<Rightarrow> 'a \<Rightarrow> 'a ended" where
  "join thread_returned s = (if thread_returned then Done s else Hangs)"

text \<open>The destructor of \<open>DhtServer\<close>. \<open>cancel\<close> fails for a socket that is not open. \<open>close\<close> closes the descriptor
  also when it reports an error.\<close>

definition delete_DhtServer ::
  "(u8 list \<Rightarrow> 'e option) \<Rightarrow> (bool \<times> u8 list) stopping \<Rightarrow> 'e dht_server \<Rightarrow> 'e dht_server ended" where
  "delete_DhtServer bdecode D s =
     may_throw (\<not> socket_open s \<or> cancel_fails D)
       (let s1 = s\<lparr>socket_open := False\<rparr>
        in may_throw (close_fails D)
          (if has_thread s1 then
             let rest = late D @ map (\<lambda>e. (e \<noteq> NoError, [])) (abandoned (was_pending D) (socket_open s1));
                 s2 = if returned s1 then s1 else dht_thread bdecode rest s1
             in join (returned s2) s2
           else Done s1))"

definition reset_dht :: "(u8 list \<Rightarrow> 'e option) \<Rightarrow> (bool \<times> u8 list) stopping \<Rightarrow> 'e dht_server option \<Rightarrow> 'r \<Rightarrow> 'r ended" where
  "reset_dht bdecode D g r =
     (case g of
        None \<Rightarrow> Done r
      | Some s \<Rightarrow> (case delete_DhtServer bdecode D s of Done s' \<Rightarrow> Done r | Terminated \<Rightarrow> Terminated | Hangs \<Rightarrow> Hangs))"

definition StartDht ::
  "(u8 list \<Rightarrow> 'e option) \<Rightarrow> (bool \<times> u8 list) stopping \<Rightarrow> socket_env \<Rightarrow> 'e dht_server option \<Rightarrow>
    ('e dht_server option \<times> int) ended" where
  "StartDht bdecode D env g = (let s = new_DhtServer env in reset_dht bdecode D g (Some s, port s))"

definition NumDhtHits :: "'e dht_server option \<Rightarrow> int" where
  "NumDhtHits g = (case g of Some s \<Rightarrow> numHits s | None \<Rightarrow> 0)"



section \<open>PeerServer\<close>

definition newConnect :: "accept_error \<Rightarrow> accept_error \<times> bool" where
  "newConnect ec = (ec, True)"

record peer_server = base_server +
  acceptor_open :: bool
  peer_returned :: bool
  closed :: nat

text \<open>\<open>listen\<close> comes after the three checks of the setup; its error is only logged.\<close>

definition new_PeerServer :: "socket_env \<Rightarrow> bool \<Rightarrow> peer_server" where
  "new_PeerServer env listen_fails =
     (let s0 = base_server.extend new_BaseServer \<lparr>acceptor_open = \<not> open_fails env, peer_returned = False, closed = 0\<rparr>;
          (s1, ok) = socket_setup env s0
      in if ok then start_thread s1 else s1)"

fun peer_thread :: "accept_error list \<Rightarrow> peer_server \<Rightarrow> peer_server" where
  "peer_thread [] s = s"
| "peer_thread (a # as) s =
     (let (ec, done) = newConnect a
      in if ec = OperationAborted \<or> ec = BadDescriptor then s\<lparr>peer_returned := True\<rparr>
         else peer_thread as (s\<lparr>requests := requests s + 1, closed := closed s + 1\<rparr>))"

text \<open>The destructor passes an error code to both calls and ignores it: none of their errors leaves it.\<close>

definition delete_PeerServer :: "accept_error stopping \<Rightarrow> peer_server \<Rightarrow> peer_server ended" where
  "delete_PeerServer P s =
     (let s1 = s\<lparr>acceptor_open := False\<rparr>
      in if has_thread s1 then
           let rest = late P @ abandoned (was_pending P) (acceptor_open s1);
               s2 = if peer_returned s1 then s1 else peer_thread rest s1
           in join (peer_returned s2) s2
         else Done s1)"

definition reset_peer :: "accept_error stopping \<Rightarrow> peer_server option \<Rightarrow> 'r \<Rightarrow> 'r ended" where
  "reset_peer P g r =
     (case g of
        None \<Rightarrow> Done r
      | Some s \<Rightarrow> (case delete_PeerServer P s of Done s' \<Rightarrow> Done r | Terminated \<Rightarrow> Terminated | Hangs \<Rightarrow> Hangs))"

definition StartPeer ::
  "accept_error stopping \<Rightarrow> socket_env \<Rightarrow> bool \<Rightarrow> peer_server option \<Rightarrow> (peer_server option \<times> int) ended" where
  "StartPeer P env listen_fails g = (let s = new_PeerServer env listen_fails in reset_peer P g (Some s, port s))"




section \<open>Both serve until an event ends them\<close>

lemma dht_step:
  "dht_thread bdecode (e # es) s =
     (if fst e then s\<lparr>returned := True\<rparr>
      else case bdecode (take 2000 (snd e)) of
        Some msg \<Rightarrow> dht_thread bdecode es (s\<lparr>decoded := decoded s @ [msg], requests := requests s + 1\<rparr>)
      | None \<Rightarrow> dht_thread bdecode es s)"
proof -
  have t: "take (length (take 2000 bytes)) (take 2000 bytes) = take 2000 bytes" for bytes :: "u8 list"
    by (rule take_all) simp
  show ?thesis unfolding dht_thread.simps(2) [of bdecode "fst e" "snd e", unfolded prod.collapse]
    by (simp only: Let_def incomingPacket_def completion.select_convs t)
qed

declare dht_thread.simps(2) [simp del]

interpretation dht: server_loop "dht_thread bdecode" requests returned fst "\<lambda>e. bdecode (take 2000 (snd e)) \<noteq> None"
  for bdecode :: "u8 list \<Rightarrow> 'e option"
proof unfold_locales
  fix e :: "bool \<times> u8 list" and es and s :: "'e dht_server"
  show "dht_thread bdecode [] s = s" by simp
  show "fst e \<Longrightarrow> requests (dht_thread bdecode (e # es) s) = requests s \<and> returned (dht_thread bdecode (e # es) s)"
    by (simp add: dht_step)
  show "\<not> fst e \<Longrightarrow> \<exists>s'. dht_thread bdecode (e # es) s = dht_thread bdecode es s' \<and>
      requests s' = requests s + (if bdecode (take 2000 (snd e)) \<noteq> None then 1 else 0) \<and> returned s' = returned s"
  proof (cases "bdecode (take 2000 (snd e))")
    case None
    then show "\<not> fst e \<Longrightarrow> ?thesis" by (intro exI [of _ s]) (simp add: dht_step)
  next
    case (Some msg)
    then show "\<not> fst e \<Longrightarrow> ?thesis"
      by (intro exI [of _ "s\<lparr>decoded := decoded s @ [msg], requests := requests s + 1\<rparr>"]) (simp add: dht_step)
  qed
qed





section \<open>Properties\<close>

text \<open>the hits of the DHT server are the datagrams that decode, up to the first receive that
  fails, which ends its thread, counted in 32 bits; the messages it prints are their decodings, in the order
  received.\<close>

theorem dht_counts:
  "requests (dht_thread bdecode es s) =
     requests s + of_nat (length (filter (\<lambda>e. bdecode (take 2000 (snd e)) \<noteq> None) (takeWhile (\<lambda>e. \<not> fst e) es))) \<and>
   decoded (dht_thread bdecode es s) =
     decoded s @ List.map_filter (\<lambda>e. bdecode (take 2000 (snd e))) (takeWhile (\<lambda>e. \<not> fst e) es)"
proof
  show "requests (dht_thread bdecode es s) =
      requests s + of_nat (length (filter (\<lambda>e. bdecode (take 2000 (snd e)) \<noteq> None) (takeWhile (\<lambda>e. \<not> fst e) es)))"
    by (rule dht.serve_hits)
  show "decoded (dht_thread bdecode es s) =
      decoded s @ List.map_filter (\<lambda>e. bdecode (take 2000 (snd e))) (takeWhile (\<lambda>e. \<not> fst e) es)"
    by (induction es arbitrary: s) (auto simp: dht_step List.map_filter_simps split: option.splits)
qed

lemmas server_setup = socket_setup_def start_thread_def base_server.defs new_BaseServer_def Let_def

definition setup_ok :: "socket_env \<Rightarrow> bool" where
  "setup_ok env \<longleftrightarrow> \<not> open_fails env \<and> \<not> bind_fails env \<and> \<not> endpoint_fails env"

lemma new_dht:
  "has_thread (new_DhtServer env) = setup_ok env" "requests (new_DhtServer env) = 0"
  "socket_open (new_DhtServer env) = (\<not> open_fails env)"
  by (simp_all add: new_DhtServer_def server_setup setup_ok_def)





text \<open>a server runs a thread exactly if its socket could be opened, bound and asked for its port,
  and then it reports that port; when the port cannot be read it reports the value it read all the same.\<close>

theorem setup_port:
  "\<exists>s. StartDht bdecode D env None = Done (Some s, if open_fails env \<or> bind_fails env then 0 else local_port env) \<and>
    has_thread s = setup_ok env \<and> NumDhtHits (Some s) = 0"
  by (simp add: StartDht_def reset_dht_def new_dht NumDhtHits_def numHits_def)
    (simp add: port_def new_DhtServer_def server_setup setup_ok_def)

section \<open>main\<close>

text \<open>The program of learntorrent/src/main.cpp asks for the default gateway and drops the answer:
  \<open>failure\<close> is the message of the error code, if there is one.\<close>

definition gateway_main :: "string option \<Rightarrow> string list \<times> int" where
  "gateway_main failure = (case failure of Some message \<Rightarrow> ([message], 1) | None \<Rightarrow> ([], 0))"

end
