(* ===== verification/OpenEcc.thy ===== *)
theory OpenEcc
  imports Prelude
begin

text \<open>
  \<open>OpenEcc\<close> of learnopenssl/src/open_ecc.cpp (learneth/ has the same file): a key pair, its import and
  export as text, signatures and the shared secret. OpenSSL is a parameter, the record \<open>openssl\<close> of the
  functions the class calls; what is used of them is stated as hypotheses. The constructor leaves every
  field indeterminate, and the class checks no return value, so each use of an indeterminate or null
  pointer is an error value here.
\<close>

section \<open>OpenSSL\<close>

text \<open>\<open>'k\<close> is \<open>EC_KEY\<close>, \<open>'b\<close> is \<open>BIGNUM\<close>, \<open>'p\<close> is \<open>EC_POINT\<close> and \<open>'g\<close> is \<open>EC_GROUP\<close>. A function that
  draws random numbers takes the number of the draw. \<open>None\<close> is a null pointer or a failed call.
  \<open>BN_hex2bn\<close> and \<open>EC_POINT_hex2point\<close> are the value of the new object after the call, whether or not
  it succeeded; \<open>ECDH_compute_key\<close> is what it stores for a buffer of the given size.\<close>

record ('k, 'b, 'p, 'g) openssl =
  builtin_curves :: "nat list"
  GROUP_new :: "nat \<Rightarrow> 'g option"
  KEY_new :: 'k
  KEY_set_group :: "'k \<Rightarrow> 'g option \<Rightarrow> 'k"
  KEY_generate :: "nat \<Rightarrow> 'k \<Rightarrow> 'k"
  KEY_set_private :: "'k \<Rightarrow> 'b \<Rightarrow> 'k"
  KEY_private :: "'k \<Rightarrow> 'b option"
  KEY_public :: "'k \<Rightarrow> 'p option"
  BN_hex2bn :: "string \<Rightarrow> 'b"
  BN_bn2hex :: "'b \<Rightarrow> string option"
  POINT_point2hex :: "'g \<Rightarrow> 'p \<Rightarrow> string option"
  POINT_hex2point :: "'g \<Rightarrow> string \<Rightarrow> 'p"
  ECDSA_size :: "'k \<Rightarrow> nat"
  ECDSA_sign :: "nat \<Rightarrow> 'k \<Rightarrow> u8 list \<Rightarrow> u8 list option"
  ECDSA_verify :: "'k \<Rightarrow> u8 list \<Rightarrow> u8 list \<Rightarrow> int"
  ECDH_compute_key :: "nat \<Rightarrow> 'p \<Rightarrow> 'k \<Rightarrow> u8 list"

datatype ecc_error =
    Indeterminate   \<comment> \<open>a field or variable nothing has been stored in\<close>
  | NullPointer
  | CurveIndex      \<comment> \<open>fewer than 26 built-in curves\<close>
  | NoSignature     \<comment> \<open>the signature failed and its length was not set\<close>
  | Overflow        \<comment> \<open>more bytes than the buffer holds\<close>

section \<open>The class\<close>

text \<open>The fields: \<open>None\<close> is indeterminate. The group may be a null pointer once it is set. \<open>berr_\<close> is
  never used.\<close>

record ('k, 'g) ecc =
  priv_key :: "'k option"
  group :: "'g option option"
  curves :: "nat list option"

datatype EccErrorType = NOERROR

definition new_OpenEcc :: "('k, 'g) ecc" where
  "new_OpenEcc = \<lparr>priv_key = None, group = None, curves = None\<rparr>"

text \<open>The operations: the number of draws before and after, and the object. A return value that is
  always \<open>NOERROR\<close> is left out of the result of the helpers.\<close>

type_synonym ('k, 'g, 'r) ecc_result = "ecc_error + 'r \<times> nat \<times> ('k, 'g) ecc"

text \<open>\<open>create_priv_key\<close> is never read.\<close>

definition initEccCurves ::
  "('k, 'b, 'p, 'g) openssl \<Rightarrow> bool \<Rightarrow> nat \<Rightarrow> ('k, 'g) ecc \<Rightarrow> ('k, 'g, EccErrorType) ecc_result" where
  "initEccCurves L create_priv_key n e =
     (let cs = builtin_curves L
      in if length cs \<le> 25 then Inl CurveIndex
         else let g = GROUP_new L (cs ! 25);
                  k = KEY_generate L n (KEY_set_group L (KEY_new L) g)
              in Inr (NOERROR, n + 1, e\<lparr>curves := Some cs, group := Some g, priv_key := Some k\<rparr>))"

definition strToPrivKey ::
  "('k, 'b, 'p, 'g) openssl \<Rightarrow> string \<Rightarrow> nat \<Rightarrow> ('k, 'g) ecc \<Rightarrow> ('k, 'g, EccErrorType) ecc_result" where
  "strToPrivKey L data n e =
     (case (priv_key e, curves e) of
        (Some old, Some cs) \<Rightarrow>
          if length cs \<le> 25 then Inl CurveIndex
          else let bn = BN_hex2bn L data;
                   g = GROUP_new L (cs ! 25);
                   k = KEY_generate L n (KEY_set_group L (KEY_new L) g)
               in Inr (NOERROR, n + 1, e\<lparr>group := Some g, priv_key := Some (KEY_set_private L k bn)\<rparr>)
      | _ \<Rightarrow> Inl Indeterminate)"

definition importPrivKey ::
  "('k, 'b, 'p, 'g) openssl \<Rightarrow> string \<Rightarrow> nat \<Rightarrow> ('k, 'g) ecc \<Rightarrow> ('k, 'g, EccErrorType) ecc_result" where
  "importPrivKey L str_priv_key n e = strToPrivKey L str_priv_key n e"

definition privKeyToStr :: "('k, 'b, 'p, 'g) openssl \<Rightarrow> ('k, 'g) ecc \<Rightarrow> ecc_error + string option" where
  "privKeyToStr L e =
     (case priv_key e of
        None \<Rightarrow> Inl Indeterminate
      | Some k \<Rightarrow> (case KEY_private L k of None \<Rightarrow> Inl NullPointer | Some bn \<Rightarrow> Inr (BN_bn2hex L bn)))"

text \<open>Assigning a null pointer to a string is undefined.\<close>

definition dumpPrivKey :: "('k, 'b, 'p, 'g) openssl \<Rightarrow> ('k, 'g) ecc \<Rightarrow> ecc_error + string" where
  "dumpPrivKey L e =
     (case privKeyToStr L e of
        Inl x \<Rightarrow> Inl x
      | Inr None \<Rightarrow> Inl NullPointer
      | Inr (Some data) \<Rightarrow> Inr data)"

text \<open>If the signature fails, \<open>sig_len\<close> has no value.\<close>

definition signMessage ::
  "('k, 'b, 'p, 'g) openssl \<Rightarrow> u8 list \<Rightarrow> nat \<Rightarrow> ('k, 'g) ecc \<Rightarrow> ecc_error + u8 list" where
  "signMessage L message n e =
     (case priv_key e of
        None \<Rightarrow> Inl Indeterminate
      | Some k \<Rightarrow>
          let size = ECDSA_size L k
          in (case ECDSA_sign L n k message of
                None \<Rightarrow> Inl NoSignature
              | Some sig \<Rightarrow> if length sig > size then Inl Overflow else Inr sig))"

definition verifyMessage ::
  "('k, 'b, 'p, 'g) openssl \<Rightarrow> u8 list \<Rightarrow> u8 list \<Rightarrow> string \<Rightarrow> ('k, 'g) ecc \<Rightarrow> ecc_error + bool" where
  "verifyMessage L message signature pub_key e =
     (case priv_key e of
        None \<Rightarrow> Inl Indeterminate
      | Some k \<Rightarrow> Inr (if ECDSA_verify L k message signature \<noteq> 1 then False else True))"

definition getPubKey :: "('k, 'b, 'p, 'g) openssl \<Rightarrow> ('k, 'g) ecc \<Rightarrow> ecc_error + string" where
  "getPubKey L e =
     (case (priv_key e, group e) of
        (Some k, Some g) \<Rightarrow>
          (case (g, KEY_public L k) of
             (Some gr, Some p) \<Rightarrow> (case POINT_point2hex L gr p of None \<Rightarrow> Inl NullPointer | Some data \<Rightarrow> Inr data)
           | _ \<Rightarrow> Inl NullPointer)
      | _ \<Rightarrow> Inl Indeterminate)"

definition strToPubKey :: "('k, 'b, 'p, 'g) openssl \<Rightarrow> string \<Rightarrow> ('k, 'g) ecc \<Rightarrow> ecc_error + 'p" where
  "strToPubKey L data e =
     (case group e of
        None \<Rightarrow> Inl Indeterminate
      | Some None \<Rightarrow> Inl NullPointer
      | Some (Some g) \<Rightarrow> Inr (POINT_hex2point L g data))"

text \<open>\<open>share_key\<close> is a local array of 32 bytes; \<open>stack\<close> is what it holds when the call begins.\<close>

definition calcECDHKey ::
  "('k, 'b, 'p, 'g) openssl \<Rightarrow> u8 list \<Rightarrow> string \<Rightarrow> ('k, 'g) ecc \<Rightarrow> ecc_error + u8 list" where
  "calcECDHKey L stack pub_key e =
     (case strToPubKey L pub_key e of
        Inl x \<Rightarrow> Inl x
      | Inr p \<Rightarrow>
          (case priv_key e of
             None \<Rightarrow> Inl Indeterminate
           | Some k \<Rightarrow>
               let secret = ECDH_compute_key L 32 p k
               in if length secret > 32 then Inl Overflow
                  else Inr (take 32 (secret @ drop (length secret) stack))))"

section \<open>Calls\<close>

datatype ecc_call =
    Init bool
  | Import string
  | Dump
  | Sign "u8 list"
  | Verify "u8 list" "u8 list" string
  | PubKey
  | Shared "u8 list" string

datatype ecc_reply = Done EccErrorType | Text string | Bytes "u8 list" | Verdict bool

text \<open>One call of a member function. \<open>EC_KEY_generate_key\<close> and \<open>ECDSA_sign\<close> draw.\<close>

fun ecc_do ::
  "('k, 'b, 'p, 'g) openssl \<Rightarrow> ecc_call \<Rightarrow> nat \<Rightarrow> ('k, 'g) ecc \<Rightarrow> ('k, 'g, ecc_reply) ecc_result" where
  "ecc_do L (Init c) n e = map_sum id (map_prod Done id) (initEccCurves L c n e)"
| "ecc_do L (Import s) n e = map_sum id (map_prod Done id) (importPrivKey L s n e)"
| "ecc_do L Dump n e = map_sum id (\<lambda>s. (Text s, n, e)) (dumpPrivKey L e)"
| "ecc_do L (Sign m) n e = map_sum id (\<lambda>s. (Bytes s, n + 1, e)) (signMessage L m n e)"
| "ecc_do L (Verify m s p) n e = map_sum id (\<lambda>v. (Verdict v, n, e)) (verifyMessage L m s p e)"
| "ecc_do L PubKey n e = map_sum id (\<lambda>s. (Text s, n, e)) (getPubKey L e)"
| "ecc_do L (Shared stack p) n e = map_sum id (\<lambda>s. (Bytes s, n, e)) (calcECDHKey L stack p e)"

fun ecc_run ::
  "('k, 'b, 'p, 'g) openssl \<Rightarrow> ecc_call list \<Rightarrow> nat \<Rightarrow> ('k, 'g) ecc \<Rightarrow> ('k, 'g, ecc_reply list) ecc_result" where
  "ecc_run L [] n e = Inr ([], n, e)"
| "ecc_run L (c # cs) n e =
     (case ecc_do L c n e of
        Inl x \<Rightarrow> Inl x
      | Inr (r, n', e') \<Rightarrow> map_sum id (map_prod (\<lambda>rs. r # rs) id) (ecc_run L cs n' e'))"

section \<open>Initialised objects\<close>

abbreviation the_group :: "('k, 'b, 'p, 'g) openssl \<Rightarrow> 'g option" where
  "the_group L \<equiv> GROUP_new L (builtin_curves L ! 25)"

abbreviation fresh :: "('k, 'b, 'p, 'g) openssl \<Rightarrow> nat \<Rightarrow> 'k" where
  "fresh L n \<equiv> KEY_generate L n (KEY_set_group L (KEY_new L) (the_group L))"

definition ready :: "('k, 'b, 'p, 'g) openssl \<Rightarrow> ('k, 'g) ecc \<Rightarrow> bool" where
  "ready L e \<longleftrightarrow> 25 < length (builtin_curves L) \<and> curves e = Some (builtin_curves L)
     \<and> group e = Some (the_group L) \<and> priv_key e \<noteq> None"

definition generated :: "('k, 'b, 'p, 'g) openssl \<Rightarrow> ('k, 'g) ecc \<Rightarrow> bool" where
  "generated L e \<longleftrightarrow> ready L e \<and> (\<exists>n. priv_key e = Some (fresh L n))"

fun importing :: "ecc_call \<Rightarrow> bool" where
  "importing (Import s) = True"
| "importing c = False"

lemma init_outcome:
  "initEccCurves L c n e =
     (if length (builtin_curves L) \<le> 25 then Inl CurveIndex
      else Inr (NOERROR, n + 1, \<lparr>priv_key = Some (fresh L n), group = Some (the_group L), curves = Some (builtin_curves L)\<rparr>))"
  by (cases e) (simp add: initEccCurves_def Let_def)

lemma import_outcome:
  assumes "ready L e"
  shows "importPrivKey L s n e =
     Inr (NOERROR, n + 1, \<lparr>priv_key = Some (KEY_set_private L (fresh L n) (BN_hex2bn L s)),
       group = Some (the_group L), curves = Some (builtin_curves L)\<rparr>)"
  using assms by (cases e) (auto simp: ready_def importPrivKey_def strToPrivKey_def Let_def)

lemmas ecc_reads = dumpPrivKey_def privKeyToStr_def signMessage_def verifyMessage_def getPubKey_def
  calcECDHKey_def strToPubKey_def Let_def

text \<open>A call of an initialised object keeps it initialised and uses nothing indeterminate.\<close>

lemma ready_do:
  assumes "ready L e"
  shows "case ecc_do L c n e of Inl x \<Rightarrow> x \<notin> {Indeterminate, CurveIndex} | Inr (r, n', e') \<Rightarrow> ready L e'"
proof (cases "\<exists>b s. c = Init b \<or> c = Import s")
  case True
  then show ?thesis
    using assms by (auto simp: init_outcome import_outcome ready_def)
next
  case False
  then show ?thesis
    using assms by (cases c) (auto simp: ecc_reads ready_def split: option.splits)
qed

lemma init_generated:
  assumes "initEccCurves L c n e = Inr (r, n', e')"
  shows "generated L e'"
proof -
  from assms have "25 < length (builtin_curves L)"
    "e' = \<lparr>priv_key = Some (fresh L n), group = Some (the_group L), curves = Some (builtin_curves L)\<rparr>"
    by (auto simp: init_outcome split: if_splits)
  then show ?thesis unfolding generated_def ready_def by auto
qed

lemma generated_do:
  assumes "generated L e" and "\<not> importing c" and "ecc_do L c n e = Inr (r, n', e')"
  shows "generated L e'"
proof (cases "\<exists>b. c = Init b")
  case True
  then obtain b where "c = Init b" by blast
  with assms(3) have "\<exists>r. initEccCurves L b n e = Inr (r, n', e')"
    by (cases "initEccCurves L b n e") auto
  then show ?thesis using init_generated by blast
next
  case False
  then have "e' = e"
    using assms(2,3) by (cases c) (auto simp: map_sum_def split: sum.splits)
  then show ?thesis using assms(1) by simp
qed

lemma ready_run:
  "ready L e \<Longrightarrow> case ecc_run L cs n e of Inl x \<Rightarrow> x \<notin> {Indeterminate, CurveIndex} | Inr (r, n', e') \<Rightarrow> ready L e'"
proof (induction cs arbitrary: n e)
  case (Cons c cs)
  show ?case
  proof (cases "ecc_do L c n e")
    case (Inl x)
    then show ?thesis using ready_do [OF Cons.prems, of c n] by simp
  next
    case (Inr r)
    then obtain r' n' e' where r: "ecc_do L c n e = Inr (r', n', e')" by (cases r) auto
    with ready_do [OF Cons.prems, of c n] have "ready L e'" by simp
    from Cons.IH [OF this, of n'] r show ?thesis
      by (cases "ecc_run L cs n' e'") auto
  qed
qed simp

lemma ecc_run_Cons:
  assumes "ecc_run L (c # cs) n e = Inr (r, n', e')"
  obtains r1 n1 e1 r2 where "ecc_do L c n e = Inr (r1, n1, e1)" "ecc_run L cs n1 e1 = Inr (r2, n', e')" "r = r1 # r2"
proof (cases "ecc_do L c n e")
  case (Inl x)
  then show ?thesis using assms by simp
next
  case (Inr y)
  obtain r1 n1 e1 where y: "y = (r1, n1, e1)" by (cases y)
  show ?thesis
  proof (cases "ecc_run L cs n1 e1")
    case (Inl x)
    then show ?thesis using assms Inr y by simp
  next
    case (Inr z)
    then show ?thesis using assms \<open>ecc_do L c n e = Inr y\<close> y that by (cases z) auto
  qed
qed

lemma generated_run:
  "generated L e \<Longrightarrow> list_all (\<lambda>c. \<not> importing c) cs \<Longrightarrow> ecc_run L cs n e = Inr (r, n', e') \<Longrightarrow> generated L e'"
proof (induction cs arbitrary: n e r)
  case (Cons c cs)
  from Cons.prems(3) show ?case
  proof (rule ecc_run_Cons)
    fix r1 n1 e1 r2
    assume d: "ecc_do L c n e = Inr (r1, n1, e1)" and run: "ecc_run L cs n1 e1 = Inr (r2, n', e')"
    have "generated L e1" using generated_do [OF Cons.prems(1) _ d] Cons.prems(2) by simp
    then show ?thesis using Cons.IH [OF _ _ run] Cons.prems(2) by simp
  qed
qed simp

lemma init_run:
  assumes "list_all (\<lambda>c. \<not> importing c) cs" and "ecc_run L (Init b # cs) n e = Inr (r, n', e')"
  shows "generated L e'"
  using assms(2)
proof (rule ecc_run_Cons)
  fix r1 n1 e1 r2
  assume "ecc_do L (Init b) n e = Inr (r1, n1, e1)" and run: "ecc_run L cs n1 e1 = Inr (r2, n', e')"
  then have "\<exists>r. initEccCurves L b n e = Inr (r, n1, e1)" by (cases "initEccCurves L b n e") auto
  then have "generated L e1" using init_generated by blast
  then show ?thesis using generated_run assms(1) run by blast
qed

section \<open>Properties\<close>

text \<open>C34: A call on a new object uses an indeterminate field unless it is
  \<open>initEccCurves\<close>. Once that call has returned, no sequence of calls ever does, nor reads beyond
  the table of the curves, and the key, the group and the table stay set.\<close>

theorem ecc_init_first:
  assumes "25 < length (builtin_curves L)"
  shows "((\<nexists>b. c = Init b) \<longrightarrow> ecc_do L c n new_OpenEcc = Inl Indeterminate) \<and>
    (case ecc_run L (Init b # cs) n new_OpenEcc of
       Inl x \<Rightarrow> x \<notin> {Indeterminate, CurveIndex}
     | Inr (r, n', e') \<Rightarrow> priv_key e' \<noteq> None \<and> group e' = Some (the_group L) \<and> curves e' = Some (builtin_curves L))"
proof
  show "(\<nexists>b. c = Init b) \<longrightarrow> ecc_do L c n new_OpenEcc = Inl Indeterminate"
    by (cases c) (auto simp: ecc_reads importPrivKey_def strToPrivKey_def new_OpenEcc_def)
  let ?e = "\<lparr>priv_key = Some (fresh L n), group = Some (the_group L), curves = Some (builtin_curves L)\<rparr>"
  have "ready L ?e" using assms by (simp add: ready_def)
  from ready_run [OF this, of cs "n + 1"] show "case ecc_run L (Init b # cs) n new_OpenEcc of
           Inl x \<Rightarrow> x \<notin> {Indeterminate, CurveIndex}
         | Inr (r, n', e') \<Rightarrow> priv_key e' \<noteq> None \<and> group e' = Some (the_group L) \<and> curves e' = Some (builtin_curves L)"
    using assms
    by (cases "ecc_run L cs (n + 1) ?e") (auto simp: init_outcome ready_def)
qed

text \<open>A small library for the witnesses: the private number is its own public point, a number is
  written in unary, and a signature is the signer's number before the message.\<close>

definition tiny :: "(nat option \<times> nat option, nat, nat, unit) openssl" where
  "tiny = \<lparr>builtin_curves = [0..<30], GROUP_new = (\<lambda>nid. Some ()), KEY_new = (None, None),
     KEY_set_group = (\<lambda>k g. k), KEY_generate = (\<lambda>n k. (Some (n + 2), Some (n + 2))),
     KEY_set_private = (\<lambda>k b. (Some b, snd k)), KEY_private = fst, KEY_public = snd,
     BN_hex2bn = length, BN_bn2hex = (\<lambda>b. Some (replicate b (CHR ''A''))),
     POINT_point2hex = (\<lambda>g p. Some (replicate p (CHR ''A''))), POINT_hex2point = (\<lambda>g s. length s),
     ECDSA_size = (\<lambda>k. 40), ECDSA_sign = (\<lambda>r k m. map_option (\<lambda>b. of_nat b # take 35 m) (fst k)),
     ECDSA_verify = (\<lambda>k m s. if s = of_nat (the (snd k)) # take 35 m then 1 else 0),
     ECDH_compute_key = (\<lambda>l p k. [of_nat (p * the (fst k))])\<rparr>"

theorem ecc_init_first_witness:
  "ecc_do tiny Dump 0 new_OpenEcc = Inl Indeterminate \<and>
   ecc_run tiny [Init True, Dump] 0 new_OpenEcc
     = Inr ([Done NOERROR, Text ''AA''], 1, \<lparr>priv_key = Some (Some 2, Some 2), group = Some (Some ()), curves = Some [0..<30]\<rparr>)"
proof
  show "ecc_do tiny Dump 0 new_OpenEcc = Inl Indeterminate"
    using ecc_init_first [of tiny Dump 0 True "[]"] by (simp add: tiny_def)
qed (simp add: tiny_def init_outcome ecc_reads numeral_eq_Suc)

text \<open>A signature that an object initialised by \<open>initEccCurves\<close>, and used without
  importing a key, has made of a message is accepted by its \<open>verifyMessage\<close> for that message,
  whatever public key the caller passes: the argument is never read. It is assumed that the library
  accepts what a generated key has signed.\<close>

theorem verify_own:
  assumes "\<forall>i r m s. ECDSA_sign L r (fresh L i) m = Some s \<longrightarrow> ECDSA_verify L (fresh L i) m s = 1"
    and "list_all (\<lambda>c. \<not> importing c) cs" and "ecc_run L (Init b # cs) n new_OpenEcc = Inr (rs, n', e)"
    and "signMessage L message n' e = Inr signature"
  shows "verifyMessage L message signature pub_key e = Inr True"
    using init_run [OF assms(2,3)] assms(1,4)
    by (auto simp: generated_def signMessage_def verifyMessage_def Let_def split: option.splits if_splits)

theorem verify_own_witness:
  "verifyMessage tiny [1, 2] [2, 1, 2] ''anything'' \<lparr>priv_key = Some (Some 2, Some 2), group = Some (Some ()), curves = Some [0..<30]\<rparr>
     = Inr True"
  by (rule verify_own [where cs = "[]" and b = True and n = 0 and n' = 1 and rs = "[Done NOERROR]"])
    (simp_all add: tiny_def init_outcome signMessage_def)

text \<open>C36: A private key exported by one object and imported by an initialised one
  is exported by that one as the same text. Its public key is not the imported one's: it is the
  public key of the pair that the import generates first, which a fresh \<open>initEccCurves\<close> with the
  same draw would show. It is assumed that \<open>BN_hex2bn\<close> reads what \<open>BN_bn2hex\<close> writes and that
  setting the private key leaves the public one.\<close>

theorem import_keeps_secret:
  assumes "\<forall>k x. KEY_private L (KEY_set_private L k x) = Some x \<and> KEY_public L (KEY_set_private L k x) = KEY_public L k"
    and "\<forall>x s. BN_bn2hex L x = Some s \<longrightarrow> BN_hex2bn L s = x"
    and "initEccCurves L b2 n2 a2 = Inr (r2, n2', e2)"
    and "dumpPrivKey L e1 = Inr s"
  shows "\<exists>e'. importPrivKey L s n e2 = Inr (NOERROR, n + 1, e') \<and> dumpPrivKey L e' = Inr s \<and>
    (\<forall>b a. \<exists>e''. initEccCurves L b n a = Inr (NOERROR, n + 1, e'') \<and> getPubKey L e' = getPubKey L e'')"
proof -
  have r2: "ready L e2" using init_generated [OF assms(3)] by (simp add: generated_def)
  from assms(4) obtain x where x: "BN_bn2hex L x = Some s"
    by (auto simp: dumpPrivKey_def privKeyToStr_def split: option.splits sum.splits)
  have "BN_hex2bn L s = x" using x assms(2) by blast
  then show ?thesis
    using r2 x assms(1) by (simp add: import_outcome init_outcome ready_def ecc_reads)
qed

theorem import_keeps_secret_witness:
  "\<exists>e'. importPrivKey tiny ''AA'' 7 \<lparr>priv_key = Some (Some 5, Some 5), group = Some (Some ()), curves = Some [0..<30]\<rparr>
       = Inr (NOERROR, 8, e') \<and> dumpPrivKey tiny e' = Inr ''AA'' \<and>
     (\<forall>b a. \<exists>e''. initEccCurves tiny b 7 a = Inr (NOERROR, 8, e'') \<and> getPubKey tiny e' = getPubKey tiny e'')"
  using import_keeps_secret [of tiny True 3 new_OpenEcc NOERROR 4 "\<lparr>priv_key = Some (Some 5, Some 5), group = Some (Some ()), curves = Some [0..<30]\<rparr>"
      "\<lparr>priv_key = Some (Some 2, Some 2), group = Some (Some ()), curves = Some [0..<30]\<rparr>" "''AA''" 7]
  by (simp add: tiny_def init_outcome ecc_reads numeral_eq_Suc)

text \<open>C35: two objects with generated keys that exchange their public keys as text and call
  \<open>calcECDHKey\<close> get strings of 32 bytes that begin with the same secret: it is what \<open>ECDH_compute_key\<close> computes
  from the private key of the one and the public key of the other, on either side. The rest of each string is
  what was on the stack of its caller, so the strings are equal exactly if these bytes are. It is assumed that
  the library computes the same secret on both sides and reads the points it writes.\<close>

theorem shared_key_agrees:
  assumes "\<forall>i j p q. KEY_public L (fresh L i) = Some p \<longrightarrow> KEY_public L (fresh L j) = Some q \<longrightarrow>
      ECDH_compute_key L 32 q (fresh L i) = ECDH_compute_key L 32 p (fresh L j)"
    and "\<forall>g p s. POINT_point2hex L g p = Some s \<longrightarrow> POINT_hex2point L g s = p"
    and "list_all (\<lambda>c. \<not> importing c) cs1" and "ecc_run L (Init b1 # cs1) n1 new_OpenEcc = Inr (rs1, m1, e1)"
    and "list_all (\<lambda>c. \<not> importing c) cs2" and "ecc_run L (Init b2 # cs2) n2 new_OpenEcc = Inr (rs2, m2, e2)"
    and "getPubKey L e1 = Inr s1" and "getPubKey L e2 = Inr s2"
    and "calcECDHKey L stack1 s2 e1 = Inr x1" and "calcECDHKey L stack2 s1 e2 = Inr x2"
    and "length stack1 = 32" and "length stack2 = 32"
  shows "\<exists>k1 k2 p1 p2 secret. priv_key e1 = Some k1 \<and> priv_key e2 = Some k2 \<and>
    KEY_public L k1 = Some p1 \<and> KEY_public L k2 = Some p2 \<and>
    secret = ECDH_compute_key L 32 p2 k1 \<and> secret = ECDH_compute_key L 32 p1 k2 \<and> length secret \<le> 32 \<and>
    x1 = secret @ drop (length secret) stack1 \<and> x2 = secret @ drop (length secret) stack2 \<and>
    (x1 = x2 \<longleftrightarrow> drop (length secret) stack1 = drop (length secret) stack2)"
proof -
  from init_run [OF assms(3,4)] obtain i where e1: "priv_key e1 = Some (fresh L i)" "group e1 = Some (the_group L)"
    by (auto simp: generated_def ready_def)
  from init_run [OF assms(5,6)] obtain j where e2: "priv_key e2 = Some (fresh L j)" "group e2 = Some (the_group L)"
    by (auto simp: generated_def ready_def)
  from assms(7) e1 obtain g p where p: "the_group L = Some g" "KEY_public L (fresh L i) = Some p"
    and p1: "POINT_point2hex L g p = Some s1" by (auto simp: getPubKey_def split: option.splits)
  from assms(8) e2 p(1) obtain q where q: "KEY_public L (fresh L j) = Some q"
    and q1: "POINT_point2hex L g q = Some s2" by (auto simp: getPubKey_def split: option.splits)
  have hex: "POINT_hex2point L g s1 = p" "POINT_hex2point L g s2 = q" using assms(2) p1 q1 by blast+
  let ?s = "ECDH_compute_key L 32 q (fresh L i)"
  have same: "?s = ECDH_compute_key L 32 p (fresh L j)" using assms(1) p(2) q by blast
  have "length ?s \<le> 32" and x1: "x1 = ?s @ drop (length ?s) stack1"
    using assms(9,11) e1 p(1) hex(2) by (auto simp: calcECDHKey_def strToPubKey_def Let_def split: if_splits)
  moreover have x2: "x2 = ?s @ drop (length ?s) stack2"
    using assms(10,12) e2 p(1) hex(1) same by (auto simp: calcECDHKey_def strToPubKey_def Let_def split: if_splits)
  moreover have "x1 = x2 \<longleftrightarrow> drop (length ?s) stack1 = drop (length ?s) stack2" unfolding x1 x2 by simp
  ultimately show ?thesis using e1(1) e2(1) p(2) q same by blast
qed

lemma tiny_run:
  "ecc_run tiny [Init True] n new_OpenEcc =
     Inr ([Done NOERROR], n + 1, \<lparr>priv_key = Some (Some (n + 2), Some (n + 2)), group = Some (Some ()), curves = Some [0..<30]\<rparr>)"
  by (simp add: tiny_def init_outcome)

theorem shared_key_agrees_witness:
  "\<exists>m1 e1 m2 e2 s1 s2 x1 x2. ecc_run tiny [Init True] 0 new_OpenEcc = Inr ([Done NOERROR], m1, e1) \<and>
     ecc_run tiny [Init True] 3 new_OpenEcc = Inr ([Done NOERROR], m2, e2) \<and>
     getPubKey tiny e1 = Inr s1 \<and> getPubKey tiny e2 = Inr s2 \<and>
     calcECDHKey tiny (replicate 32 0) s2 e1 = Inr x1 \<and> calcECDHKey tiny (replicate 32 1) s1 e2 = Inr x2 \<and>
     x1 = 10 # replicate 31 0 \<and> x2 = 10 # replicate 31 1 \<and>
     (\<exists>k1 p2. priv_key e1 = Some k1 \<and> ECDH_compute_key tiny 32 p2 k1 = take 1 x1)"
proof -
  let ?e = "\<lambda>n. \<lparr>priv_key = Some (Some (n + 2), Some (n + 2)), group = Some (Some ()), curves = Some [0..<30]\<rparr>"
  have pub: "getPubKey tiny (?e n) = Inr (replicate (n + 2) (CHR ''A''))" for n
    by (simp add: tiny_def getPubKey_def)
  have calc: "calcECDHKey tiny (replicate 32 b) (replicate (m + 2) (CHR ''A'')) (?e n) =
      Inr (of_nat ((m + 2) * (n + 2)) # replicate 31 b)" for b m n
    by (simp add: tiny_def calcECDHKey_def strToPubKey_def numeral_eq_Suc algebra_simps)
  have hex: "\<forall>g p s. POINT_point2hex tiny g p = Some s \<longrightarrow> POINT_hex2point tiny g s = p" by (simp add: tiny_def)
  have same: "\<forall>i j p q. KEY_public tiny (fresh tiny i) = Some p \<longrightarrow> KEY_public tiny (fresh tiny j) = Some q \<longrightarrow>
      ECDH_compute_key tiny 32 q (fresh tiny i) = ECDH_compute_key tiny 32 p (fresh tiny j)"
    by (simp add: tiny_def mult.commute)
  have nil: "list_all (\<lambda>c. \<not> importing c) []" by simp
  have len: "length (replicate 32 b) = 32" for b :: u8 by simp
  obtain k1 k2 p1 p2 secret where k1: "priv_key (?e 0) = Some k1" "secret = ECDH_compute_key tiny 32 p2 k1"
      "of_nat ((3 + 2) * (0 + 2)) # replicate 31 (0 :: u8) = secret @ drop (length secret) (replicate 32 0)"
    using shared_key_agrees [OF same hex nil tiny_run [of 0] nil tiny_run [of 3] pub [of 0] pub [of 3]
        calc [of 0 3 0] calc [of 1 0 3] len len] by blast
  have "length secret = 1" unfolding k1(2) by (simp add: tiny_def)
  then have s: "ECDH_compute_key tiny 32 p2 k1 = take 1 (10 # replicate 31 (0 :: u8))"
    using k1(2,3) by (cases secret) auto
  have x: "calcECDHKey tiny (replicate 32 0) (replicate (3 + 2) (CHR ''A'')) (?e 0) = Inr (10 # replicate 31 0)"
    "calcECDHKey tiny (replicate 32 1) (replicate (0 + 2) (CHR ''A'')) (?e 3) = Inr (10 # replicate 31 1)"
    using calc [of 0 3 0] calc [of 1 0 3] by simp_all
  show ?thesis using tiny_run [of 0] tiny_run [of 3] pub [of 0] pub [of 3] x k1(1) s by blast
qed

end
