(* ===== verification/HexUtil.thy ===== *)
theory HexUtil
  imports Prelude
begin

text \<open>
  The hexadecimal helpers of learnopenssl/src/main.cpp. Memory is a list of bytes: reading or
  writing beyond it is \<open>None\<close>. A C string is a list of bytes with its terminator.
\<close>

section \<open>The table\<close>

definition p_util_hexdigit :: "int list" where
  "p_util_hexdigit =
     replicate 48 (- 1) @
     [0, 1, 2, 3, 4, 5, 6, 7, 8, 9, - 1, - 1, - 1, - 1, - 1, - 1] @
     [- 1, 10, 11, 12, 13, 14, 15, - 1, - 1, - 1, - 1, - 1, - 1, - 1, - 1, - 1] @
     replicate 16 (- 1) @
     [- 1, 10, 11, 12, 13, 14, 15, - 1, - 1, - 1, - 1, - 1, - 1, - 1, - 1, - 1] @
     replicate 144 (- 1)"

definition HexDigit :: "u8 \<Rightarrow> int" where
  "HexDigit c = p_util_hexdigit ! unat c"

section \<open>Memory\<close>

definition byte_at :: "u8 list \<Rightarrow> nat \<Rightarrow> u8 option" where
  "byte_at m i = (if i < length m then Some (m ! i) else None)"

text \<open>\<open>HexToBin\<close> copies thirty-two bytes as they are.\<close>

fun HexToBin_loop :: "nat \<Rightarrow> nat \<Rightarrow> u8 list \<Rightarrow> u8 list \<Rightarrow> u8 list option" where
  "HexToBin_loop 0 i hex bin = Some bin"
| "HexToBin_loop (Suc k) i hex bin =
     (case byte_at hex i of
        None \<Rightarrow> None
      | Some v \<Rightarrow> if i < length bin then HexToBin_loop k (Suc i) hex (bin[i := v]) else None)"

definition HexToBin :: "u8 list \<Rightarrow> u8 list \<Rightarrow> u8 list option" where
  "HexToBin hex bin = HexToBin_loop 32 0 hex bin"

section \<open>Scanning\<close>

text \<open>\<open>sscanf(ph, "%2hhx", ...)\<close>: white space is skipped, then at most two characters are taken that
  form, or begin, a hexadecimal number with an optional sign or prefix \<open>0x\<close>. Without a number
  nothing is stored.\<close>

definition is_space :: "u8 \<Rightarrow> bool" where
  "is_space c \<longleftrightarrow> c = 32 \<or> (9 \<le> c \<and> c \<le> 13)"

definition hexval :: "u8 \<Rightarrow> u8 option" where
  "hexval c =
     (if 48 \<le> c \<and> c \<le> 57 then Some (c - 48)
      else if 65 \<le> c \<and> c \<le> 70 then Some (c - 55)
      else if 97 \<le> c \<and> c \<le> 102 then Some (c - 87)
      else None)"

definition scan_pair :: "u8 list \<Rightarrow> u8 option" where
  "scan_pair s =
     (case dropWhile is_space s of
        [] \<Rightarrow> None
      | c # cs \<Rightarrow>
          if c = 43 then (case cs of [] \<Rightarrow> None | d # _ \<Rightarrow> hexval d)
          else if c = 45 then (case cs of [] \<Rightarrow> None | d # _ \<Rightarrow> map_option uminus (hexval d))
          else (case hexval c of
              None \<Rightarrow> None
            | Some h \<Rightarrow> (case cs of
                [] \<Rightarrow> Some h
              | d # _ \<Rightarrow>
                  if c = 48 \<and> (d = 120 \<or> d = 88) then None
                  else (case hexval d of None \<Rightarrow> Some h | Some l \<Rightarrow> Some (16 * h + l)))))"

text \<open>\<open>hex_to_bin\<close>: \<open>ph\<close> and the next place of \<open>bin\<close> are offsets. \<open>ph\<close> moves by two whatever the
  scan took. The scan reads up to the terminator; without one it leaves the memory.\<close>

definition c_string :: "u8 list \<Rightarrow> nat \<Rightarrow> u8 list option" where
  "c_string m i = (if 0 \<in> set (drop i m) then Some (takeWhile (\<lambda>c. c \<noteq> 0) (drop i m)) else None)"

function hex_loop :: "u8 list \<Rightarrow> nat \<Rightarrow> u8 list \<Rightarrow> nat \<Rightarrow> u8 list option" where
  "hex_loop hex ph bin i =
     (case byte_at hex ph of
        None \<Rightarrow> None
      | Some c \<Rightarrow>
          if c \<noteq> 0 \<and> i < length bin then
            (case c_string hex ph of
               None \<Rightarrow> None
             | Some s \<Rightarrow>
                 hex_loop hex (ph + 2) (case scan_pair s of Some v \<Rightarrow> bin[i := v] | None \<Rightarrow> bin) (Suc i))
          else Some bin)"
  by pat_completeness auto
termination
  by (relation "measure (\<lambda>(hex, ph, bin, i). length hex - ph)") (auto simp: byte_at_def split: if_splits)

declare hex_loop.simps [simp del]

definition hex_to_bin :: "u8 list \<Rightarrow> u8 list \<Rightarrow> u8 list option" where
  "hex_to_bin hex bin = hex_loop hex 0 bin 0"

section \<open>Printing\<close>

definition hex_chars :: "u8 list" where
  "hex_chars = [48, 49, 50, 51, 52, 53, 54, 55, 56, 57, 97, 98, 99, 100, 101, 102]"

text \<open>\<open>hex_convert_memory\<close>: the characters it stores through \<open>b\<close>, the terminator last. A width of
  zero is a division by zero. The function has no return statement; its result is not modelled.\<close>

fun convert_loop :: "nat \<Rightarrow> nat \<Rightarrow> nat \<Rightarrow> u8 list \<Rightarrow> u8 list" where
  "convert_loop n width i [] = [0]"
| "convert_loop n width i (c # m) =
     hex_chars ! unat (drop_bit 4 c) # hex_chars ! unat (take_bit 4 c) #
     (if i mod width = width - 1 \<and> i \<noteq> n - 1 then [32] else []) @ convert_loop n width (Suc i) m"

definition hex_convert_memory :: "u8 list \<Rightarrow> nat \<Rightarrow> u8 list option" where
  "hex_convert_memory m width = (if width = 0 \<and> m \<noteq> [] then None else Some (convert_loop (length m) width 0 m))"

text \<open>\<open>PrintStrHex\<close>: \<open>%x\<close> of thirty-two bytes of \<open>data.c_str()\<close>, whatever the size.\<close>

definition print_x :: "u8 \<Rightarrow> u8 list" where
  "print_x c = (if c < 16 then [hex_chars ! unat c]
     else [hex_chars ! unat (drop_bit 4 c), hex_chars ! unat (take_bit 4 c)])"

fun print_loop :: "nat \<Rightarrow> nat \<Rightarrow> u8 list \<Rightarrow> u8 list option" where
  "print_loop 0 i m = Some [10]"
| "print_loop (Suc k) i m =
     (case byte_at m i of None \<Rightarrow> None | Some c \<Rightarrow> map_option ((@) (print_x c)) (print_loop k (Suc i) m))"

definition PrintStrHex :: "u8 list \<Rightarrow> u8 list option" where
  "PrintStrHex data = print_loop 32 0 (data @ [0])"

section \<open>Digits\<close>

lemma nibbles: "unat (drop_bit 4 c) < 16" "unat (take_bit 4 c) < 16" for c :: u8
proof -
  have "unat c < 256" using unsigned_less [of c] by simp
  then have "unat c div 16 < 16" by (intro less_mult_imp_div_less) simp
  then show "unat (drop_bit 4 c) < 16" by (simp add: drop_bit_eq_div unat_div)
  show "unat (take_bit 4 c) < 16" by (simp add: take_bit_eq_mod unat_mod)
qed

lemma all_lt16: "(\<forall>k < 16. P k) \<longleftrightarrow> P 0 \<and> P 1 \<and> P 2 \<and> P 3 \<and> P 4 \<and> P 5 \<and> P 6 \<and> P 7 \<and> P 8 \<and> P 9 \<and>
    P 10 \<and> P 11 \<and> P 12 \<and> P 13 \<and> P 14 \<and> P (15 :: nat)"
  by (simp add: numeral_eq_Suc All_less_Suc) auto

lemma hexval_char: "\<forall>k < 16. hexval (hex_chars ! k) = Some (of_nat k) \<and> \<not> is_space (hex_chars ! k) \<and>
    hex_chars ! k \<notin> {0, 43, 45, 88, 120}"
  unfolding all_lt16 by (simp add: hex_chars_def hexval_def is_space_def)

lemma nibbles_join: "16 * of_nat (unat (drop_bit 4 c)) + of_nat (unat (take_bit 4 c)) = c" for c :: u8
proof -
  have "push_bit 4 (drop_bit 4 c) + take_bit 4 c = c" by (rule bits_ident)
  then show ?thesis by (simp add: push_bit_eq_mult mult.commute)
qed

lemma scan_printed:
  "scan_pair (hex_chars ! unat (drop_bit 4 c) # hex_chars ! unat (take_bit 4 c) # rest) = Some c" for c :: u8
proof -
  note h = hexval_char [rule_format, OF nibbles(1) [of c]] and l = hexval_char [rule_format, OF nibbles(2) [of c]]
  show ?thesis
    using h l nibbles_join [of c] by (simp add: scan_pair_def)
qed

definition pairs_of :: "u8 list \<Rightarrow> u8 list" where
  "pairs_of m = concat (map (\<lambda>c. [hex_chars ! unat (drop_bit 4 c), hex_chars ! unat (take_bit 4 c)]) m)"

lemma pairs_of_simps [simp]:
  "pairs_of [] = []"
  "pairs_of (c # m) = hex_chars ! unat (drop_bit 4 c) # hex_chars ! unat (take_bit 4 c) # pairs_of m"
  by (simp_all add: pairs_of_def)

lemma hex_char_nonzero: "k < 16 \<Longrightarrow> hex_chars ! k \<noteq> 0"
  using hexval_char by blast

lemma pairs_nonzero: "0 \<notin> set (pairs_of m)"
  by (induction m) (simp_all add: nibbles hex_char_nonzero [symmetric])

lemma convert_one_line:
  "i + length m = n \<Longrightarrow> n \<le> width \<Longrightarrow> convert_loop n width i m = pairs_of m @ [0]"
proof (induction m arbitrary: i)
  case (Cons c m)
  then have "i mod width = i" by (intro mod_less) simp
  then have "\<not> (i mod width = width - 1 \<and> i \<noteq> n - 1)" using Cons.prems by auto
  with Cons show ?case by simp
qed simp

lemma c_string_terminated:
  assumes "0 \<notin> set s" "i \<le> length s"
  shows "c_string (s @ [0]) i = Some (drop i s)"
proof -
  have "c \<noteq> 0" if "c \<in> set (drop i s)" for c using that assms(1) by (metis in_set_dropD)
  then show ?thesis using assms(2) by (simp add: c_string_def)
qed

lemma hex_loop_pairs:
  "0 \<notin> set pre \<Longrightarrow> length bin = i + length m \<Longrightarrow>
   hex_loop (pre @ pairs_of m @ [0]) (length pre) bin i = Some (take i bin @ m)"
proof (induction m arbitrary: pre bin i)
  case Nil
  then show ?case by (simp add: hex_loop.simps byte_at_def)
next
  case (Cons c m)
  let ?h = "hex_chars ! unat (drop_bit 4 c)" and ?l = "hex_chars ! unat (take_bit 4 c)"
  let ?s = "pre @ pairs_of (c # m)"
  have nz: "?h \<noteq> 0" "?l \<noteq> 0" "0 \<notin> set ?s" using Cons.prems(1) pairs_nonzero [of "c # m"] by auto
  have "c_string (?s @ [0]) (length pre) = Some (pairs_of (c # m))"
    using c_string_terminated [OF nz(3), of "length pre"] by simp
  then have "hex_loop (?s @ [0]) (length pre) bin i = hex_loop (?s @ [0]) (length pre + 2) (bin[i := c]) (Suc i)"
    using nz Cons.prems(2) by (simp add: hex_loop.simps [of _ "length pre"] byte_at_def nth_append scan_printed)
  moreover have "hex_loop ((pre @ [?h, ?l]) @ pairs_of m @ [0]) (length (pre @ [?h, ?l])) (bin[i := c]) (Suc i) =
      Some (take (Suc i) (bin[i := c]) @ m)"
    using nz Cons.prems by (intro Cons.IH) auto
  ultimately show ?case using Cons.prems(2) by (simp add: take_Suc_conv_app_nth)
qed

text \<open>Where the loop goes for any string.\<close>

lemma hex_loop_None:
  assumes "0 \<notin> set s" "ph = 2 * i" "ph \<le> length s + 1" "i \<le> length bin"
  shows "hex_loop (s @ [0]) ph bin i = None \<longleftrightarrow> odd (length s) \<and> (length s + 1) div 2 \<le> length bin"
  using assms
proof (induction "length s + 1 - ph" arbitrary: ph bin i rule: less_induct)
  case less
  consider "ph = length s + 1" | "ph = length s" | "ph < length s" "i < length bin" | "ph < length s" "i = length bin"
    using less.prems by linarith
  then show ?case
  proof cases
    case 1
    then have "hex_loop (s @ [0]) ph bin i = None" by (simp add: hex_loop.simps byte_at_def)
    moreover have "odd (length s)" "(length s + 1) div 2 = i" using 1 less.prems(2) by presburger+
    ultimately show ?thesis using less.prems by simp
  next
    case 2
    then have "hex_loop (s @ [0]) ph bin i = Some bin" by (simp add: hex_loop.simps byte_at_def)
    moreover have "even (length s)" using 2 less.prems(2) by presburger
    ultimately show ?thesis by simp
  next
    case 3
    have "s ! ph \<noteq> 0" using 3(1) less.prems(1) by (metis nth_mem)
    then have "hex_loop (s @ [0]) ph bin i = hex_loop (s @ [0]) (ph + 2)
        (case scan_pair (drop ph s) of Some v \<Rightarrow> bin[i := v] | None \<Rightarrow> bin) (Suc i)"
      using 3 c_string_terminated [OF less.prems(1), of ph]
      by (simp add: hex_loop.simps [of _ ph] byte_at_def nth_append)
    moreover have "hex_loop (s @ [0]) (ph + 2) b (Suc i) = None \<longleftrightarrow> odd (length s) \<and> (length s + 1) div 2 \<le> length b"
      if "length b = length bin" for b
      using less.hyps [of "ph + 2" "Suc i" b] less.prems 3 that by simp
    ultimately show ?thesis by (simp split: option.split)
  next
    case 4
    have "s ! ph \<noteq> 0" using 4(1) less.prems(1) by (metis nth_mem)
    then have "hex_loop (s @ [0]) ph bin i = Some bin"
      using 4 by (simp add: hex_loop.simps byte_at_def nth_append)
    moreover have "\<not> (length s + 1) div 2 \<le> i \<or> even (length s)" using 4 less.prems(2) by presburger
    ultimately show ?thesis unfolding 4(2) by (simp only: option.simps) blast
  qed
qed

section \<open>Properties\<close>

text \<open>C27: the text \<open>hex_convert_memory\<close> prints for a block of memory, without separators, is read
  back by \<open>hex_to_bin\<close> as the same bytes.\<close>

theorem hex_round_trip:
  assumes "length m \<le> width" "length bin = length m"
  shows "\<exists>text. hex_convert_memory m width = Some text \<and> hex_to_bin text bin = Some m"
  using assms convert_one_line [of 0 m "length m" width] hex_loop_pairs [of "[]" bin 0 m]
  by (cases m) (auto simp: hex_convert_memory_def hex_to_bin_def)

theorem hex_round_trip_witness:
  "\<exists>text. hex_convert_memory [1, 0xAB] 16 = Some text \<and> text = [48, 49, 97, 98, 0] \<and>
     hex_to_bin text [0, 0] = Some [1, 0xAB]"
proof -
  have "hex_convert_memory [1, 0xAB] 16 = Some [48, 49, 97, 98, 0]"
    by (simp add: hex_convert_memory_def hex_chars_def drop_bit_eq_div take_bit_eq_mod)
  then show ?thesis using hex_round_trip [of "[1, 0xAB]" 16 "[0, 0]"] by auto
qed

text \<open>C28: \<open>hex_to_bin\<close> stays inside its string exactly if the string has an even number of
  characters or the output ends before its last one; for an odd length and enough room it steps over the
  terminator and reads behind the string.\<close>

theorem hex_to_bin_bounds:
  assumes "0 \<notin> set s"
  shows "hex_to_bin (s @ [0]) bin = None \<longleftrightarrow> odd (length s) \<and> (length s + 1) div 2 \<le> length bin"
  using hex_loop_None [OF assms, of 0 0 bin] by (simp add: hex_to_bin_def)

theorem hex_to_bin_bounds_witness: "hex_to_bin [97, 98, 99, 0] [0, 0] = None"
  using hex_to_bin_bounds [of "[97, 98, 99]" "[0, 0]"] by simp

lemma table_spec: "\<forall>n < 256. p_util_hexdigit ! n =
    (if 48 \<le> n \<and> n \<le> 57 then int n - 48 else if 65 \<le> n \<and> n \<le> 70 then int n - 55
     else if 97 \<le> n \<and> n \<le> 102 then int n - 87 else - 1)"
proof -
  have "map (\<lambda>n. p_util_hexdigit ! n) [0..<256] = map (\<lambda>n. if 48 \<le> n \<and> n \<le> 57 then int n - 48
     else if 65 \<le> n \<and> n \<le> 70 then int n - 55 else if 97 \<le> n \<and> n \<le> 102 then int n - 87 else - 1) [0..<256]"
    by code_simp
  then show ?thesis by (simp add: list_eq_iff_nth_eq)
qed

text \<open>the table maps exactly the digits and the letters a to f of either case to their values, and
  every other byte to -1; in particular it inverts the characters \<open>hex_convert_memory\<close> prints.\<close>

theorem hex_digit_table:
  "HexDigit c = (case hexval c of Some v \<Rightarrow> uint v | None \<Rightarrow> - 1)"
proof -
  let ?n = "unat c"
  have n: "?n < 256" using unsigned_less [of c] by simp
  have i: "int ?n = uint c" by simp
  have le: "k \<le> c \<longleftrightarrow> unat k \<le> ?n" "c \<le> k \<longleftrightarrow> ?n \<le> unat k" for k by (simp_all add: word_le_nat_alt)
  have sub: "uint (c - k) = uint c - uint k" if "k \<le> c" for k using that by (simp add: uint_minus_simple_alt)
  show ?thesis
    using table_spec [rule_format, OF n] by (auto simp: HexDigit_def hexval_def le i sub)
qed

end
