(* ===== verification/EccTest.thy ===== *)
theory EccTest
  imports OpenEcc HexUtil
begin

text \<open>
  \<open>TestOpenEcc\<close> and \<open>main\<close> of learnopenssl/src/main.cpp, the test program of \<open>OpenEcc\<close>: its calls in
  order, with what it prints. It stops at the first undefined operation. \<open>main\<close> returns right after the
  test; the statements behind that return are not reached.
\<close>

section \<open>Statements\<close>

datatype test_error =
    Ecc ecc_error     \<comment> \<open>undefined behaviour inside \<open>OpenEcc\<close>\<close>
  | StringEnd         \<comment> \<open>\<open>PrintStrHex\<close> reads beyond a string\<close>

datatype test_line = Str string | Raw "u8 list" | KeySize nat

type_synonym ('k, 'g) test_state = "nat \<times> ('k, 'g) ecc \<times> test_line list"
type_synonym ('k, 'g) test_cont = "('k, 'g) test_state \<Rightarrow> test_error + test_line list"

text \<open>A call of a member function, with the line \<open>verifyMessage\<close> prints when it fails; a line of
  output; and \<open>PrintStrHex\<close>.\<close>

definition ecall :: "('k, 'b, 'p, 'g) openssl \<Rightarrow> ecc_call \<Rightarrow> (ecc_reply \<Rightarrow> ('k, 'g) test_cont) \<Rightarrow> ('k, 'g) test_cont" where
  "ecall L c next w =
     (case w of (n, e, out) \<Rightarrow>
        (case ecc_do L c n e of
           Inl x \<Rightarrow> Inl (Ecc x)
         | Inr (r, n', e') \<Rightarrow> next r (n', e', out @ (if r = Verdict False then [Str ''ECDSA_verify error ''] else []))))"

definition say :: "test_line \<Rightarrow> ('k, 'g) test_cont \<Rightarrow> ('k, 'g) test_cont" where
  "say l next w = (case w of (n, e, out) \<Rightarrow> next (n, e, out @ [l]))"

definition say_hex :: "u8 list \<Rightarrow> ('k, 'g) test_cont \<Rightarrow> ('k, 'g) test_cont" where
  "say_hex data next w = (case PrintStrHex data of None \<Rightarrow> Inl StringEnd | Some bs \<Rightarrow> say (Raw bs) next w)"

fun text_of_reply :: "ecc_reply \<Rightarrow> string" where
  "text_of_reply (Text s) = s"
| "text_of_reply r = []"

fun bytes_of_reply :: "ecc_reply \<Rightarrow> u8 list" where
  "bytes_of_reply (Bytes bs) = bs"
| "bytes_of_reply r = []"

definition str_bytes :: "string \<Rightarrow> u8 list" where
  "str_bytes s = map of_char s"

section \<open>TestOpenEcc\<close>

definition test_message :: "u8 list" where
  "test_message = str_bytes ''asdaescaeesafawwqgavcq2123bwjuert''"

definition test_message_error :: "u8 list" where
  "test_message_error = str_bytes ''adfafafwedaceq121322134321''"

definition from_key :: string where
  "from_key = ''0207408978889F432ECFB0409827FBA813128ED73B''"

definition other_pub_key :: string where
  "other_pub_key = ''030583A682FDCC91086F3BB90004EF8E864A2EEA1245''"

text \<open>From the import on. \<open>pk\<close> is the public key read before; \<open>stack\<close> is what \<open>calcECDHKey\<close> finds in its
  local array.\<close>

definition test_import :: "('k, 'b, 'p, 'g) openssl \<Rightarrow> u8 list \<Rightarrow> string \<Rightarrow> ('k, 'g) test_cont" where
  "test_import L stack pk =
     ecall L (Import from_key) (\<lambda>r0.
     ecall L (Sign test_message) (\<lambda>s1.
     say (Str ''signature: '') (say_hex (bytes_of_reply s1) (
     ecall L (Verify test_message (bytes_of_reply s1) pk) (\<lambda>v1.
     ecall L (Sign test_message) (\<lambda>s2.
     say (Str ''signature: '') (say_hex (bytes_of_reply s2) (
     say (Str ''diff verify'') (
     ecall L (Verify test_message (bytes_of_reply s2) pk) (\<lambda>v2.
     ecall L PubKey (\<lambda>pk1.
     say (Str ''pub key: '') (say (Str (text_of_reply pk1)) (
     ecall L Dump (\<lambda>priv.
     say (Str ''from priv key'') (say (Str (text_of_reply priv)) (
     ecall L (Shared stack other_pub_key) (\<lambda>k.
     say (KeySize (length (bytes_of_reply k))) (say_hex (bytes_of_reply k) (
     \<lambda>(n, e, out). Inr out)))))))))))))))))))"

definition TestOpenEcc :: "('k, 'b, 'p, 'g) openssl \<Rightarrow> u8 list \<Rightarrow> nat \<Rightarrow> test_error + test_line list" where
  "TestOpenEcc L stack n =
     ecall L (Init True) (\<lambda>r0.
     say (Str ''priv key: '') (
     ecall L Dump (\<lambda>priv.
     say (Str (text_of_reply priv)) (
     ecall L (Sign test_message) (\<lambda>s1.
     say (Str ''signature: '') (say_hex (bytes_of_reply s1) (
     ecall L (Sign test_message) (\<lambda>s2.
     say (Str ''signature: '') (say_hex (bytes_of_reply s2) (
     ecall L PubKey (\<lambda>pk.
     say (Str ''pub key: '') (say (Str (text_of_reply pk)) (
     ecall L (Verify test_message (bytes_of_reply s2) (text_of_reply pk)) (\<lambda>v1.
     ecall L (Verify test_message_error (bytes_of_reply s2) (text_of_reply pk)) (\<lambda>v2.
     say (Str ''verify '') (say (Str ''from key'') (say (Str from_key) (
     test_import L stack (text_of_reply pk))))))))))))))))))) (n, new_OpenEcc, [])"

definition ecc_main :: "('k, 'b, 'p, 'g) openssl \<Rightarrow> u8 list \<Rightarrow> nat \<Rightarrow> test_error + test_line list \<times> int" where
  "ecc_main L stack n = map_sum id (\<lambda>out. (out, 0)) (TestOpenEcc L stack n)"

section \<open>Running the test\<close>

lemma print_loop_enough:
  "i + k \<le> length m \<Longrightarrow> print_loop k i m = Some (concat (map print_x (take k (drop i m))) @ [10])"
proof (induction k arbitrary: i)
  case (Suc k)
  then have "drop i m = m ! i # drop (Suc i) m" by (simp add: Cons_nth_drop_Suc)
  with Suc show ?case by (simp add: byte_at_def)
qed simp

definition hex_line :: "u8 list \<Rightarrow> test_line" where
  "hex_line bs = Raw (concat (map print_x (take 32 (bs @ [0]))) @ [10])"

lemma say_hex_enough: "31 \<le> length bs \<Longrightarrow> say_hex bs next w = say (hex_line bs) next w"
  by (simp add: say_hex_def PrintStrHex_def print_loop_enough hex_line_def)

definition verdict_line :: "('k, 'b, 'p, 'g) openssl \<Rightarrow> 'k \<Rightarrow> u8 list \<Rightarrow> u8 list \<Rightarrow> test_line list" where
  "verdict_line L k m s = (if ECDSA_verify L k m s = 1 then [] else [Str ''ECDSA_verify error ''])"

abbreviation obj :: "('k, 'b, 'p, 'g) openssl \<Rightarrow> 'k \<Rightarrow> ('k, 'g) ecc" where
  "obj L k \<equiv> \<lparr>priv_key = Some k, group = Some (the_group L), curves = Some (builtin_curves L)\<rparr>"

text \<open>A call on an object with key \<open>k\<close>.\<close>

lemma ecall_init: "25 < length (builtin_curves L) \<Longrightarrow>
    ecall L (Init b) next (n, e, out) = next (Done NOERROR) (n + 1, obj L (fresh L n), out)"
  by (simp add: ecall_def init_outcome)

lemma ecall_import: "25 < length (builtin_curves L) \<Longrightarrow>
    ecall L (Import s) next (n, obj L k, out)
      = next (Done NOERROR) (n + 1, obj L (KEY_set_private L (fresh L n) (BN_hex2bn L s)), out)"
  using import_outcome [of L "obj L k" s n] by (simp add: ecall_def ready_def)

lemma ecall_dump: "KEY_private L k = Some x \<Longrightarrow> BN_bn2hex L x = Some s \<Longrightarrow>
    ecall L Dump next (n, obj L k, out) = next (Text s) (n, obj L k, out)"
  by (simp add: ecall_def dumpPrivKey_def privKeyToStr_def)

lemma ecall_sign: "ECDSA_sign L n k m = Some s \<Longrightarrow> length s \<le> ECDSA_size L k \<Longrightarrow>
    ecall L (Sign m) next (n, obj L k, out) = next (Bytes s) (n + 1, obj L k, out)"
  by (simp add: ecall_def signMessage_def)

lemma ecall_verify:
  "ecall L (Verify m s p) next (n, obj L k, out)
     = next (Verdict (ECDSA_verify L k m s = 1)) (n, obj L k, out @ verdict_line L k m s)"
  by (simp add: ecall_def verifyMessage_def verdict_line_def)

lemma ecall_pubkey: "the_group L = Some g \<Longrightarrow> KEY_public L k = Some p \<Longrightarrow> POINT_point2hex L g p = Some s \<Longrightarrow>
    ecall L PubKey next (n, obj L k, out) = next (Text s) (n, obj L k, out)"
  by (simp add: ecall_def getPubKey_def)

lemma ecall_shared: "the_group L = Some g \<Longrightarrow> ECDH_compute_key L 32 (POINT_hex2point L g p) k = x \<Longrightarrow>
    length x \<le> 32 \<Longrightarrow> length stack = 32 \<Longrightarrow>
    ecall L (Shared stack p) next (n, obj L k, out) = next (Bytes (x @ drop (length x) stack)) (n, obj L k, out)"
  by (simp add: ecall_def calcECDHKey_def strToPubKey_def)

lemmas ecall_steps = ecall_init ecall_import ecall_dump ecall_sign ecall_verify ecall_pubkey ecall_shared

lemma say_step: "say l next (n, e, out) = next (n, e, out @ [l])"
  by (simp add: say_def)

section \<open>Properties\<close>

text \<open>If the library's calls succeed, signatures have at least 31 bytes and a generated key
  accepts its own signatures, \<open>TestOpenEcc\<close> runs to its end and prints the trace below. The first
  verification is silent. After the import the exported private key is the imported one, but the public
  key is the one generated in the import, and the two last verifications check signatures of the
  imported private key against it.\<close>

theorem test_trace:
  assumes "25 < length (builtin_curves L)" and "the_group L = Some g" and "length stack = 32"
    and "\<forall>k x. KEY_private L (KEY_set_private L k x) = Some x \<and> KEY_public L (KEY_set_private L k x) = KEY_public L k"
    and "\<forall>i. KEY_private L (fresh L i) = Some (d i) \<and> KEY_public L (fresh L i) = Some (q i)"
    and "\<forall>x. BN_bn2hex L x = Some (h x)" and "\<forall>p. POINT_point2hex L g p = Some (ph p)"
    and "\<forall>r. \<forall>k \<in> {fresh L n, k1}. ECDSA_sign L r k test_message = Some (sg r k) \<and>
          31 \<le> length (sg r k) \<and> length (sg r k) \<le> ECDSA_size L k"
    and "\<forall>i r m s. ECDSA_sign L r (fresh L i) m = Some s \<longrightarrow> ECDSA_verify L (fresh L i) m s = 1"
    and "length (ECDH_compute_key L 32 (POINT_hex2point L g other_pub_key) k1) \<le> 32"
    and "k1 = KEY_set_private L (fresh L (n + 3)) (BN_hex2bn L from_key)"
  shows "TestOpenEcc L stack n = Inr (
      [Str ''priv key: '', Str (h (d n)),
       Str ''signature: '', hex_line (sg (n + 1) (fresh L n)),
       Str ''signature: '', hex_line (sg (n + 2) (fresh L n)),
       Str ''pub key: '', Str (ph (q n))] @
      verdict_line L (fresh L n) test_message_error (sg (n + 2) (fresh L n)) @
      [Str ''verify '', Str ''from key'', Str from_key,
       Str ''signature: '', hex_line (sg (n + 4) k1)] @
      verdict_line L k1 test_message (sg (n + 4) k1) @
      [Str ''signature: '', hex_line (sg (n + 5) k1), Str ''diff verify''] @
      verdict_line L k1 test_message (sg (n + 5) k1) @
      [Str ''pub key: '', Str (ph (q (n + 3))), Str ''from priv key'', Str (h (BN_hex2bn L from_key)), KeySize 32,
       hex_line (let x = ECDH_compute_key L 32 (POINT_hex2point L g other_pub_key) k1 in x @ drop (length x) stack)])"
proof -
  let ?k = "fresh L n"
  let ?x = "ECDH_compute_key L 32 (POINT_hex2point L g other_pub_key) k1"
  have keys: "KEY_private L ?k = Some (d n)" "KEY_public L ?k = Some (q n)"
    "KEY_private L k1 = Some (BN_hex2bn L from_key)" "KEY_public L k1 = Some (q (n + 3))"
    using assms(4,5,11) by simp_all
  have hex: "BN_bn2hex L x = Some (h x)" "POINT_point2hex L g p = Some (ph p)" for x p using assms(6,7) by simp_all
  have sg: "ECDSA_sign L r ?k test_message = Some (sg r ?k)" "31 \<le> length (sg r ?k)" "length (sg r ?k) \<le> ECDSA_size L ?k"
    "ECDSA_sign L r k1 test_message = Some (sg r k1)" "31 \<le> length (sg r k1)" "length (sg r k1) \<le> ECDSA_size L k1"
    for r using assms(8) by simp_all
  have v: "verdict_line L ?k test_message (sg r ?k) = []" for r
    using assms(9) sg(1) by (simp add: verdict_line_def)
  note steps = ecall_init [OF assms(1)] ecall_dump [OF keys(1) hex(1)] ecall_dump [OF keys(3) hex(1)]
    ecall_sign [OF sg(1,3)] ecall_sign [OF sg(4,6)] ecall_verify ecall_pubkey [OF assms(2) keys(2) hex(2)]
    ecall_pubkey [OF assms(2) keys(4) hex(2)] ecall_shared [OF assms(2) refl assms(10,3)] say_step
    say_hex_enough [OF sg(2)] say_hex_enough [OF sg(5)]
  have import_step: "ecall L (Import from_key) next (n + 3, obj L ?k, out) = next (Done NOERROR) (n + 4, obj L k1, out)"
    for "next" out using ecall_import [OF assms(1)] assms(11) by (simp add: add.commute)
  have size: "length (?x @ drop (length ?x) stack) = 32" using assms(3,10) by simp
  then have hex_end: "say_hex (?x @ drop (length ?x) stack) next w = say (hex_line (?x @ drop (length ?x) stack)) next w"
    for "next" w by (simp add: say_hex_enough)
  have imported: "test_import L stack pk (n + 3, obj L ?k, out) = Inr (out @
      [Str ''signature: '', hex_line (sg (n + 4) k1)] @
      verdict_line L k1 test_message (sg (n + 4) k1) @
      [Str ''signature: '', hex_line (sg (n + 5) k1), Str ''diff verify''] @
      verdict_line L k1 test_message (sg (n + 5) k1) @
      [Str ''pub key: '', Str (ph (q (n + 3))), Str ''from priv key'', Str (h (BN_hex2bn L from_key)), KeySize 32,
       hex_line (?x @ drop (length ?x) stack)])" for pk out
    unfolding test_import_def import_step steps bytes_of_reply.simps text_of_reply.simps size hex_end
    by (simp add: add.commute)
  have n3: "n + 1 + 1 + 1 = n + 3" by simp
  show ?thesis
    unfolding TestOpenEcc_def new_OpenEcc_def steps bytes_of_reply.simps text_of_reply.simps v n3 imported
    by (simp add: Let_def)
qed

theorem test_trace_witness:
  "TestOpenEcc tiny (replicate 32 0) 0 = Inr (
      [Str ''priv key: '', Str ''AA'',
       Str ''signature: '', hex_line (2 # test_message),
       Str ''signature: '', hex_line (2 # test_message),
       Str ''pub key: '', Str ''AA'', Str ''ECDSA_verify error '', Str ''verify '', Str ''from key'', Str from_key,
       Str ''signature: '', hex_line (42 # test_message), Str ''ECDSA_verify error '',
       Str ''signature: '', hex_line (42 # test_message), Str ''diff verify'', Str ''ECDSA_verify error '',
       Str ''pub key: '', Str ''AAAAA'', Str ''from priv key'', Str (replicate 42 (CHR ''A'')), KeySize 32,
       hex_line (of_nat (44 * 42) # replicate 31 0)])"
proof -
  have lens: "length test_message = 33" "length from_key = 42" "length other_pub_key = 44"
    by (simp_all add: test_message_def str_bytes_def from_key_def other_pub_key_def)
  have ne: "test_message_error \<noteq> []" "2 # take 35 test_message_error \<noteq> 2 # test_message"
    by (simp_all add: test_message_error_def test_message_def str_bytes_def)
  have units: "replicate 2 c = [c, c]" "replicate 5 c = [c, c, c, c, c]" for c :: char
    by (simp_all add: numeral_eq_Suc)
  note trace = test_trace [where L = tiny and g = "()" and stack = "replicate 32 0" and d = "\<lambda>i. i + 2"
      and q = "\<lambda>i. i + 2" and h = "\<lambda>b. replicate b (CHR ''A'')" and ph = "\<lambda>b. replicate b (CHR ''A'')"
      and sg = "\<lambda>r k. of_nat (the (fst k)) # take 35 test_message" and ?k1.0 = "(Some 42, Some 5)" and n = 0]
  show ?thesis
    by (rule trans [OF trace]) (use lens ne in \<open>auto simp: tiny_def verdict_line_def units\<close>)
qed

end
