(* ===== verification/EcdhDemo.thy ===== *)
theory EcdhDemo
  imports OpenEcc HexUtil
begin

text \<open>
  The key exchange in learnopenssl/src/main.cpp: the helpers \<open>PrivKeyToStr\<close>, \<open>StrToPrivKey\<close>, \<open>PubKeyToStr\<close> and
  \<open>StrToPubKey\<close>, and the statements of \<open>main\<close> behind its first return. They are not executed as the file
  stands; the model is of what they would do. Here the results of the calls are checked, so the library
  record is extended by whether each call succeeds.
\<close>

section \<open>The library\<close>

record ('k, 'b, 'p, 'g) openssl_checked = "('k, 'b, 'p, 'g) openssl" +
  KEY_new_ok :: "nat \<Rightarrow> bool"                \<comment> \<open>the first and the second \<open>EC_KEY_new\<close>\<close>
  KEY_set_group_ok :: "'k \<Rightarrow> 'g \<Rightarrow> bool"
  KEY_generate_ok :: "nat \<Rightarrow> 'k \<Rightarrow> bool"
  KEY_check_ok :: "'k \<Rightarrow> bool"
  ECDH_ok :: "'p \<Rightarrow> 'k \<Rightarrow> bool"
  AES_set_ok :: "u8 list \<Rightarrow> nat \<Rightarrow> bool"

datatype demo_line =
    Message string
  | Nid nat
  | KeyText string
  | SigSize nat
  | ShareLen nat nat
  | ShareBytes "u8 list"
  | AesFailed nat

datatype demo_end =
    Exit int "demo_line list"
  | Stuck ecc_error
  | Compare "demo_line list"   \<comment> \<open>\<open>memcmp\<close> beyond both arrays\<close>

section \<open>The helpers\<close>

text \<open>\<open>None\<close> is a null pointer, read or printed. \<open>PubKeyToStr\<close> has the curve of its group in its text.\<close>

definition PrivKeyToStr :: "('k, 'b, 'p, 'g, 'z) openssl_scheme \<Rightarrow> 'k \<Rightarrow> (string \<times> demo_line list) option" where
  "PrivKeyToStr L k =
     Option.bind (KEY_private L k) (\<lambda>key_bn.
     map_option (\<lambda>data. (data, [KeyText data])) (BN_bn2hex L key_bn))"

definition StrToPrivKey :: "('k, 'b, 'p, 'g, 'z) openssl_scheme \<Rightarrow> string \<Rightarrow> 'k \<Rightarrow> 'k" where
  "StrToPrivKey L data k = KEY_set_private L k (BN_hex2bn L data)"

definition PubKeyToStr1 ::
  "('k, 'b, 'p, 'g, 'z) openssl_scheme \<Rightarrow> 'p \<Rightarrow> 'g \<Rightarrow> (string \<times> demo_line list) option" where
  "PubKeyToStr1 L pubkey grp = map_option (\<lambda>data. (data, [KeyText data])) (POINT_point2hex L grp pubkey)"

definition PubKeyToStr :: "('k, 'b, 'p, 'g, 'z) openssl_scheme \<Rightarrow> 'p \<Rightarrow> (string \<times> demo_line list) option" where
  "PubKeyToStr L pubkey =
     Option.bind (GROUP_new L 722) (\<lambda>grp.
     map_option (\<lambda>data. (data, [KeyText data])) (POINT_point2hex L grp pubkey))"

text \<open>\<open>pubkey\<close> is the function's own copy of the pointer; what it is set to is lost when it returns.\<close>

definition StrToPubKey :: "('k, 'b, 'p, 'g, 'z) openssl_scheme \<Rightarrow> string \<Rightarrow> demo_line list option" where
  "StrToPubKey L data =
     Option.bind (GROUP_new L 722) (\<lambda>grp.
     let pubkey = POINT_hex2point L grp data
     in map_option (\<lambda>r. [Message '' strtopubkey '', KeyText data] @ snd r) (PubKeyToStr L pubkey))"

section \<open>The exchange\<close>

text \<open>\<open>ECDH_compute_key\<close> into an array of 32 zeros: the result and the array.\<close>

definition share_key :: "('k, 'b, 'p, 'g) openssl_checked \<Rightarrow> 'p \<Rightarrow> 'k \<Rightarrow> int \<times> u8 list" where
  "share_key L p k =
     (if ECDH_ok L p k then
        let secret = ECDH_compute_key L 32 p k
        in (int (length secret), take 32 (secret @ drop (length secret) (replicate 32 0)))
      else (- 1, replicate 32 0))"

definition demo_digest :: "u8 list" where
  "demo_digest = map (\<lambda>i. of_nat (i + 1)) [0..<20]"

text \<open>From the signature on; \<open>out\<close> is what has been printed.\<close>

definition demo_exchange ::
  "('k, 'b, 'p, 'g) openssl_checked \<Rightarrow> 'k \<Rightarrow> 'k \<Rightarrow> demo_line list \<Rightarrow> demo_end" where
  "demo_exchange L key1 key2 out =
     (case (KEY_public L key2, KEY_public L key1) of
        (Some pubkey2, Some pubkey1) \<Rightarrow>
          let (len1, shareKey1) = share_key L pubkey2 key1
          in case PubKeyToStr L pubkey1 of
               None \<Rightarrow> Stuck NullPointer
             | Some (pub_data, o1) \<Rightarrow>
                 (case StrToPubKey L pub_data of
                    None \<Rightarrow> Stuck NullPointer
                  | Some o2 \<Rightarrow>
                      let (len2, shareKey2) = share_key L pubkey1 key2;
                          out1 = out @ o1 @ o2;
                          aes = (if AES_set_ok L shareKey1 256 then [] else [AesFailed 256])
                      in if len1 \<noteq> len2 then Exit 0 (out1 @ [Message ''error '', Message ''test ok! ''] @ aes)
                         else
                           let out2 = out1 @ [ShareLen 1 32, ShareLen 2 32, ShareBytes shareKey1, ShareBytes shareKey2]
                           in if len1 < 0 \<or> len1 > 32 then Compare out2
                              else Exit 0 (out2 @
                                [Message (if take (nat len1) shareKey1 = take (nat len1) shareKey2
                                   then ''create success! '' else ''create failed! ''), Message ''test ok! ''] @ aes))
      | _ \<Rightarrow> Stuck NullPointer)"

definition demo :: "('k, 'b, 'p, 'g) openssl_checked \<Rightarrow> nat \<Rightarrow> demo_end" where
  "demo L n =
     (let cs = builtin_curves L; nid = cs ! 25
      in if \<not> KEY_new_ok L 0 then Exit (- 1) [Message ''EC_KEY_new error! '']
         else if \<not> KEY_new_ok L 1 then Exit (- 1) [Message ''EC_KEY_new error! '']
         else if length cs \<le> 25 then Stuck CurveIndex
         else case GROUP_new L nid of
             None \<Rightarrow> Exit (- 1) [Nid nid, Message ''EC_GROUP_new_by_curve_name error! '']
           | Some g \<Rightarrow>
               let key = KEY_new L; k = KEY_set_group L key (Some g); key1 = KEY_generate L n k; key2 = KEY_generate L (n + 1) k
               in if \<not> KEY_set_group_ok L key g then Exit (- 1) [Nid nid, Message ''EC_KEY_set_group error,. '']
                  else if \<not> KEY_generate_ok L n k then Exit (- 1) [Nid nid, Message ''EC_KEY_generate_key error. '']
                  else case PrivKeyToStr L key1 of
                      None \<Rightarrow> Stuck NullPointer
                    | Some (data1, o1) \<Rightarrow>
                        let out = Nid nid # o1
                        in if \<not> KEY_generate_ok L (n + 1) k then Exit (- 1) (out @ [Message ''EC_KEY_generate_key error. ''])
                           else if \<not> KEY_check_ok L key1 then Exit (- 1) (out @ [Message ''check key error.''])
                           else
                             let out1 = out @ [SigSize (ECDSA_size L key1)]
                             in case ECDSA_sign L (n + 2) key1 demo_digest of
                                  None \<Rightarrow> Exit (- 1) (out1 @ [Message ''sign error! ''])
                                | Some sig \<Rightarrow>
                                    if length sig > ECDSA_size L key1 then Stuck Overflow
                                    else if ECDSA_verify L key1 demo_digest sig \<noteq> 1 then
                                      Exit (- 1) (out1 @ [Message ''ECDSA_verify error ''])
                                    else demo_exchange L key1 key2 out1)"

section \<open>Lemmas\<close>

lemma share_key_length: "length (snd (share_key L p k)) = 32"
  by (auto simp: share_key_def Let_def)

text \<open>If the library computes the same secret on both sides, the exchange succeeds: unlike in \<open>calcECDHKey\<close>,
  the arrays are zero where it stores nothing.\<close>

lemma exchange_agrees:
  assumes "KEY_public L key1 = Some p1" and "KEY_public L key2 = Some p2"
    and "ECDH_ok L p2 key1" and "ECDH_ok L p1 key2"
    and "ECDH_compute_key L 32 p2 key1 = secret" and "ECDH_compute_key L 32 p1 key2 = secret"
    and "length secret \<le> 32" and "PubKeyToStr L p1 = Some (text, o1)" and "StrToPubKey L text = Some o2"
    and "AES_set_ok L (secret @ replicate (32 - length secret) 0) 256"
  shows "demo_exchange L key1 key2 out = Exit 0 (out @ o1 @ o2 @
    [ShareLen 1 32, ShareLen 2 32, ShareBytes (secret @ replicate (32 - length secret) 0),
     ShareBytes (secret @ replicate (32 - length secret) 0), Message ''create success! '', Message ''test ok! ''])"
proof -
  have "share_key L p2 key1 = (int (length secret), secret @ replicate (32 - length secret) 0)"
    "share_key L p1 key2 = (int (length secret), secret @ replicate (32 - length secret) 0)"
    using assms(3-7) by (simp_all add: share_key_def Let_def)
  then show ?thesis using assms by (simp add: demo_exchange_def Let_def)
qed

text \<open>If the library computes no secret on either side, both results are -1 and equal, and the comparison reads
  beyond both arrays.\<close>

lemma exchange_both_fail:
  assumes "KEY_public L key1 = Some p1" and "KEY_public L key2 = Some p2"
    and "\<not> ECDH_ok L p2 key1" and "\<not> ECDH_ok L p1 key2"
    and "PubKeyToStr L p1 = Some (text, o1)" and "StrToPubKey L text = Some o2"
  shows "\<exists>lines. demo_exchange L key1 key2 out = Compare lines"
  using assms by (simp add: demo_exchange_def share_key_def Let_def)

text \<open>Every exit before the exchange is -1, with the message of the first call that failed as the last line.\<close>

lemma demo_exits:
  assumes "demo L n = Exit r out"
  shows "r = 0 \<or> r = - 1 \<and> out \<noteq> [] \<and> (\<exists>m. last out = Message m)"
  using assms
  by (auto simp: demo_def demo_exchange_def Let_def split: if_splits option.splits prod.splits)

end
