(* ===== verification/DatumParser.thy ===== *)
theory DatumParser
  imports Prelude "HOL-Library.Char_ord"
begin

text \<open>
  \<open>RandomizedTransfer\<close> and \<open>PutDecodedDatumInto\<close> of learneth/src/main.cpp: the second decodes the
  fields of a test datum into a byte queue, the first moves bytes from the queue to the target in
  chunks of random size. The random generator and Crypto++'s \<open>HexDecoder\<close> are parameters; a byte
  queue is the list of its bytes, first in first out. The loops may run forever, so they are
  partial functions to \<open>option\<close>: \<open>None\<close> is a call that does not return.
\<close>

section \<open>Outcomes\<close>

datatype datum_error = OutOfRange | BufferOverflow | UndefinedCount

type_synonym 'a outcome = "datum_error + 'a"

text \<open>The generator: the \<open>n\<close>-th call of \<open>GenerateWord32\<close> with its two bounds.\<close>

type_synonym rng = "nat \<Rightarrow> nat \<Rightarrow> nat \<Rightarrow> nat"

definition in_range :: "rng \<Rightarrow> bool" where
  "in_range R \<longleftrightarrow> (\<forall>n lo hi. lo \<le> hi \<longrightarrow> lo \<le> R n lo hi \<and> R n lo hi \<le> hi)"

section \<open>RandomizedTransfer\<close>

text \<open>The state is the number of calls of the generator, the source and the target. \<open>Get\<close> stores at
  most \<open>len\<close> bytes from offset \<open>start\<close> of a buffer of 4160 bytes.\<close>

partial_function (option) RandomizedTransfer ::
  "rng \<Rightarrow> bool \<Rightarrow> nat \<Rightarrow> u8 list \<Rightarrow> u8 list \<Rightarrow> (nat \<times> u8 list \<times> u8 list) outcome option" where
  "RandomizedTransfer R finish n source target =
     (if length source > (if finish then 0 else 4096) then
        let start = R n 0 63;
            len = R (n + 1) 1 (min 4096 (3 * length source div 2));
            got = take len source
        in if start + length got > 4096 + 64 then Some (Inl BufferOverflow)
           else RandomizedTransfer R finish (n + 2) (drop len source) (target @ got)
      else Some (Inr (n, source, target)))"

section \<open>Strings\<close>

definition find_char :: "char \<Rightarrow> string \<Rightarrow> nat option" where
  "find_char c s = (if c \<in> set s then Some (length (takeWhile (\<lambda>d. d \<noteq> c) s)) else None)"

text \<open>\<open>substr\<close> from a position, with and without a count.\<close>

definition substr_from :: "nat \<Rightarrow> string \<Rightarrow> string outcome" where
  "substr_from p s = (if p \<le> length s then Inr (drop p s) else Inl OutOfRange)"

definition take_to :: "nat option \<Rightarrow> string \<Rightarrow> string" where
  "take_to n s = (case n of Some k \<Rightarrow> take k s | None \<Rightarrow> s)"

definition space :: "char \<Rightarrow> bool" where
  "space c \<longleftrightarrow> c = CHR '' '' \<or> c \<in> {CHR 0x09, CHR 0x0A, CHR 0x0B, CHR 0x0C, CHR 0x0D}"

definition digit :: "char \<Rightarrow> bool" where
  "digit c \<longleftrightarrow> 48 \<le> (of_char c :: nat) \<and> of_char c \<le> (57 :: nat)"

fun decimal :: "nat \<Rightarrow> string \<Rightarrow> nat" where
  "decimal acc [] = acc"
| "decimal acc (c # cs) = (if digit c then decimal (acc * 10 + (of_char c - 48)) cs else acc)"

text \<open>\<open>atoi\<close>: zero without digits. Beyond \<open>int\<close> it has no defined result.\<close>

definition atoi :: "string \<Rightarrow> int" where
  "atoi s =
     (case dropWhile space s of
        [] \<Rightarrow> 0
      | c # cs \<Rightarrow> if c = CHR ''-'' then - int (decimal 0 cs)
          else if c = CHR ''+'' then int (decimal 0 cs) else int (decimal 0 (c # cs)))"

definition xdigit :: "char \<Rightarrow> nat option" where
  "xdigit c =
     (let n = of_char c :: nat
      in if 48 \<le> n \<and> n \<le> 57 then Some (n - 48) else if 65 \<le> n \<and> n \<le> 70 then Some (n - 55)
         else if 97 \<le> n \<and> n \<le> 102 then Some (n - 87) else None)"

fun hex_value :: "nat \<Rightarrow> string \<Rightarrow> nat" where
  "hex_value acc [] = acc"
| "hex_value acc (c # cs) = (case xdigit c of Some d \<Rightarrow> hex_value (acc * 16 + d) cs | None \<Rightarrow> acc)"

text \<open>\<open>iss >> std::skipws >> std::hex >> value\<close> for an unsigned value of \<open>8 * w\<close> bits: the number and
  the rest of the stream, or a failure.\<close>

definition read_hex :: "nat \<Rightarrow> string \<Rightarrow> (nat \<times> string) option" where
  "read_hex w s =
     (let s1 = dropWhile space s;
          neg = take 1 s1 = ''-'';
          s2 = (if neg \<or> take 1 s1 = ''+'' then drop 1 s1 else s1);
          s3 = (if take 2 s2 = ''0x'' \<or> take 2 s2 = ''0X'' then drop 2 s2 else s2);
          ds = takeWhile (\<lambda>c. xdigit c \<noteq> None) s3;
          v = hex_value 0 ds
      in if ds = [] \<or> v \<ge> 256 ^ w then None
         else Some (if neg \<and> v \<noteq> 0 then 256 ^ w - v else v, drop (length ds) s3))"

fun le_bytes :: "nat \<Rightarrow> nat \<Rightarrow> u8 list" where
  "le_bytes 0 v = []"
| "le_bytes (Suc w) v = of_nat v # le_bytes w (v div 256)"

lemma read_hex_shorter: "read_hex w s = Some (v, rest) \<Longrightarrow> length rest < length s"
proof -
  assume r: "read_hex w s = Some (v, rest)"
  define s1 where "s1 = dropWhile space s"
  define s2 where "s2 = (if take 1 s1 = ''-'' \<or> take 1 s1 = ''+'' then drop 1 s1 else s1)"
  define s3 where "s3 = (if take 2 s2 = ''0x'' \<or> take 2 s2 = ''0X'' then drop 2 s2 else s2)"
  define ds where "ds = takeWhile (\<lambda>c. xdigit c \<noteq> None) s3"
  have "ds \<noteq> []" "rest = drop (length ds) s3"
    using r by (auto simp: read_hex_def Let_def s1_def s2_def s3_def ds_def split: if_splits)
  moreover have "length ds \<le> length s3" unfolding ds_def by (rule length_takeWhile_le)
  moreover have "length s3 \<le> length s2" "length s2 \<le> length s1" "length s1 \<le> length s"
    by (auto simp: s3_def s2_def s1_def length_dropWhile_le)
  ultimately show ?thesis by (cases ds) auto
qed

function read_words :: "nat \<Rightarrow> string \<Rightarrow> u8 list" where
  "read_words w s = (case read_hex w s of None \<Rightarrow> [] | Some (v, rest) \<Rightarrow> le_bytes w v @ read_words w rest)"
  by pat_completeness auto
termination
  by (relation "measure (\<lambda>(w, s). length s)") (auto dest: read_hex_shorter)

declare read_words.simps [simp del]

section \<open>One field\<close>

text \<open>What a round of the loop does after the spaces are skipped: the words of the rest of the
  string, which end the loop, or a field with its repeat count and the rest.\<close>

datatype field = Words "u8 list" | Field int "u8 list" string

definition repeat_count :: "string \<Rightarrow> int \<times> string" where
  "repeat_count s1 =
     (if take 1 s1 = ''r'' then
        let t = drop 1 s1
        in (atoi t, case find_char (CHR '' '') t of Some n \<Rightarrow> drop (n + 1) t | None \<Rightarrow> t)
      else (1, s1))"

definition read_field :: "(string \<Rightarrow> u8 list) \<Rightarrow> string \<Rightarrow> field outcome" where
  "read_field HexDecode s0 =
     (let (repeat, s1) = repeat_count s0
      in if length s1 \<ge> 6 \<and> (take 6 s1 = ''word32'' \<or> take 6 s1 = ''word64'') then
           Inr (Words (read_words (if take 6 s1 = ''word64'' then 8 else 4) (drop 6 s1)))
         else if take 1 s1 = [CHR 0x22] then
           let s2 = take_to (find_char (CHR 0x22) (drop 1 s1)) (drop 1 s1)
           in (case substr_from (length s2 + 2) s1 of
                 Inl e \<Rightarrow> Inl e
               | Inr s \<Rightarrow> Inr (Field repeat (map of_char s2) s))
         else if take 2 s1 = ''0x'' then
           let n = find_char (CHR '' '') s1
           in Inr (Field repeat (HexDecode (take_to n (drop 2 s1))) (drop (case n of Some k \<Rightarrow> k | None \<Rightarrow> length s1) s1))
         else
           let n = find_char (CHR '' '') s1
           in Inr (Field repeat (HexDecode (take_to n s1)) (drop (case n of Some k \<Rightarrow> k | None \<Rightarrow> length s1) s1)))"

definition skip_spaces :: "string \<Rightarrow> string" where
  "skip_spaces s = (if list_all (\<lambda>c. c = CHR '' '') s then s else dropWhile (\<lambda>c. c = CHR '' '') s)"

text \<open>The pointer to the bytes of a string, null for the empty one, and \<open>q.Put\<close> of the first \<open>n\<close> bytes there: a
  null pointer only comes with \<open>n = 0\<close>.\<close>

definition ConstBytePtr :: "u8 list \<Rightarrow> u8 list option" where
  "ConstBytePtr str = (if str = [] then None else Some str)"

definition queue_put :: "u8 list option \<Rightarrow> nat \<Rightarrow> u8 list \<Rightarrow> u8 list" where
  "queue_put p n q = (case p of None \<Rightarrow> q | Some bs \<Rightarrow> q @ take n bs)"

lemma queue_put_string [simp]: "queue_put (ConstBytePtr s) (length s) q = q @ s"
  by (simp add: queue_put_def ConstBytePtr_def)

text \<open>\<open>while (repeat--)\<close>.\<close>

fun put_repeat :: "rng \<Rightarrow> nat \<Rightarrow> u8 list \<Rightarrow> nat \<Rightarrow> u8 list \<Rightarrow> u8 list \<Rightarrow> (nat \<times> u8 list \<times> u8 list) outcome option" where
  "put_repeat R 0 s2 n q target = Some (Inr (n, q, target))"
| "put_repeat R (Suc k) s2 n q target =
     (case RandomizedTransfer R False n (queue_put (ConstBytePtr s2) (length s2) q) target of
        None \<Rightarrow> None
      | Some (Inl e) \<Rightarrow> Some (Inl e)
      | Some (Inr (n', q', target')) \<Rightarrow> put_repeat R k s2 n' q' target')"

section \<open>PutDecodedDatumInto\<close>

definition finish_transfer :: "rng \<Rightarrow> nat \<Rightarrow> u8 list \<Rightarrow> u8 list \<Rightarrow> u8 list outcome option" where
  "finish_transfer R n q target =
     map_option (map_sum id (\<lambda>(n, q, target). target)) (RandomizedTransfer R True n q target)"

partial_function (option) put_loop ::
  "(string \<Rightarrow> u8 list) \<Rightarrow> rng \<Rightarrow> string \<Rightarrow> nat \<Rightarrow> u8 list \<Rightarrow> u8 list \<Rightarrow> u8 list outcome option" where
  "put_loop HexDecode R s1 n q target =
     (if s1 = [] then finish_transfer R n q target
      else let s = skip_spaces s1
        in if s = [] then finish_transfer R n q target
           else case read_field HexDecode s of
             Inl e \<Rightarrow> Some (Inl e)
           | Inr (Words ws) \<Rightarrow> finish_transfer R n (q @ ws) target
           | Inr (Field repeat s2 rest) \<Rightarrow>
               if repeat < 0 \<or> repeat \<ge> 2 ^ 31 then Some (Inl UndefinedCount)
               else Option.bind (put_repeat R (nat repeat) s2 n q target) (\<lambda>r.
                 case r of
                   Inl e \<Rightarrow> Some (Inl e)
                 | Inr (n', q', target') \<Rightarrow> put_loop HexDecode R rest n' q' target'))"

definition PutDecodedDatumInto :: "(string \<Rightarrow> u8 list) \<Rightarrow> rng \<Rightarrow> string \<Rightarrow> u8 list \<Rightarrow> u8 list outcome option" where
  "PutDecodedDatumInto HexDecode R s1 target = put_loop HexDecode R s1 0 [] target"


section \<open>The transfer\<close>

text \<open>A chunk is at least one byte long and fits the buffer at every offset.\<close>

lemma chunk_bounds:
  assumes "in_range R" and "source \<noteq> []"
  shows "1 \<le> R n 1 (min 4096 (3 * length source div 2))"
    and "R n 1 (min 4096 (3 * length source div 2)) \<le> 4096" and "R m 0 63 \<le> 63"
proof -
  have "1 \<le> min 4096 (3 * length source div 2)" using assms(2) by (cases source) auto
  then have "1 \<le> R n 1 (min 4096 (3 * length source div 2))
      \<and> R n 1 (min 4096 (3 * length source div 2)) \<le> min 4096 (3 * length source div 2)"
    using assms(1) unfolding in_range_def by blast
  then show "1 \<le> R n 1 (min 4096 (3 * length source div 2))"
    and "R n 1 (min 4096 (3 * length source div 2)) \<le> 4096" by simp_all
  show "R m 0 63 \<le> 63" using assms(1) unfolding in_range_def by blast
qed

lemma transfer_step:
  assumes "in_range R" and "length source > (if finish then 0 else 4096)"
  shows "\<exists>k. 1 \<le> k \<and> RandomizedTransfer R finish n source target
           = RandomizedTransfer R finish (n + 2) (drop k source) (target @ take k source)"
proof -
  have ne: "source \<noteq> []" using assms(2) by (auto split: if_splits)
  define k where "k = R (Suc n) (Suc 0) (min 4096 (3 * length source div 2))"
  have "1 \<le> k" "k \<le> 4096" "R n 0 63 \<le> 63"
    unfolding k_def
    using chunk_bounds(1,2) [OF assms(1) ne, of "Suc n"] chunk_bounds(3) [OF assms(1) ne] by simp_all
  moreover from this have "\<not> R n 0 63 + length (take k source) > 4096 + 64" by simp
  ultimately have "RandomizedTransfer R finish n source target
      = RandomizedTransfer R finish (n + 2) (drop k source) (target @ take k source)"
    using assms(2)
    by (simp add: RandomizedTransfer.simps [of R finish n source target] k_def [symmetric] Let_def)
  with \<open>1 \<le> k\<close> show ?thesis by blast
qed

lemma transfer_result:
  assumes R: "in_range R"
  shows "\<exists>n' k. RandomizedTransfer R finish n source target
             = Some (Inr (n', drop k source, target @ take k source))
           \<and> length source - k \<le> (if finish then 0 else 4096)"
proof (induction "length source" arbitrary: n source target rule: less_induct)
  case less
  show ?case
  proof (cases "length source > (if finish then 0 else 4096)")
    case True
    from transfer_step [OF R True, of n target] obtain k where k: "1 \<le> k"
      and eq: "RandomizedTransfer R finish n source target
        = RandomizedTransfer R finish (n + 2) (drop k source) (target @ take k source)" by blast
    have "length (drop k source) < length source" using True k by auto
    from less.hyps [OF this, of "n + 2" "target @ take k source"] obtain n' j
      where j: "RandomizedTransfer R finish (n + 2) (drop k source) (target @ take k source)
          = Some (Inr (n', drop j (drop k source), (target @ take k source) @ take j (drop k source)))"
        "length (drop k source) - j \<le> (if finish then 0 else 4096)" by blast
    have "drop j (drop k source) = drop (k + j) source"
      "(target @ take k source) @ take j (drop k source) = target @ take (k + j) source"
      by (simp add: add.commute, simp add: take_add)
    then have "RandomizedTransfer R finish n source target
        = Some (Inr (n', drop (k + j) source, target @ take (k + j) source))"
      using eq j(1) by simp
    moreover have "length source - (k + j) \<le> (if finish then 0 else 4096)" using j(2) by simp
    ultimately show ?thesis by blast
  next
    case False
    then have "RandomizedTransfer R finish n source target
        = Some (Inr (n, drop 0 source, target @ take 0 source))"
      by (simp add: RandomizedTransfer.simps [of R finish n source target])
    moreover have "length source - 0 \<le> (if finish then 0 else 4096)" using False by simp
    ultimately show ?thesis by blast
  qed
qed

lemma finish_all:
  assumes "in_range R"
  shows "finish_transfer R n q target = Some (Inr (target @ q))"
proof -
  from transfer_result [OF assms, of True n q target] obtain n' k
    where "RandomizedTransfer R True n q target = Some (Inr (n', drop k q, target @ take k q))" "length q - k \<le> 0"
    by auto
  then show ?thesis by (simp add: finish_transfer_def)
qed

lemma put_repeat_result:
  assumes R: "in_range R"
  shows "\<exists>n' q' target'. put_repeat R k s2 n q target = Some (Inr (n', q', target'))
           \<and> target' @ q' = target @ q @ concat (replicate k s2)"
proof (induction k arbitrary: n q target)
  case 0
  then show ?case by simp
next
  case (Suc k)
  from transfer_result [OF R, of False n "q @ s2" target] obtain n' j
    where t: "RandomizedTransfer R False n (q @ s2) target
        = Some (Inr (n', drop j (q @ s2), target @ take j (q @ s2)))" by blast
  from Suc.IH [of n' "drop j (q @ s2)" "target @ take j (q @ s2)"]
  obtain n'' q' target' where "put_repeat R k s2 n' (drop j (q @ s2)) (target @ take j (q @ s2)) = Some (Inr (n'', q', target'))"
    "target' @ q' = (target @ take j (q @ s2)) @ drop j (q @ s2) @ concat (replicate k s2)" by blast
  moreover have "(target @ take j (q @ s2)) @ drop j (q @ s2) @ concat (replicate k s2)
      = target @ q @ concat (replicate (Suc k) s2)"
    by (metis append.assoc append_take_drop_id concat.simps(2) replicate_Suc)
  ultimately show ?case using t by (simp only: put_repeat.simps queue_put_string option.case sum.case prod.case) metis
qed

section \<open>What a datum stands for\<close>

definition blank :: "string \<Rightarrow> bool" where
  "blank s \<longleftrightarrow> s \<noteq> [] \<and> list_all (\<lambda>c. c = CHR '' '') s"

lemma find_char_bound: "find_char c s = Some n \<Longrightarrow> n < length s \<and> s ! n = c"
proof -
  assume "find_char c s = Some n"
  then have "c \<in> set s" "n = length (takeWhile (\<lambda>d. d \<noteq> c) s)"
    by (simp_all add: find_char_def split: if_splits)
  then show ?thesis by (induction s arbitrary: n) auto
qed

lemma repeat_count_length: "length (snd (repeat_count s)) \<le> length s"
  by (auto simp: repeat_count_def Let_def split: option.splits)

lemma repeat_count_consumes: "take 1 s = ''r'' \<Longrightarrow> length (snd (repeat_count s)) < length s"
  by (cases s) (auto simp: repeat_count_def Let_def split: option.splits)

lemma skip_not_blank: "s \<noteq> [] \<Longrightarrow> \<not> blank s \<Longrightarrow> skip_spaces s \<noteq> [] \<and> hd (skip_spaces s) \<noteq> CHR '' ''
    \<and> length (skip_spaces s) \<le> length s"
  unfolding skip_spaces_def blank_def
  by (auto simp: list_all_iff dropWhile_eq_Nil_conv length_dropWhile_le intro: hd_dropWhile)
    (metis (mono_tags, lifting) dropWhile_eq_Nil_conv hd_dropWhile)

lemma field_shorter:
  assumes "read_field H s = Inr (Field repeat b rest)" and "s \<noteq> []" and "hd s \<noteq> CHR '' ''"
  shows "length rest < length s"
proof -
  obtain r s1 where rc: "repeat_count s = (r, s1)" by (cases "repeat_count s")
  have le: "length s1 \<le> length s" using repeat_count_length [of s] rc by simp
  have less: "length s1 < length s \<or> s1 = s"
    using repeat_count_consumes [of s] rc by (cases "take 1 s = ''r''") (auto simp: repeat_count_def)
  let ?cut = "case find_char (CHR '' '') s1 of Some k \<Rightarrow> k | None \<Rightarrow> length s1"
  have cut: "length (drop ?cut s1) < length s"
  proof (cases "length s1 < length s")
    case True
    then show ?thesis by (simp split: option.splits)
  next
    case False
    then have s1: "s1 = s" using less by simp
    have "0 < ?cut"
    proof (cases "find_char (CHR '' '') s1")
      case None
      then show ?thesis using assms(2) s1 by simp
    next
      case (Some k)
      from find_char_bound [OF Some] have "s1 ! k = CHR '' ''" by simp
      then have "k \<noteq> 0" using assms(2,3) s1 by (cases s; cases k) auto
      then show ?thesis using Some by simp
    qed
    then show ?thesis using assms(2) s1 by simp
  qed
  from assms(1) rc consider
      (quoted) m where "m + 2 \<le> length s1" "rest = drop (m + 2) s1"
    | (hex) "rest = drop ?cut s1"
    by (auto simp: read_field_def Let_def substr_from_def split: if_splits sum.splits)
  then show ?thesis
  proof cases
    case quoted
    then show ?thesis using le by auto
  next
    case hex
    then show ?thesis using cut by simp
  qed
qed

text \<open>
  The bytes of a datum, with no queue, no chunks and no random numbers. A rest of nothing but
  spaces is never consumed: there the bytes are not defined.
\<close>

function datum_bytes :: "(string \<Rightarrow> u8 list) \<Rightarrow> string \<Rightarrow> u8 list outcome option" where
  "datum_bytes H s =
     (if s = [] then Some (Inr [])
      else if blank s then None
      else case read_field H (skip_spaces s) of
          Inl e \<Rightarrow> Some (Inl e)
        | Inr (Words ws) \<Rightarrow> Some (Inr ws)
        | Inr (Field repeat b rest) \<Rightarrow>
            if repeat < 0 \<or> repeat \<ge> 2 ^ 31 then Some (Inl UndefinedCount)
            else map_option (map_sum id (\<lambda>bs. concat (replicate (nat repeat) b) @ bs)) (datum_bytes H rest))"
  by pat_completeness auto
termination
proof (relation "measure (\<lambda>(H, s). length s)")
  fix H s x c b rest
  assume "s \<noteq> []" "\<not> blank s" "read_field H (skip_spaces s) = Inr x" "x = Field c b rest"
  with skip_not_blank [of s] field_shorter [of H "skip_spaces s" c b rest]
  show "((H, rest), (H, s)) \<in> measure (\<lambda>(H, s). length s)" by simp
qed simp

declare datum_bytes.simps [simp del]

lemma datum_bytes_Nil [simp]: "datum_bytes H [] = Some (Inr [])"
  by (simp add: datum_bytes.simps [of H "[]"])

lemma blank_field: "blank s \<Longrightarrow> read_field H s = Inr (Field 1 (H []) s) \<and> skip_spaces s = s"
proof -
  assume "blank s"
  then obtain s' where s: "s = CHR '' '' # s'" and all: "skip_spaces s = s"
    by (cases s) (auto simp: blank_def skip_spaces_def)
  then have "find_char (CHR '' '') s = Some 0" by (simp add: find_char_def)
  then show ?thesis using s all by (simp add: read_field_def repeat_count_def take_to_def)
qed

lemma blank_stuck:
  assumes "put_loop H R s n q target = Some r"
  shows "in_range R \<longrightarrow> \<not> blank s"
proof (rule put_loop.raw_induct [where P = "\<lambda>H R s n q target r. in_range R \<longrightarrow> \<not> blank s", OF _ assms], intro impI notI)
  fix loop :: "(string \<Rightarrow> u8 list) \<Rightarrow> rng \<Rightarrow> string \<Rightarrow> nat \<Rightarrow> u8 list \<Rightarrow> u8 list \<Rightarrow> u8 list outcome option"
  fix H R s n q target r
  assume IH: "\<And>H R s n q target r. loop H R s n q target = Some r \<Longrightarrow> in_range R \<longrightarrow> \<not> blank s"
  assume run: "(if s = [] then finish_transfer R n q target
      else let s = skip_spaces s
        in if s = [] then finish_transfer R n q target
           else case read_field H s of
             Inl e \<Rightarrow> Some (Inl e)
           | Inr (Words ws) \<Rightarrow> finish_transfer R n (q @ ws) target
           | Inr (Field repeat s2 rest) \<Rightarrow>
               if repeat < 0 \<or> repeat \<ge> 2 ^ 31 then Some (Inl UndefinedCount)
               else Option.bind (put_repeat R (nat repeat) s2 n q target) (\<lambda>r.
                 case r of
                   Inl e \<Rightarrow> Some (Inl e)
                 | Inr (n', q', target') \<Rightarrow> loop H R rest n' q' target')) = Some r"
  assume R: "in_range R" and b: "blank s"
  then have "s \<noteq> []" by (simp add: blank_def)
  with run blank_field [OF b, of H] have
    "Option.bind (put_repeat R 1 (H []) n q target) (\<lambda>r. case r of Inl e \<Rightarrow> Some (Inl e)
       | Inr (n', q', target') \<Rightarrow> loop H R s n' q' target') = Some r"
    by simp
  moreover have "loop H R s n' q' target' = None" for n' q' target'
    using IH R b by (cases "loop H R s n' q' target'") auto
  moreover obtain n' q' target' where "put_repeat R 1 (H []) n q target = Some (Inr (n', q', target'))"
    using put_repeat_result [OF R] by blast
  ultimately show False by simp
qed

lemma put_loop_bytes:
  assumes R: "in_range R"
  shows "put_loop H R s n q target = map_option (map_sum id (\<lambda>bs. target @ q @ bs)) (datum_bytes H s)"
proof (induction "length s" arbitrary: s n q target rule: less_induct)
  case less
  consider "s = []" | "blank s" | "s \<noteq> []" "\<not> blank s" by blast
  then show ?case
  proof cases
    case 1
    then show ?thesis by (simp add: put_loop.simps datum_bytes.simps finish_all [OF R])
  next
    case 2
    then have "put_loop H R s n q target = None"
      using blank_stuck R by (cases "put_loop H R s n q target") auto
    moreover have "datum_bytes H s = None" using 2 by (simp add: datum_bytes.simps [of H s] blank_def)
    ultimately show ?thesis by simp
  next
    case 3
    let ?s = "skip_spaces s"
    have sk: "?s \<noteq> []" "hd ?s \<noteq> CHR '' ''" "length ?s \<le> length s" using skip_not_blank [OF 3] by auto
    show ?thesis
    proof (cases "\<exists>c b rest. read_field H ?s = Inr (Field c b rest) \<and> 0 \<le> c \<and> c < 2 ^ 31")
      case False
      then show ?thesis
        using 3 sk(1) by (simp add: put_loop.simps [of H R s n q target] datum_bytes.simps [of H s]
            finish_all [OF R] Let_def not_le split: sum.split field.split) fastforce
    next
      case True
      then obtain c b rest where f: "read_field H ?s = Inr (Field c b rest)" "0 \<le> c" "c < 2 ^ 31" by blast
      have "length rest < length s" using field_shorter [OF f(1) sk(1,2)] sk(3) by simp
      note IH = less.hyps [OF this]
      from put_repeat_result [OF R, of "nat c" b n q target] obtain n' q' target'
        where put: "put_repeat R (nat c) b n q target = Some (Inr (n', q', target'))"
          and "target' @ q' = target @ q @ concat (replicate (nat c) b)" by blast
      from this(2) have bytes: "target' @ q' @ bs = target @ q @ concat (replicate (nat c) b) @ bs" for bs
        by (metis append.assoc)
      have "put_loop H R s n q target
          = map_option (map_sum id (\<lambda>bs. target @ q @ concat (replicate (nat c) b) @ bs)) (datum_bytes H rest)"
        using 3 sk(1) f put IH [of n' q' target']
        by (simp add: put_loop.simps [of H R s n q target] Let_def bytes)
      moreover have "datum_bytes H s
          = map_option (map_sum id (\<lambda>bs. concat (replicate (nat c) b) @ bs)) (datum_bytes H rest)"
        using 3 sk(1) f by (simp add: datum_bytes.simps [of H s] Let_def)
      ultimately show ?thesis by (simp add: option.map_comp comp_def sum.map_comp id_def)
    qed
  qed
qed

section \<open>Where a datum ends\<close>

lemma repeat_count_drop: "\<exists>m. snd (repeat_count s) = drop m s"
proof (cases "take 1 s = ''r''")
  case True
  then show ?thesis
    by (auto simp: repeat_count_def Let_def split: option.splits)
next
  case False
  then show ?thesis by (auto simp: repeat_count_def intro: exI [of _ 0])
qed

lemma field_drop: "read_field H s = Inr (Field c b rest) \<Longrightarrow> \<exists>m. rest = drop m s"
proof -
  assume f: "read_field H s = Inr (Field c b rest)"
  obtain r s1 where rc: "repeat_count s = (r, s1)" by (cases "repeat_count s")
  from f rc have "\<exists>m. rest = drop m s1"
    by (auto simp: read_field_def Let_def substr_from_def split: if_splits sum.splits)
  moreover from repeat_count_drop [of s] rc obtain m where "s1 = drop m s" by auto
  ultimately show ?thesis by auto
qed

lemma skip_spaces_drop: "\<exists>m. skip_spaces s = drop m s"
  by (metis drop0 dropWhile_eq_drop skip_spaces_def)

lemma datum_bytes_returns: "s = [] \<or> last s \<noteq> CHR '' '' \<Longrightarrow> \<exists>r. datum_bytes H s = Some r"
proof (induction "length s" arbitrary: s rule: less_induct)
  case less
  show ?case
  proof (cases "s = []")
    case True
    then show ?thesis by simp
  next
    case False
    have nb: "\<not> blank s"
    proof
      assume "blank s"
      then have "last s = CHR '' ''" using last_in_set [OF False] by (simp add: blank_def list_all_iff)
      then show False using less.prems False by simp
    qed
    note sk = skip_not_blank [OF False nb]
    show ?thesis
    proof (cases "\<exists>c b rest. read_field H (skip_spaces s) = Inr (Field c b rest)")
      case False
      then show ?thesis using \<open>s \<noteq> []\<close> nb
        by (auto simp: datum_bytes.simps [of H s] split: sum.split field.split)
    next
      case True
      then obtain c b rest where f: "read_field H (skip_spaces s) = Inr (Field c b rest)" by blast
      from field_drop [OF f] skip_spaces_drop [of s] obtain m where m: "rest = drop m s" by auto
      have "rest = [] \<or> last rest \<noteq> CHR '' ''"
        using less.prems False m by (cases "m < length s") auto
      moreover have "length rest < length s" using field_shorter [OF f] sk by linarith
      ultimately obtain r where "datum_bytes H rest = Some r" using less.hyps by blast
      then show ?thesis using False nb f by (simp add: datum_bytes.simps [of H s])
    qed
  qed
qed

text \<open>A plain field: hexadecimal digits, read up to a space.\<close>

definition plain_word :: "string \<Rightarrow> bool" where
  "plain_word w \<longleftrightarrow> w \<noteq> [] \<and> CHR '' '' \<notin> set w \<and> hd w \<notin> {CHR ''r'', CHR 0x22, CHR ''w''}
     \<and> take 2 w \<noteq> ''0x''"

lemma plain_word_skip: "plain_word w \<Longrightarrow> skip_spaces (w @ t) = w @ t"
  by (cases w) (auto simp: plain_word_def skip_spaces_def)

lemma find_space_after: "CHR '' '' \<notin> set w \<Longrightarrow> find_char (CHR '' '') (w @ CHR '' '' # t) = Some (length w)"
proof -
  assume "CHR '' '' \<notin> set w"
  then have "takeWhile (\<lambda>d. d \<noteq> CHR '' '') (w @ CHR '' '' # t) = w" by (induction w) auto
  then show ?thesis by (simp add: find_char_def)
qed

lemma find_no_space: "CHR '' '' \<notin> set w \<Longrightarrow> find_char (CHR '' '') w = None"
  by (simp add: find_char_def)

lemma plain_word_field:
  assumes "plain_word w"
  shows "read_field H (w @ CHR '' '' # t) = Inr (Field 1 (H w) (CHR '' '' # t))"
    and "read_field H w = Inr (Field 1 (H w) [])"
proof -
  obtain c w' where w: "w = c # w'" "c \<notin> {CHR ''r'', CHR 0x22, CHR ''w''}"
    using assms by (cases w) (auto simp: plain_word_def)
  have nx: "take 2 w \<noteq> ''0x''" "CHR '' '' \<notin> set w" using assms by (auto simp: plain_word_def)
  have "take 2 (w @ CHR '' '' # t) \<noteq> ''0x''" using nx(1) w(1) by (cases w') auto
  then show "read_field H (w @ CHR '' '' # t) = Inr (Field 1 (H w) (CHR '' '' # t))"
    using w find_space_after [OF nx(2), of t]
    by (auto simp: read_field_def repeat_count_def take_to_def)
  show "read_field H w = Inr (Field 1 (H w) [])"
    using w nx(1) find_no_space [OF nx(2)] by (auto simp: read_field_def repeat_count_def take_to_def)
qed

definition spaced :: "string list \<Rightarrow> string" where
  "spaced ws = concat (map (\<lambda>w. CHR '' '' # w) ws)"

lemma spaced_simps [simp]: "spaced [] = []" "spaced (w # ws) = CHR '' '' # w @ spaced ws"
  by (simp_all add: spaced_def)

lemma plain_word_not_blank: "plain_word w \<Longrightarrow> \<not> blank (CHR '' '' # w @ t)"
  by (cases w) (auto simp: plain_word_def blank_def)

lemma plain_word_bytes:
  assumes "plain_word w" and "t = [] \<or> hd t = CHR '' ''"
  shows "datum_bytes H (CHR '' '' # w @ t) = map_option (map_sum id (\<lambda>bs. H w @ bs)) (datum_bytes H t)"
proof -
  have "skip_spaces (CHR '' '' # w @ t) = w @ t"
    using assms(1) by (cases w) (auto simp: plain_word_def skip_spaces_def)
  moreover have "read_field H (w @ t) = Inr (Field 1 (H w) t)"
    using plain_word_field(1) [OF assms(1), of H "tl t"] plain_word_field(2) [OF assms(1), of H] assms(2)
    by (cases t) auto
  ultimately show ?thesis
    using plain_word_not_blank [OF assms(1)] by (simp add: datum_bytes.simps [of H "CHR '' '' # w @ t"])
qed

lemma hd_spaced: "spaced ws @ replicate k (CHR '' '') = [] \<or> hd (spaced ws @ replicate k (CHR '' '')) = CHR '' ''"
  by (cases ws; cases k) auto

lemma spaced_bytes:
  "list_all plain_word ws \<Longrightarrow> datum_bytes H (spaced ws @ replicate k (CHR '' ''))
     = (if k = 0 then Some (Inr (concat (map H ws))) else None)"
proof (induction ws)
  case Nil
  then show ?case by (auto simp: datum_bytes.simps [of H "replicate k (CHR '' '')"] blank_def list_all_iff)
next
  case (Cons w ws)
  then show ?case
    using plain_word_bytes [of w "spaced ws @ replicate k (CHR '' '')" H] hd_spaced [of ws k] by simp
qed

section \<open>Properties\<close>

text \<open>With a generator that keeps its bounds, \<open>RandomizedTransfer\<close> returns
  and never writes past its buffer. The target followed by what is left in the source is what
  they held before, in the same order; a finishing call empties the source and another one
  leaves at most 4096 bytes in it.\<close>

theorem transfer_conserves:
  assumes "in_range R"
  shows "\<exists>n' source' target'. RandomizedTransfer R finish n source target = Some (Inr (n', source', target'))
    \<and> target' @ source' = target @ source \<and> take (length target) target' = target
    \<and> length source' \<le> (if finish then 0 else 4096)"
proof -
  from transfer_result [OF assms, of finish n source target] obtain n' k
    where k: "RandomizedTransfer R finish n source target = Some (Inr (n', drop k source, target @ take k source))"
      "length source - k \<le> (if finish then 0 else 4096)" by blast
  show ?thesis
  proof (intro exI conjI)
    show "RandomizedTransfer R finish n source target = Some (Inr (n', drop k source, target @ take k source))"
      by (rule k(1))
  qed (use k(2) in simp_all)
qed

lemma low_in_range: "in_range (\<lambda>n lo hi. lo)"
  by (simp add: in_range_def)

theorem transfer_conserves_witness:
  "\<exists>n' source' target'. RandomizedTransfer (\<lambda>n lo hi. lo) True 0 [1, 2, 3] [9] = Some (Inr (n', source', target'))
    \<and> target' @ source' = [9] @ [1, 2, 3] \<and> take (length [9 :: u8]) target' = [9]
    \<and> length source' \<le> (if True then 0 else 4096)"
  by (rule transfer_conserves [OF low_in_range])

text \<open>C25: What \<open>PutDecodedDatumInto\<close> appends to the target is the bytes of the datum,
  whatever the generator draws: the queue, the chunks and their sizes do not show. It throws
  exactly the errors of the fields, and it does not return exactly when the bytes are not
  defined.\<close>

theorem datum_decoded:
  assumes "in_range R"
  shows "PutDecodedDatumInto H R s target = map_option (map_sum id (\<lambda>bs. target @ bs)) (datum_bytes H s)"
  unfolding PutDecodedDatumInto_def by (simp add: put_loop_bytes [OF assms])

theorem datum_decoded_witness:
  "PutDecodedDatumInto (\<lambda>w. []) (\<lambda>n lo hi. lo) (CHR ''r'' # ''2 '' @ [CHR 0x22, CHR ''a'', CHR 0x22]) [7]
     = Some (Inr [7, 97, 97])
   \<and> PutDecodedDatumInto (\<lambda>w. []) (\<lambda>n lo hi. lo) [CHR 0x22, CHR ''a''] [7] = Some (Inl OutOfRange)
   \<and> PutDecodedDatumInto (\<lambda>w. []) (\<lambda>n lo hi. lo) ''r-1 ab'' [7] = Some (Inl UndefinedCount)"
  by (simp add: datum_decoded [OF low_in_range] datum_bytes.simps blank_def skip_spaces_def
      read_field_def repeat_count_def find_char_def take_to_def substr_from_def atoi_def space_def
      digit_def numeral_eq_Suc)

text \<open>C26: A datum that is empty or does not end in a space is decoded or rejected by
  \<open>PutDecodedDatumInto\<close>: the call returns.\<close>

theorem datum_returns:
  assumes "in_range R" and "s = [] \<or> last s \<noteq> CHR '' ''"
  shows "\<exists>r. PutDecodedDatumInto H R s target = Some r"
  using datum_bytes_returns [OF assms(2), of H]
  by (auto simp: PutDecodedDatumInto_def put_loop_bytes [OF assms(1)])

theorem datum_returns_witness:
  "\<exists>r. PutDecodedDatumInto (\<lambda>w. [1]) (\<lambda>n lo hi. lo) ''0xAB  CD'' [7] = Some r"
  by (rule datum_returns [OF low_in_range]) simp

text \<open>A datum of hexadecimal words, each after a space, is decoded word by
  word in their order. With a space at the end the call never returns: the loop skips spaces only
  if something else follows.\<close>

theorem trailing_space_hangs:
  assumes "in_range R" and "list_all plain_word ws"
  shows "PutDecodedDatumInto H R (spaced ws @ replicate k (CHR '' '')) target
    = (if k = 0 then Some (Inr (target @ concat (map H ws))) else None)"
  using spaced_bytes [OF assms(2), of H k]
  by (simp add: PutDecodedDatumInto_def put_loop_bytes [OF assms(1)])

theorem trailing_space_hangs_witness:
  "PutDecodedDatumInto (\<lambda>w. [of_nat (length w)]) (\<lambda>n lo hi. lo) '' ABCD EF'' [7] = Some (Inr [7, 4, 2])
   \<and> PutDecodedDatumInto (\<lambda>w. [of_nat (length w)]) (\<lambda>n lo hi. lo) '' ABCD '' [7] = None"
  using trailing_space_hangs [OF low_in_range, of "[''ABCD'', ''EF'']" "\<lambda>w. [of_nat (length w)]" 0 "[7]"]
    trailing_space_hangs [OF low_in_range, of "[''ABCD'']" "\<lambda>w. [of_nat (length w)]" 1 "[7]"]
  by (simp add: plain_word_def)

end
