(* ===== verification/KeccakCheck.thy ===== *)
theory KeccakCheck
  imports DatumParser HexUtil
begin

text \<open>
  \<open>main\<close> of learneth/src/main.cpp: it prints the Keccak digest of a function signature and then feeds a
  stored digest and the signature, both through \<open>PutDecodedDatumInto\<close>, to a verification filter. The hash
  function, the filter's verdict on the bytes it has received, the decoder and the random generator are
  parameters.
\<close>

section \<open>Printing the digest\<close>

text \<open>\<open>ss << std::setw(2) << std::setfill('0') << (int)data_hash[i]\<close> in hexadecimal, for thirty-two
  bytes. \<open>TruncatedFinal\<close> fills the array, or throws if the digest is shorter.\<close>

definition put_byte :: "u8 \<Rightarrow> u8 list" where
  "put_byte c = (let s = print_x c in replicate (2 - length s) 48 @ s)"

fun put_digest :: "nat \<Rightarrow> nat \<Rightarrow> u8 list \<Rightarrow> u8 list" where
  "put_digest 0 i h = []"
| "put_digest (Suc k) i h = put_byte (h ! i) @ put_digest k (Suc i) h"

datatype eth_line = Digest "u8 list" | VerifyError | VerifySuccess

datatype eth_error = Datum datum_error | ShortDigest

definition signature_text :: string where
  "signature_text = ''transfer(address,uint256)''"

definition stored_digest :: string where
  "stored_digest = ''a9059cbb2ab09eb219583f4a59a5d0623ade346d962bcd4e46b11da047c9049b''"

section \<open>main\<close>

text \<open>\<open>Keccak\<close> is the digest of its argument, \<open>verdict\<close> the result of the filter after \<open>MessageEnd\<close>. The
  two data go to the same target. The second call begins with a fresh run of the generator, as its
  numbers are arbitrary anyway.\<close>

definition eth_main ::
  "(u8 list \<Rightarrow> u8 list) \<Rightarrow> (u8 list \<Rightarrow> bool) \<Rightarrow> (string \<Rightarrow> u8 list) \<Rightarrow> rng \<Rightarrow> rng \<Rightarrow> (eth_error + eth_line list) option" where
  "eth_main Keccak verdict HexDecode R1 R2 =
     (let data_hash = Keccak (map of_char signature_text)
      in if length data_hash < 32 then Some (Inl ShortDigest)
         else
           let out = Digest (put_digest 32 0 (take 32 data_hash))
           in Option.bind (PutDecodedDatumInto HexDecode R1 stored_digest []) (\<lambda>r1.
              case r1 of
                Inl x \<Rightarrow> Some (Inl (Datum x))
              | Inr target1 \<Rightarrow>
                  Option.bind (PutDecodedDatumInto HexDecode R2 signature_text target1) (\<lambda>r2.
                  case r2 of
                    Inl x \<Rightarrow> Some (Inl (Datum x))
                  | Inr target2 \<Rightarrow>
                      Some (Inr [out, if verdict target2 = False then VerifyError else VerifySuccess]))))"

section \<open>Properties\<close>

lemma plain_bytes: "plain_word w \<Longrightarrow> datum_bytes H w = Some (Inr (H w))"
proof -
  assume w: "plain_word w"
  then have "\<not> blank w" "w \<noteq> []" "skip_spaces w = w"
    using plain_word_skip [OF w, of "[]"] by (cases w; auto simp: plain_word_def blank_def)+
  then show ?thesis by (simp add: datum_bytes.simps [of H w] plain_word_field(2) [OF w])
qed

lemma put_byte_two: "put_byte c = [hex_chars ! unat (drop_bit 4 c), hex_chars ! unat (take_bit 4 c)]"
proof (cases "c < 16")
  case True
  then have u: "unat c < 16" by (simp add: word_less_nat_alt)
  then have "unat (drop_bit 4 c) = 0" "unat (take_bit 4 c) = unat c"
    by (simp_all add: drop_bit_eq_div take_bit_eq_mod unat_div unat_mod)
  then show ?thesis using True by (simp add: put_byte_def print_x_def hex_chars_def)
next
  case False
  then show ?thesis by (simp add: put_byte_def print_x_def)
qed

lemma put_digest_pairs: "i + k \<le> length h \<Longrightarrow> put_digest k i h = pairs_of (take k (drop i h))"
proof (induction k arbitrary: i)
  case (Suc k)
  then have "drop i h = h ! i # drop (Suc i) h" by (simp add: Cons_nth_drop_Suc)
  with Suc show ?case by (simp add: put_byte_two)
qed simp

text \<open>C37: The program prints the digest of the signature with two digits a byte, the text that
  \<open>hex_convert_memory\<close> would store. But the verdict is not about the signature: passed without quotes it
  is taken for hexadecimal digits, so the filter checks the stored digest against the bytes the decoder
  makes of the text.\<close>

theorem digest_check:
  assumes "in_range R1" and "in_range R2" and "32 \<le> length (Keccak (map of_char signature_text))"
    and "\<forall>target. verdict target \<longleftrightarrow> take 32 target = take 32 (Keccak (drop 32 target))"
    and "length (HexDecode stored_digest) = 32"
  shows "\<exists>text. hex_convert_memory (take 32 (Keccak (map of_char signature_text))) 32 = Some (text @ [0]) \<and>
    eth_main Keccak verdict HexDecode R1 R2 = Some (Inr [Digest text,
      if HexDecode stored_digest = take 32 (Keccak (HexDecode signature_text)) then VerifySuccess else VerifyError])"
proof -
  let ?h = "take 32 (Keccak (map of_char signature_text))"
  have "plain_word stored_digest" "plain_word signature_text"
    by (simp_all add: plain_word_def stored_digest_def signature_text_def)
  note bytes = this [THEN plain_bytes, of HexDecode]
  have put: "PutDecodedDatumInto HexDecode R1 stored_digest [] = Some (Inr (HexDecode stored_digest))"
    "PutDecodedDatumInto HexDecode R2 signature_text target = Some (Inr (target @ HexDecode signature_text))" for target
    unfolding PutDecodedDatumInto_def put_loop_bytes [OF assms(1)] put_loop_bytes [OF assms(2)] bytes by simp_all
  have len: "length ?h = 32" using assms(3) by simp
  have "hex_convert_memory ?h 32 = Some (pairs_of ?h @ [0])"
    using convert_one_line [of 0 ?h 32 32] len by (simp add: hex_convert_memory_def)
  moreover have "put_digest 32 0 ?h = pairs_of ?h" using put_digest_pairs [of 0 32 ?h] len by simp
  ultimately show ?thesis
    using assms(3-5) by (simp add: eth_main_def Let_def put)
qed

theorem digest_check_witness:
  "\<exists>text. hex_convert_memory (take 32 (replicate 32 10)) 32 = Some (text @ [0]) \<and>
    eth_main (\<lambda>m. replicate 32 (of_nat (length m mod 15)))
      (\<lambda>t. take 32 t = take 32 (replicate 32 (of_nat (length (drop 32 t) mod 15)))) (\<lambda>s. replicate (length s div 2) 12)
      (\<lambda>n lo hi. lo) (\<lambda>n lo hi. lo) = Some (Inr [Digest text, VerifySuccess])"
proof -
  have half: "length stored_digest div 2 = 32" by (simp add: stored_digest_def)
  show ?thesis
    using digest_check [OF low_in_range low_in_range, of "\<lambda>m. replicate 32 (of_nat (length m mod 15))"
      "\<lambda>t. take 32 t = take 32 (replicate 32 (of_nat (length (drop 32 t) mod 15)))" "\<lambda>s. replicate (length s div 2) 12"]
    by (simp add: signature_text_def half)
qed

end
