(* ===== verification/HandlerLoop.thy ===== *)
theory HandlerLoop
  imports Prelude
begin

text \<open>
  What the loops over events of the Kafka programs and the blocks of a query share: the loop takes one
  event after another, a handler updates a state and adds to the output, and as long as the events are
  quiet, that is, neither end the loop nor fail, the loop goes on with the next. The lemmas are about any
  beginning of quiet events; the programs interpret the locale with their own loops.
\<close>

locale handler_loop =
  fixes loop :: "'r list \<Rightarrow> 's \<Rightarrow> 'o list \<Rightarrow> 'x"
    and step :: "'r \<Rightarrow> 's \<Rightarrow> 's \<times> 'o list"
    and quiet :: "'r \<Rightarrow> 's \<Rightarrow> bool"
  assumes quiet_round: "quiet r s \<Longrightarrow> loop (r # rs) s out = loop rs (fst (step r s)) (out @ snd (step r s))"
begin

fun run_quiet :: "'r list \<Rightarrow> 's \<Rightarrow> bool" where
  "run_quiet [] s = True"
| "run_quiet (r # rs) s = (quiet r s \<and> run_quiet rs (fst (step r s)))"

fun state_after :: "'r list \<Rightarrow> 's \<Rightarrow> 's" where
  "state_after [] s = s"
| "state_after (r # rs) s = state_after rs (fst (step r s))"

fun output_of :: "'r list \<Rightarrow> 's \<Rightarrow> 'o list" where
  "output_of [] s = []"
| "output_of (r # rs) s = snd (step r s) @ output_of rs (fst (step r s))"

lemma run_quiet_append: "run_quiet (rs @ rs') s \<longleftrightarrow> run_quiet rs s \<and> run_quiet rs' (state_after rs s)"
  by (induction rs arbitrary: s) auto

lemma quiet_prefix:
  "run_quiet rs s \<Longrightarrow> loop (rs @ rest) s out = loop rest (state_after rs s) (out @ output_of rs s)"
  by (induction rs arbitrary: s out) (simp_all add: quiet_round)

lemma quiet_all: "run_quiet rs s \<Longrightarrow> loop rs s out = loop [] (state_after rs s) (out @ output_of rs s)"
  using quiet_prefix [of rs s "[]"] by simp

end

end
