(* ===== verification/KafkaConsumer.thy ===== *)
theory KafkaConsumer
  imports HandlerLoop
begin

text \<open>
  \<open>CConsumer\<close> of producer_consumer_librdkafka/consumer_cpp: \<open>Init\<close>, the loop of \<open>Consume\<close> and the
  handler of one message. librdkafka is a parameter: the results of its calls for \<open>Init\<close>, and for
  \<open>Consume\<close> the messages it delivers, one per round of the loop. A pointer is an option value; its
  use when null is an error value.
\<close>

section \<open>The class\<close>

text \<open>A handle of the library is a number. The names of the fields lose their last underscore.\<close>

record cconsumer =
  brokers :: string
  topics :: string
  groupid :: string
  last_offset :: "64 word"
  kafka_consumer :: "nat option"
  topic :: "nat option"
  offset :: "64 word"
  partition :: "32 word"

text \<open>\<open>OFFSET_BEGINNING\<close> of the library is -2.\<close>

definition new_CConsumer :: cconsumer where
  "new_CConsumer = \<lparr>brokers = [], topics = [], groupid = [], last_offset = 0, kafka_consumer = None,
     topic = None, offset = - 2, partition = 0\<rparr>"

definition new_CConsumer_at :: "string \<Rightarrow> string \<Rightarrow> string \<Rightarrow> 64 word \<Rightarrow> cconsumer" where
  "new_CConsumer_at b t g off = \<lparr>brokers = b, topics = t, groupid = g, last_offset = 0,
     kafka_consumer = None, topic = None, offset = off, partition = 0\<rparr>"

datatype kafka_error =
    NullConsumer   \<comment> \<open>a member call through a null \<open>kafka_consumer_\<close>\<close>
  | NullPayload    \<comment> \<open>a null pointer written to a stream\<close>
  | ReadBeyond     \<comment> \<open>text read beyond the payload\<close>

section \<open>Init\<close>

text \<open>What the library answers. \<open>Topic_create\<close> is given the consumer it is called with.\<close>

record kafka_setup =
  conf_create :: bool
  conf_set :: "string \<Rightarrow> string \<Rightarrow> bool"
  Consumer_create :: "nat option"
  tconf_create :: bool
  tconf_set :: "string \<Rightarrow> string \<Rightarrow> bool"
  Topic_create :: "nat option \<Rightarrow> string \<Rightarrow> nat option"
  start_ok :: "nat option \<Rightarrow> 32 word \<Rightarrow> 64 word \<Rightarrow> bool"

datatype complaint =
    GlobalConf | BrokerList | GroupId | CreateConsumer | TopicConf | OffsetReset | CreateTopic | Start

definition complain :: "bool \<Rightarrow> complaint \<Rightarrow> complaint list" where
  "complain ok c = (if ok then [] else [c])"

text \<open>\<open>Init\<close> returns its result, what it wrote to the error stream and the object.\<close>

definition Init :: "kafka_setup \<Rightarrow> cconsumer \<Rightarrow> kafka_error + bool \<times> complaint list \<times> cconsumer" where
  "Init K c =
     (if \<not> conf_create K then Inr (False, [GlobalConf], c)
      else
        let log1 = complain (conf_set K ''bootstrap.servers'' (brokers c)) BrokerList;
            log2 = complain (conf_set K ''group.id'' (groupid c)) GroupId;
            c2 = c\<lparr>kafka_consumer := Consumer_create K\<rparr>;
            log3 = complain (kafka_consumer c2 \<noteq> None) CreateConsumer
        in if \<not> tconf_create K then Inr (False, log1 @ log2 @ log3 @ [TopicConf], c2)
           else
             let log4 = complain (tconf_set K ''auto.offset.reset'' ''smallest'') OffsetReset;
                 c3 = c2\<lparr>topic := Topic_create K (kafka_consumer c2) (topics c)\<rparr>;
                 log5 = complain (topic c3 \<noteq> None) CreateTopic
             in case kafka_consumer c3 of
                  None \<Rightarrow> Inl NullConsumer
                | Some h \<Rightarrow>
                    let log6 = complain (start_ok K (topic c3) (partition c3) (offset c3)) Start
                    in Inr (True, log1 @ log2 @ log3 @ log4 @ log5 @ log6, c3))"

section \<open>One message\<close>

datatype err_code =
    ERR_TIMED_OUT | ERR_NO_ERROR | ERR_PARTITION_EOF | ERR_UNKNOWN_TOPIC | ERR_UNKNOWN_PARTITION
  | ERR_other nat

text \<open>\<open>payload\<close> is the memory that may be read at the pointer; \<open>msg_len\<close> is the length the message
  states.\<close>

record message =
  err :: err_code
  msg_len :: "64 word"
  payload :: "u8 list option"
  msg_offset :: "64 word"

datatype line =
    Len int
  | Payload "u8 list"
  | QueueEnd "64 word"
  | Failed err_code

text \<open>\<open>static_cast<int>(message->len())\<close>, and \<open>operator<<\<close> for \<open>const char*\<close>, which prints up to the
  terminator. A null pointer is outside its contract in the standard, so it is an error value; libstdc++ sets
  \<open>badbit\<close> there, and the stream prints nothing more.\<close>

definition int_len :: "message \<Rightarrow> int" where
  "int_len m = sint (ucast (msg_len m) :: 32 word)"

definition put_text :: "u8 list option \<Rightarrow> kafka_error + u8 list" where
  "put_text p =
     (case p of
        None \<Rightarrow> Inl NullPayload
      | Some bs \<Rightarrow> if 0 \<in> set bs then Inr (takeWhile (\<lambda>b. b \<noteq> 0) bs) else Inl ReadBeyond)"

text \<open>\<open>consumer\<close>: the flag \<open>run_\<close>, the object and the output.\<close>

definition consumer :: "message \<Rightarrow> bool \<Rightarrow> cconsumer \<Rightarrow> kafka_error + bool \<times> cconsumer \<times> line list" where
  "consumer m run c =
     (case err m of
        ERR_TIMED_OUT \<Rightarrow> Inr (run, c, [])
      | ERR_NO_ERROR \<Rightarrow>
          map_sum id (\<lambda>text. (run, c\<lparr>last_offset := msg_offset m\<rparr>, [Len (int_len m), Payload text]))
            (put_text (payload m))
      | ERR_PARTITION_EOF \<Rightarrow>
          map_sum id (\<lambda>text. (run, c, [Len (int_len m), Payload text, QueueEnd (last_offset c)]))
            (put_text (payload m))
      | ERR_UNKNOWN_TOPIC \<Rightarrow> Inr (False, c, [Failed (err m)])
      | ERR_UNKNOWN_PARTITION \<Rightarrow> Inr (False, c, [Failed (err m)])
      | ERR_other n \<Rightarrow> Inr (False, c, [Failed (err m)]))"

section \<open>Consume\<close>

text \<open>\<open>sigterm\<close>, the handler of the signals.\<close>

definition sigterm :: "bool \<Rightarrow> bool" where
  "sigterm run = False"

text \<open>One round of the loop: the message, and whether a signal arrives before the flag is tested
  again. As the flag is only ever cleared, it does not matter when in the round.\<close>

type_synonym round = "message \<times> bool"

datatype consuming =
    Waiting bool cconsumer "line list"   \<comment> \<open>no message yet for the next round\<close>
  | Left bool cconsumer "line list"      \<comment> \<open>the loop has ended\<close>

fun consume_loop :: "round list \<Rightarrow> bool \<Rightarrow> cconsumer \<Rightarrow> line list \<Rightarrow> kafka_error + consuming" where
  "consume_loop rounds False c out = Inr (Left False c out)"
| "consume_loop [] True c out = (if kafka_consumer c = None then Inl NullConsumer else Inr (Waiting True c out))"
| "consume_loop ((m, signal) # rounds) True c out =
     (if kafka_consumer c = None then Inl NullConsumer
      else case consumer m True c of
          Inl x \<Rightarrow> Inl x
        | Inr (run, c', o') \<Rightarrow> consume_loop rounds (if signal then sigterm run else run) c' (out @ o'))"

text \<open>After the loop the topic and the consumer are stopped and deleted. The result is always true.\<close>

definition shut_down :: "cconsumer \<Rightarrow> kafka_error + cconsumer" where
  "shut_down c =
     (if kafka_consumer c = None then Inl NullConsumer
      else Inr (c\<lparr>topic := None, kafka_consumer := None\<rparr>))"

definition Consume :: "round list \<Rightarrow> bool \<Rightarrow> cconsumer \<Rightarrow> kafka_error + consuming" where
  "Consume rounds run c =
     (case consume_loop rounds run c [] of
        Inl x \<Rightarrow> Inl x
      | Inr (Waiting run' c' out) \<Rightarrow> Inr (Waiting run' c' out)
      | Inr (Left run' c' out) \<Rightarrow> map_sum id (\<lambda>c''. Left run' c'' out) (shut_down c'))"

section \<open>main\<close>

datatype main_state = InitFailed "complaint list" | Consumed "complaint list" consuming

text \<open>\<open>early\<close> says whether a signal arrives before the loop.\<close>

definition consumer_main :: "kafka_setup \<Rightarrow> bool \<Rightarrow> round list \<Rightarrow> kafka_error + main_state" where
  "consumer_main K early rounds =
     (case Init K (new_CConsumer_at ''192.168.0.18:9092'' ''test_2'' ''1'' 0) of
        Inl x \<Rightarrow> Inl x
      | Inr (ok, log, c) \<Rightarrow>
          if \<not> ok then Inr (InitFailed log) else map_sum id (Consumed log) (Consume rounds (if early then sigterm True else True) c))"

section \<open>What a run does\<close>

text \<open>A message ends the loop, or its text can be printed.\<close>

definition fatal :: "message \<Rightarrow> bool" where
  "fatal m \<longleftrightarrow> err m \<notin> {ERR_TIMED_OUT, ERR_NO_ERROR, ERR_PARTITION_EOF}"

definition readable :: "message \<Rightarrow> bool" where
  "readable m \<longleftrightarrow> err m \<in> {ERR_NO_ERROR, ERR_PARTITION_EOF} \<longrightarrow> (\<exists>bs. payload m = Some bs \<and> 0 \<in> set bs)"

definition stops :: "round \<Rightarrow> bool" where
  "stops r \<longleftrightarrow> fatal (fst r) \<or> snd r"

definition handled :: "round list \<Rightarrow> message list" where
  "handled rounds = map fst (takeWhile (\<lambda>r. \<not> stops r) rounds @ take 1 (dropWhile (\<lambda>r. \<not> stops r) rounds))"

lemma handled_simps [simp]:
  "handled [] = []"
  "handled (r # rounds) = fst r # (if stops r then [] else handled rounds)"
  by (simp_all add: handled_def)

definition text_of :: "message \<Rightarrow> u8 list" where
  "text_of m = (case payload m of Some bs \<Rightarrow> takeWhile (\<lambda>b. b \<noteq> 0) bs | None \<Rightarrow> [])"

text \<open>The offset a run remembers and the lines it prints.\<close>

definition final_offset :: "64 word \<Rightarrow> message list \<Rightarrow> 64 word" where
  "final_offset off ms = foldl (\<lambda>off m. if err m = ERR_NO_ERROR then msg_offset m else off) off ms"

lemma final_offset_simps [simp]:
  "final_offset off [] = off"
  "final_offset off (m # ms) = final_offset (if err m = ERR_NO_ERROR then msg_offset m else off) ms"
  by (simp_all add: final_offset_def)

fun transcript :: "64 word \<Rightarrow> message list \<Rightarrow> line list" where
  "transcript off [] = []"
| "transcript off (m # ms) =
     (case err m of
        ERR_TIMED_OUT \<Rightarrow> []
      | ERR_NO_ERROR \<Rightarrow> [Len (int_len m), Payload (text_of m)]
      | ERR_PARTITION_EOF \<Rightarrow> [Len (int_len m), Payload (text_of m), QueueEnd off]
      | e \<Rightarrow> [Failed e]) @ transcript (if err m = ERR_NO_ERROR then msg_offset m else off) ms"

lemma consumer_readable:
  assumes "readable m"
  shows "consumer m True c = Inr (\<not> fatal m,
    c\<lparr>last_offset := final_offset (last_offset c) [m]\<rparr>, transcript (last_offset c) [m])"
  using assms by (cases c; cases "err m")
    (auto simp: consumer_def readable_def fatal_def put_text_def text_of_def)

lemma consume_loop_round:
  assumes "kafka_consumer c \<noteq> None" and "readable (fst r)" and "\<not> stops r"
  shows "consume_loop (r # rounds) True c out = consume_loop rounds True
    (c\<lparr>last_offset := final_offset (last_offset c) [fst r]\<rparr>) (out @ transcript (last_offset c) [fst r])"
proof -
  obtain h where "kafka_consumer c = Some h" using assms(1) by blast
  moreover obtain m where "r = (m, False)" "\<not> fatal m" using assms(3) by (cases r) (auto simp: stops_def)
  ultimately show ?thesis using consumer_readable [of m c] assms(2) by simp
qed

text \<open>The loop is a handler loop: a round is quiet if it neither stops nor fails.\<close>

definition round_step :: "round \<Rightarrow> cconsumer \<Rightarrow> cconsumer \<times> line list" where
  "round_step r c = (c\<lparr>last_offset := final_offset (last_offset c) [fst r]\<rparr>, transcript (last_offset c) [fst r])"

definition round_quiet :: "round \<Rightarrow> cconsumer \<Rightarrow> bool" where
  "round_quiet r c \<longleftrightarrow> kafka_consumer c \<noteq> None \<and> readable (fst r) \<and> \<not> stops r"

interpretation consuming_loop: handler_loop "\<lambda>rounds c out. consume_loop rounds True c out" round_step round_quiet
  by unfold_locales (simp add: round_quiet_def round_step_def consume_loop_round del: transcript.simps)

lemma consuming_state:
  "consuming_loop.state_after rounds c = c\<lparr>last_offset := final_offset (last_offset c) (map fst rounds)\<rparr>"
  by (induction rounds arbitrary: c) (simp_all add: round_step_def)

lemma consuming_output: "consuming_loop.output_of rounds c = transcript (last_offset c) (map fst rounds)"
  by (induction rounds arbitrary: c) (simp_all add: round_step_def)

lemma consuming_quiet:
  "kafka_consumer c \<noteq> None \<Longrightarrow> \<forall>r \<in> set rounds. readable (fst r) \<and> \<not> stops r \<Longrightarrow> consuming_loop.run_quiet rounds c"
  by (induction rounds arbitrary: c) (simp_all add: round_quiet_def round_step_def)

lemmas consuming_prefix = consuming_loop.quiet_prefix [OF consuming_quiet, unfolded consuming_state consuming_output]

lemma transcript_append: "transcript off (ms @ ms') = transcript off ms @ transcript (final_offset off ms) ms'"
  by (induction ms arbitrary: off) simp_all

lemma final_offset_append: "final_offset off (ms @ ms') = final_offset (final_offset off ms) ms'"
  by (simp add: final_offset_def)

lemma handled_none: "\<forall>r \<in> set rounds. \<not> stops r \<Longrightarrow> handled rounds = map fst rounds"
  by (induction rounds) simp_all

lemma handled_first:
  "\<forall>r \<in> set before. \<not> stops r \<Longrightarrow> stops r \<Longrightarrow> handled (before @ r # after) = map fst before @ [fst r]"
  by (induction before) simp_all

lemma handled_split:
  "handled rounds = map fst rounds \<and> (\<forall>r \<in> set rounds. \<not> stops r) \<or>
   (\<exists>before r after. rounds = before @ r # after \<and> (\<forall>r \<in> set before. \<not> stops r) \<and> stops r \<and>
      handled rounds = map fst before @ [fst r])"
proof (cases "\<exists>r \<in> set rounds. stops r")
  case True
  from split_list_first_prop [OF this] obtain before r after
    where "rounds = before @ r # after" "stops r" "\<forall>r \<in> set before. \<not> stops r" by blast
  with handled_first [of before r after] show ?thesis by (intro disjI2 exI conjI) simp_all
next
  case False
  with handled_none [of rounds] show ?thesis by simp
qed

lemma consume_loop_run:
  assumes "kafka_consumer c \<noteq> None" and "\<forall>m \<in> set (handled rounds). readable m"
  shows "consume_loop rounds True c out =
    (let c' = c\<lparr>last_offset := final_offset (last_offset c) (handled rounds)\<rparr>;
         out' = out @ transcript (last_offset c) (handled rounds)
     in Inr (if \<exists>r \<in> set rounds. stops r then Left False c' out' else Waiting True c' out'))"
  using handled_split [of rounds]
proof (elim disjE exE conjE)
  assume h: "handled rounds = map fst rounds" "\<forall>r \<in> set rounds. \<not> stops r"
  then have "\<forall>r \<in> set rounds. readable (fst r) \<and> \<not> stops r" using assms(2) by simp
  from consuming_prefix [OF assms(1) this, of "[]" out] show ?thesis using h assms(1) by (auto simp: Let_def)
next
  fix before r after
  assume h: "rounds = before @ r # after" "\<forall>r \<in> set before. \<not> stops r" "stops r"
    "handled rounds = map fst before @ [fst r]"
  obtain m signal where r: "r = (m, signal)" by (cases r)
  have m: "readable m" and "\<forall>r \<in> set before. readable (fst r) \<and> \<not> stops r" using assms(2) h r by auto
  note pre = consuming_prefix [OF assms(1) this(2), of "r # after" out]
  show ?thesis
    unfolding h(1) pre
    using assms(1) consumer_readable [OF m] h r
    by (cases "fatal m") (auto simp: stops_def sigterm_def transcript_append final_offset_append simp del: transcript.simps)
qed

lemma loop_left: "consume_loop rounds run c out = Inr (Left run' c' out') \<Longrightarrow> \<not> run'"
proof (induction rounds arbitrary: run c out)
  case Nil
  then show ?case by (cases run) (auto split: if_splits)
next
  case (Cons r rounds)
  show ?case
  proof (cases run)
    case True
    obtain m signal where r: "r = (m, signal)" by (cases r)
    from Cons.prems True r obtain a d o' where "consumer m True c = Inr (a, d, o')"
      and "consume_loop rounds (if signal then sigterm a else a) d (out @ o') = Inr (Left run' c' out')"
      by (auto split: if_splits sum.splits)
    then show ?thesis using Cons.IH by blast
  qed (use Cons.prems in simp)
qed

section \<open>Properties\<close>

text \<open>C29: As long as the texts of the messages end inside their memory, \<open>Consume\<close>
  handles the messages in order up to the first that reports an error other than a time-out or the
  end of the partition, or up to the round a signal arrives in, and no further. It prints what the
  transcript says, remembers the offset of the last message without an error, and then stops and
  clears both pointers; without such a round it stays in the loop.\<close>

theorem consume_transcript:
  assumes "kafka_consumer c \<noteq> None" and "\<forall>m \<in> set (handled rounds). readable m"
  shows "Consume rounds True c =
    (let c' = c\<lparr>last_offset := final_offset (last_offset c) (handled rounds)\<rparr>;
         out = transcript (last_offset c) (handled rounds)
     in Inr (if \<exists>r \<in> set rounds. stops r then Left False (c'\<lparr>topic := None, kafka_consumer := None\<rparr>) out
             else Waiting True c' out))"
  using consume_loop_run [OF assms, of "[]"] assms(1)
  by (auto simp: Consume_def shut_down_def Let_def)

definition sample :: "err_code \<Rightarrow> 64 word \<Rightarrow> message" where
  "sample e off = \<lparr>err = e, msg_len = 2, payload = Some [104, 105, 0], msg_offset = off\<rparr>"

theorem consume_transcript_witness:
  "Consume [(sample ERR_TIMED_OUT 0, False), (sample ERR_NO_ERROR 7, False), (sample (ERR_other 3) 0, False),
      (sample ERR_NO_ERROR 9, False)] True (new_CConsumer\<lparr>kafka_consumer := Some 1, topic := Some 2\<rparr>)
   = Inr (Left False (new_CConsumer\<lparr>last_offset := 7\<rparr>) [Len 2, Payload [104, 105], Failed (ERR_other 3)])"
proof -
  let ?rounds = "[(sample ERR_TIMED_OUT 0, False), (sample ERR_NO_ERROR 7, False), (sample (ERR_other 3) 0, False),
      (sample ERR_NO_ERROR 9, False)]"
  have "\<forall>m \<in> set (handled ?rounds). readable m"
    by (simp add: readable_def sample_def stops_def fatal_def)
  then show ?thesis
    using consume_transcript [of "new_CConsumer\<lparr>kafka_consumer := Some 1, topic := Some 2\<rparr>" ?rounds]
    by (simp add: Let_def stops_def fatal_def sample_def new_CConsumer_def text_of_def int_len_def)
qed

text \<open>C30: The payload is written to the stream as a C string: the first message that
  carries a payload without a zero byte, data or end of partition, makes \<open>Consume\<close> read beyond it, and
  one without a payload makes it pass a null pointer to \<open>operator<<\<close>, which the standard gives no meaning. The length of the message plays no part.\<close>

theorem payload_overread:
  assumes "kafka_consumer c \<noteq> None" and "\<forall>r \<in> set before. readable (fst r) \<and> \<not> stops r"
    and "err m \<in> {ERR_NO_ERROR, ERR_PARTITION_EOF}" and "\<forall>bs. payload m = Some bs \<longrightarrow> 0 \<notin> set bs"
  shows "Consume (before @ (m, signal) # after) True c =
    Inl (if payload m = None then NullPayload else ReadBeyond)"
proof -
  have "consume_loop (before @ (m, signal) # after) True c out =
      Inl (if payload m = None then NullPayload else ReadBeyond)" for out
    unfolding consuming_prefix [OF assms(1,2)] using assms(1,3,4) by (auto simp: consumer_def put_text_def)
  then show ?thesis by (simp add: Consume_def)
qed

theorem payload_overread_witness:
  "Consume [(sample ERR_TIMED_OUT 0, False), (\<lparr>err = ERR_NO_ERROR, msg_len = 2, payload = Some [104, 105], msg_offset = 0\<rparr>, False)]
     True (new_CConsumer\<lparr>kafka_consumer := Some 1\<rparr>) = Inl ReadBeyond"
  using payload_overread [of "new_CConsumer\<lparr>kafka_consumer := Some 1\<rparr>" "[(sample ERR_TIMED_OUT 0, False)]"
      "\<lparr>err = ERR_NO_ERROR, msg_len = 2, payload = Some [104, 105], msg_offset = 0\<rparr>" False "[]"]
  by (simp add: sample_def readable_def stops_def fatal_def)

text \<open>When \<open>Consume\<close> has returned, \<open>run_\<close> is false for the rest of the program: the same
  object dereferences its null pointer if it consumes again, and any other object leaves its loop at
  once, without a single message.\<close>

theorem consume_once:
  assumes "Consume rounds run c = Inr (Left run' c' out)"
  shows "\<not> run' \<and> Consume later run' c' = Inl NullConsumer \<and>
    (kafka_consumer d \<noteq> None \<longrightarrow> Consume later run' d = Inr (Left False (d\<lparr>topic := None, kafka_consumer := None\<rparr>) []))"
proof -
  obtain c1 where c1: "consume_loop rounds run c [] = Inr (Left run' c1 out)" "shut_down c1 = Inr c'"
    using assms by (auto simp: Consume_def map_sum_def split: sum.splits consuming.splits)
  have "\<not> run'" using loop_left [OF c1(1)] .
  moreover have "kafka_consumer c' = None" using c1(2) by (auto simp: shut_down_def split: if_splits)
  ultimately show ?thesis by (simp add: Consume_def shut_down_def)
qed

theorem consume_once_witness:
  "Consume [(sample ERR_NO_ERROR 9, False)] False (new_CConsumer\<lparr>kafka_consumer := Some 4\<rparr>) =
     Inr (Left False new_CConsumer [])"
proof -
  have "Consume [(sample ERR_UNKNOWN_TOPIC 0, False)] True (new_CConsumer\<lparr>kafka_consumer := Some 1\<rparr>)
      = Inr (Left False new_CConsumer [Failed ERR_UNKNOWN_TOPIC])"
    by (simp add: Consume_def consumer_def sample_def shut_down_def new_CConsumer_def)
  from consume_once [OF this, of "[(sample ERR_NO_ERROR 9, False)]" "new_CConsumer\<lparr>kafka_consumer := Some 4\<rparr>"]
  show ?thesis by (simp add: new_CConsumer_def)
qed

text \<open>\<open>Init\<close> returns false exactly if a configuration object cannot be created. If the
  consumer cannot be created it goes on and calls \<open>start\<close> through a null pointer. Every other failure,
  of a setting, of the topic or of \<open>start\<close> itself, is only reported and the result is true.\<close>

theorem init_outcomes:
  "Init K c =
    (if \<not> conf_create K then Inr (False, [GlobalConf], c)
     else if \<not> tconf_create K then
       Inr (False, [x \<leftarrow> [BrokerList, GroupId, CreateConsumer, TopicConf].
           (x = BrokerList \<longrightarrow> \<not> conf_set K ''bootstrap.servers'' (brokers c)) \<and>
           (x = GroupId \<longrightarrow> \<not> conf_set K ''group.id'' (groupid c)) \<and>
           (x = CreateConsumer \<longrightarrow> Consumer_create K = None)], c\<lparr>kafka_consumer := Consumer_create K\<rparr>)
     else case Consumer_create K of
         None \<Rightarrow> Inl NullConsumer
       | Some h \<Rightarrow>
           let t = Topic_create K (Some h) (topics c)
           in Inr (True, [x \<leftarrow> [BrokerList, GroupId, OffsetReset, CreateTopic, Start].
               (x = BrokerList \<longrightarrow> \<not> conf_set K ''bootstrap.servers'' (brokers c)) \<and>
               (x = GroupId \<longrightarrow> \<not> conf_set K ''group.id'' (groupid c)) \<and>
               (x = OffsetReset \<longrightarrow> \<not> tconf_set K ''auto.offset.reset'' ''smallest'') \<and>
               (x = CreateTopic \<longrightarrow> t = None) \<and>
               (x = Start \<longrightarrow> \<not> start_ok K t (partition c) (offset c))],
             c\<lparr>kafka_consumer := Some h, topic := t\<rparr>))"
  by (cases "Consumer_create K") (auto simp: Init_def complain_def Let_def)

end
