(* ===== verification/KafkaConsumerC.thy ===== *)
theory KafkaConsumerC
  imports HandlerLoop
begin

text \<open>
  The consumer of producer_consumer_librdkafka/consumer/main.c: the options, \<open>initKafka\<close>, the polling
  loop with its signal handler, and the shutdown. librdkafka is a parameter: what its calls return.
  The names of functions that occur in several programs of the repository have the prefix \<open>c_\<close>.
\<close>

section \<open>Messages\<close>

datatype resp_err = NO_ERROR | PARTITION_EOF | UNKNOWN_PARTITION | UNKNOWN_TOPIC | OTHER_ERROR nat

text \<open>\<open>m_key\<close> and \<open>m_payload\<close> are the memory that may be read at the pointers, \<open>m_topic\<close> is the name of the
  topic, if the message has a topic handle.\<close>

record c_message =
  m_err :: resp_err
  m_topic :: "string option"
  m_partition :: "32 word"
  m_offset :: "64 word"
  m_len :: "64 word"
  m_payload :: "u8 list option"
  m_key_len :: "64 word"
  m_key :: "u8 list option"

datatype c_error =
    NullHandle     \<comment> \<open>the handle \<open>rk\<close> is used while null\<close>
  | NullTopic      \<comment> \<open>no topic was given\<close>
  | NullRkt        \<comment> \<open>the name of a null topic handle is asked for\<close>
  | NullText       \<comment> \<open>a null pointer is printed\<close>
  | TextBeyond     \<comment> \<open>text is read beyond its memory\<close>

datatype c_line =
    EndOfQueue string "32 word" "64 word"
  | TopicError string "32 word" "64 word" resp_err
  | ConsumerError resp_err
  | Header string "32 word" "64 word" "64 word"
  | Key "u8 list"
  | Value "u8 list"

text \<open>\<open>printf("%.*s", n, p)\<close>: at most \<open>n\<close> bytes, up to a zero byte; without a bound if \<open>n\<close> is negative.\<close>

definition print_bounded :: "int \<Rightarrow> u8 list option \<Rightarrow> c_error + u8 list" where
  "print_bounded n p =
     (case p of
        None \<Rightarrow> Inl NullText
      | Some bs \<Rightarrow>
          if 0 \<in> set bs then Inr (let s = takeWhile (\<lambda>b. b \<noteq> 0) bs in if n < 0 then s else take (nat n) s)
          else if 0 \<le> n \<and> nat n \<le> length bs then Inr (take (nat n) bs)
          else Inl TextBeyond)"

definition int_of_size :: "64 word \<Rightarrow> int" where
  "int_of_size n = sint (ucast n :: 32 word)"

text \<open>\<open>msg_consume\<close>: the flag \<open>run\<close> and the lines.\<close>

definition msg_consume :: "c_message \<Rightarrow> int \<Rightarrow> c_error + int \<times> c_line list" where
  "msg_consume m run =
     (if m_err m \<noteq> NO_ERROR then
        (if m_err m = PARTITION_EOF then
           (case m_topic m of
              None \<Rightarrow> Inl NullRkt
            | Some t \<Rightarrow> Inr (run, [EndOfQueue t (m_partition m) (m_offset m)]))
         else
           let out = (case m_topic m of
                  Some t \<Rightarrow> [TopicError t (m_partition m) (m_offset m) (m_err m)]
                | None \<Rightarrow> [ConsumerError (m_err m)])
           in Inr (if m_err m = UNKNOWN_PARTITION \<or> m_err m = UNKNOWN_TOPIC then 0 else run, out))
      else
        case m_topic m of
          None \<Rightarrow> Inl NullRkt
        | Some t \<Rightarrow>
            let h = [Header t (m_partition m) (m_offset m) (m_len m)]
            in case (if m_key_len m \<noteq> 0 then map_sum id (\<lambda>s. [Key s]) (print_bounded (int_of_size (m_key_len m)) (m_key m))
                     else Inr []) of
                 Inl e \<Rightarrow> Inl e
               | Inr k \<Rightarrow> map_sum id (\<lambda>s. (run, h @ k @ [Value s])) (print_bounded (int_of_size (m_len m)) (m_payload m)))"

section \<open>initKafka\<close>

record c_setup =
  set_group :: "string \<Rightarrow> bool"
  set_store :: bool
  kafka_new :: "nat option"
  subscribe :: "string \<Rightarrow> bool"

text \<open>The statics \<open>rk\<close> and \<open>topics\<close>: null, or set.\<close>

record c_globals =
  rk :: "nat option"
  topic_list :: "string list option"

definition initKafka ::
  "c_setup \<Rightarrow> string \<Rightarrow> string option \<Rightarrow> string option \<Rightarrow> c_globals \<Rightarrow> c_error + int \<times> c_globals" where
  "initKafka K brokers grp topic g =
     (let grp' = (case grp of None \<Rightarrow> ''rdkafka_consumer_example'' | Some s \<Rightarrow> s)
      in if \<not> set_group K grp' then Inr (- 1, g)
         else if \<not> set_store K then Inr (- 1, g)
         else let g1 = g\<lparr>rk := kafka_new K\<rparr>
           in if rk g1 = None then Inr (- 1, g1)
              else case topic of
                  None \<Rightarrow> Inl NullTopic
                | Some t \<Rightarrow>
                    let g2 = g1\<lparr>topic_list := Some [t]\<rparr>
                    in if \<not> subscribe K t then Inr (- 1, g2) else Inr (1, g2))"

section \<open>The loop\<close>

text \<open>The signal handler \<open>stop\<close>: \<open>None\<close> is \<open>exit(1)\<close>.\<close>

definition c_stop :: "int \<Rightarrow> int option" where
  "c_stop run = (if run = 0 then None else Some 0)"

fun c_stops :: "nat \<Rightarrow> int \<Rightarrow> int option" where
  "c_stops 0 run = Some run"
| "c_stops (Suc n) run = Option.bind (c_stop run) (c_stops n)"

text \<open>The handler of SIGUSR1, installed after \<open>initKafka\<close>, passes the static \<open>rk\<close> to \<open>rd_kafka_dump\<close>: the handle it
  dumps.\<close>

definition sig_usr1 :: "c_globals \<Rightarrow> c_error + nat" where
  "sig_usr1 g = (case rk g of None \<Rightarrow> Inl NullHandle | Some k \<Rightarrow> Inr k)"

text \<open>A round: how often the signal arrives before the message is handled, the message if there is one
  within the second that \<open>rd_kafka_consumer_poll\<close> waits, and how often the signal arrives after.\<close>

type_synonym c_round = "nat \<times> c_message option \<times> nat"

datatype c_ending =
    Polling int "c_line list"    \<comment> \<open>the rounds are used up and the loop goes on\<close>
  | Stopped "c_line list"        \<comment> \<open>the loop has ended\<close>
  | Exited "c_line list"         \<comment> \<open>\<open>exit(1)\<close> in the handler\<close>

fun c_loop :: "nat option \<Rightarrow> c_round list \<Rightarrow> int \<Rightarrow> c_line list \<Rightarrow> c_error + c_ending" where
  "c_loop h [] run out =
     (if run = 0 then Inr (Stopped out) else if h = None then Inl NullHandle else Inr (Polling run out))"
| "c_loop h ((s1, msg, s2) # rounds) run out =
     (if run = 0 then Inr (Stopped out)
      else if h = None then Inl NullHandle
      else case c_stops s1 run of
          None \<Rightarrow> Inr (Exited out)
        | Some run1 \<Rightarrow>
            (case (case msg of None \<Rightarrow> Inr (run1, []) | Some m \<Rightarrow> msg_consume m run1) of
               Inl e \<Rightarrow> Inl e
             | Inr (run2, o2) \<Rightarrow>
                 (case c_stops s2 run2 of
                    None \<Rightarrow> Inr (Exited (out @ o2))
                  | Some run3 \<Rightarrow> c_loop h rounds run3 (out @ o2))))"

section \<open>The shutdown\<close>

text \<open>\<open>while (run-- > 0 && rd_kafka_wait_destroyed(1000) == -1)\<close>: \<open>w k\<close> says that the \<open>k\<close>-th wait times
  out. The result is \<open>run\<close>, the number of waits and the number of lines.\<close>

function decommission :: "(nat \<Rightarrow> bool) \<Rightarrow> int \<Rightarrow> nat \<Rightarrow> int \<times> nat \<times> nat" where
  "decommission w run k =
     (if run > 0 then
        (if w k then decommission w (run - 1) (k + 1) else (run - 1, k + 1, k))
      else (run - 1, k, k))"
  by pat_completeness auto
termination by (relation "measure (\<lambda>(w, run, k). nat run)") auto

declare decommission.simps [simp del]

definition dumps :: "(nat \<Rightarrow> bool) \<Rightarrow> bool" where
  "dumps w \<longleftrightarrow> fst (decommission w 5 0) \<le> 0"

section \<open>main\<close>

text \<open>The options as \<open>getopt\<close> returns them, with their arguments.\<close>

record c_options =
  o_brokers :: string
  o_group :: "string option"
  o_topic :: "string option"

fun c_option :: "char \<times> string \<Rightarrow> c_options \<Rightarrow> c_options" where
  "c_option (c, optarg) p =
     (if c = CHR ''b'' then p\<lparr>o_brokers := optarg\<rparr>
      else if c = CHR ''g'' then p\<lparr>o_group := Some optarg\<rparr>
      else if c = CHR ''t'' then p\<lparr>o_topic := Some optarg\<rparr>
      else p)"

definition c_parse :: "(char \<times> string) list \<Rightarrow> c_options" where
  "c_parse opts = fold c_option opts \<lparr>o_brokers = ''localhost::9092'', o_group = None, o_topic = None\<rparr>"

datatype c_exit =
    StillPolling "c_line list"
  | Killed "c_line list"
  | Returned bool "c_line list" bool   \<comment> \<open>whether the initialisation error was reported, and whether it dumps\<close>

definition c_main ::
  "c_setup \<Rightarrow> (char \<times> string) list \<Rightarrow> c_round list \<Rightarrow> (nat \<Rightarrow> bool) \<Rightarrow> c_error + c_exit" where
  "c_main K opts rounds w =
     (let p = c_parse opts
      in case initKafka K (o_brokers p) (o_group p) (o_topic p) \<lparr>rk = None, topic_list = None\<rparr> of
           Inl e \<Rightarrow> Inl e
         | Inr (ret, g) \<Rightarrow>
             (case (if ret = 0 then Inr (Stopped []) else c_loop (rk g) rounds 1 []) of
                Inl e \<Rightarrow> Inl e
              | Inr (Polling run out) \<Rightarrow> Inr (StillPolling out)
              | Inr (Exited out) \<Rightarrow> Inr (Killed out)
              | Inr (Stopped out) \<Rightarrow>
                  if rk g = None then Inl NullHandle else Inr (Returned (ret = 0) out (dumps w))))"

section \<open>Lemmas\<close>

text \<open>After an initialisation that failed before the handle was there, SIGUSR1 dumps through the null pointer;
  after one that failed to subscribe the handle is there.\<close>

lemma dump_after_init:
  assumes "initKafka K b gr (Some t) \<lparr>rk = None, topic_list = None\<rparr> = Inr (ret, g)"
  shows "sig_usr1 g = Inl NullHandle \<longleftrightarrow> ret = - 1 \<and> topic_list g = None"
  using assms by (auto simp: initKafka_def sig_usr1_def Let_def split: if_splits option.splits)

lemma initKafka_return:
  "initKafka K b gr t g = Inr (ret, g') \<Longrightarrow> ret = 1 \<or> ret = - 1"
  by (auto simp: initKafka_def Let_def split: if_splits option.splits)

lemma initKafka_brokers: "initKafka K b gr t g = initKafka K b' gr t g"
  by (simp add: initKafka_def)

definition same_target :: "c_options \<Rightarrow> c_options \<Rightarrow> bool" where
  "same_target p q \<longleftrightarrow> o_group p = o_group q \<and> o_topic p = o_topic q"

lemma c_option_brokers: "fst x = CHR ''b'' \<Longrightarrow> same_target p q \<Longrightarrow> same_target (c_option x p) q"
  by (cases x) (simp add: same_target_def)

lemma c_option_same: "same_target p q \<Longrightarrow> same_target (c_option x p) (c_option x q)"
  by (cases x) (simp add: same_target_def)

lemma c_option_other:
  "same_target p q \<Longrightarrow> same_target (fold c_option opts p) (fold c_option [x \<leftarrow> opts. fst x \<noteq> CHR ''b''] q)"
  by (induction opts arbitrary: p q) (simp_all add: c_option_brokers c_option_same)

lemma decommission_step:
  "decommission w 5 0 =
    (if \<not> w 0 then (4, 1, 0) else if \<not> w 1 then (3, 2, 1) else if \<not> w 2 then (2, 3, 2)
     else if \<not> w 3 then (1, 4, 3) else if \<not> w 4 then (0, 5, 4) else (- 1, 5, 5))"
  by (simp add: decommission.simps [of w 5] decommission.simps [of w 4] decommission.simps [of w 3]
      decommission.simps [of w 2] decommission.simps [of w 1] decommission.simps [of w 0] numeral_eq_Suc)




definition handle :: "c_message option \<Rightarrow> int \<Rightarrow> c_error + int \<times> c_line list" where
  "handle msg run = (case msg of None \<Rightarrow> Inr (run, []) | Some m \<Rightarrow> msg_consume m run)"


definition c_lines :: "c_message option \<Rightarrow> c_line list" where
  "c_lines msg = (case handle msg 1 of Inr (run, o2) \<Rightarrow> o2 | Inl e \<Rightarrow> [])"




text \<open>The loop is a handler loop whose state is the handle: a round is quiet if no signal arrives in it and
  its message can be printed and does not end the loop.\<close>

definition c_round_step :: "c_round \<Rightarrow> nat option \<Rightarrow> nat option \<times> c_line list" where
  "c_round_step r h = (h, c_lines (fst (snd r)))"


lemma c_round_step_simps [simp]: "fst (c_round_step r h) = h" "snd (c_round_step r h) = c_lines (fst (snd r))"
  by (simp_all add: c_round_step_def)






section \<open>Properties\<close>

text \<open>C33: \<open>initKafka\<close> never returns 0, so \<open>main\<close> never reports a failed initialisation.
  If it fails before it has a handle, \<open>main\<close> polls a null handle; if the subscription fails, \<open>main\<close>
  goes on exactly as if it had succeeded.\<close>

theorem init_error_unseen:
  "(\<forall>reported out d. c_main K opts rounds w = Inr (Returned reported out d) \<longrightarrow> \<not> reported) \<and>
   (\<not> set_group K (case o_group (c_parse opts) of None \<Rightarrow> ''rdkafka_consumer_example'' | Some s \<Rightarrow> s) \<or>
      \<not> set_store K \<or> kafka_new K = None \<longrightarrow> c_main K opts rounds w = Inl NullHandle) \<and>
   c_main K opts rounds w = c_main (K\<lparr>subscribe := \<lambda>t. True\<rparr>) opts rounds w"
proof (intro conjI allI impI)
  fix reported out d
  assume r: "c_main K opts rounds w = Inr (Returned reported out d)"
  then obtain ret g where
    init: "initKafka K (o_brokers (c_parse opts)) (o_group (c_parse opts)) (o_topic (c_parse opts)) \<lparr>rk = None, topic_list = None\<rparr> = Inr (ret, g)"
    by (auto simp: c_main_def Let_def split: sum.splits)
  have "ret \<noteq> 0" using initKafka_return [OF init] by auto
  with r init show "\<not> reported" by (auto simp: c_main_def Let_def split: sum.splits c_ending.splits if_splits)
next
  assume "\<not> set_group K (case o_group (c_parse opts) of None \<Rightarrow> ''rdkafka_consumer_example'' | Some s \<Rightarrow> s) \<or>
      \<not> set_store K \<or> kafka_new K = None"
  then have "\<exists>g. initKafka K (o_brokers (c_parse opts)) (o_group (c_parse opts)) (o_topic (c_parse opts)) \<lparr>rk = None, topic_list = None\<rparr>
      = Inr (- 1, g) \<and> rk g = None" by (auto simp: initKafka_def Let_def)
  moreover have "c_loop None rounds 1 [] = Inl NullHandle" by (cases rounds) auto
  ultimately show "c_main K opts rounds w = Inl NullHandle" by (auto simp: c_main_def Let_def)
next
  let ?p = "c_parse opts"
  have "initKafka K b gr tp g = initKafka (K\<lparr>subscribe := \<lambda>t. True\<rparr>) b gr tp g \<or>
      (\<exists>g'. initKafka K b gr tp g = Inr (- 1, g') \<and> initKafka (K\<lparr>subscribe := \<lambda>t. True\<rparr>) b gr tp g = Inr (1, g'))"
    for b gr tp g by (auto simp: initKafka_def Let_def split: option.splits)
  from this [of "o_brokers ?p" "o_group ?p" "o_topic ?p" "\<lparr>rk = None, topic_list = None\<rparr>"]
  show "c_main K opts rounds w = c_main (K\<lparr>subscribe := \<lambda>t. True\<rparr>) opts rounds w"
  proof (elim disjE exE conjE)
    fix g'
    assume "initKafka K (o_brokers ?p) (o_group ?p) (o_topic ?p) \<lparr>rk = None, topic_list = None\<rparr> = Inr (- 1, g')"
      "initKafka (K\<lparr>subscribe := \<lambda>t. True\<rparr>) (o_brokers ?p) (o_group ?p) (o_topic ?p) \<lparr>rk = None, topic_list = None\<rparr>
        = Inr (1, g')"
    then show ?thesis
      by (cases "c_loop (rk g') rounds 1 []") (auto simp: c_main_def Let_def split: c_ending.split)
  qed (simp only: c_main_def Let_def)
qed

definition c_good :: c_setup where
  "c_good = \<lparr>set_group = (\<lambda>s. True), set_store = True, kafka_new = Some 1, subscribe = (\<lambda>t. True)\<rparr>"

theorem init_error_unseen_witness:
  "c_main (c_good\<lparr>kafka_new := None\<rparr>) [(CHR ''t'', ''news'')] [] (\<lambda>k. False) = Inl NullHandle \<and>
   c_main (c_good\<lparr>subscribe := \<lambda>t. False\<rparr>) [(CHR ''t'', ''news'')] [] (\<lambda>k. False) = Inr (StillPolling [])"
  using init_error_unseen [of "c_good\<lparr>kafka_new := None\<rparr>" "[(CHR ''t'', ''news'')]" "[]" "\<lambda>k. False"]
  by (simp add: c_good_def c_main_def c_parse_def initKafka_def Let_def)

text \<open>The brokers given with the option -b have no influence on the program: it
  behaves as if the option were not there.\<close>

theorem brokers_unused: "c_main K opts rounds w = c_main K [x \<leftarrow> opts. fst x \<noteq> CHR ''b''] rounds w"
proof -
  have "same_target (c_parse opts) (c_parse [x \<leftarrow> opts. fst x \<noteq> CHR ''b''])"
    unfolding c_parse_def by (rule c_option_other) (simp add: same_target_def)
  then show ?thesis
    unfolding c_main_def Let_def same_target_def
    by (metis (no_types, lifting) initKafka_brokers)
qed




text \<open>The shutdown waits at most five times, a second each, and prints a line for each
  wait that times out. It then dumps the state of the handle exactly if the first four waits have timed
  out, also when the fifth has seen it destroyed.\<close>

theorem dump_one_early:
  "(dumps w \<longleftrightarrow> w 0 \<and> w 1 \<and> w 2 \<and> w 3) \<and> fst (snd (decommission w 5 0)) \<le> 5 \<and>
   snd (snd (decommission w 5 0)) = length (takeWhile w [0, 1, 2, 3, 4])"
  by (auto simp: dumps_def decommission_step numeral_eq_Suc)

end
