(* ===== verification/KafkaProducer.thy ===== *)
theory KafkaProducer
  imports Prelude
begin

text \<open>
  The producer of producer_consumer_librdkafka/producer/main.c: \<open>main\<close> reads lines from the standard
  input and hands them to librdkafka, trying again while its queue is full. The library is a parameter:
  whether the set-up succeeds, and the result of each call of \<open>rd_kafka_produce\<close>; the lines it
  prints are not modelled. \<open>None\<close> is a call that
  does not return.
\<close>

section \<open>Input\<close>

text \<open>\<open>fgets\<close>: up to \<open>room - 1\<close> bytes, ending behind the first newline.\<close>

definition fgets :: "nat \<Rightarrow> u8 list \<Rightarrow> (u8 list \<times> u8 list) option" where
  "fgets room s =
     (if s = [] then None
      else let n = min (room - 1) (length (takeWhile (\<lambda>c. c \<noteq> 10) s) + 1) in Some (take n s, drop n s))"

lemma fgets_shorter: "fgets 512 s = Some (buf, rest) \<Longrightarrow> length rest < length s"
  by (cases s) (auto simp: fgets_def Let_def)

text \<open>The \<open>strlen\<close> bytes of the buffer.\<close>

definition c_text :: "u8 list \<Rightarrow> u8 list" where
  "c_text buf = takeWhile (\<lambda>c. c \<noteq> 0) buf"

section \<open>Events\<close>

datatype produced = Enqueued | QueueFull | Refused nat

datatype p_event =
    Produce "u8 list" produced   \<comment> \<open>a call of \<open>rd_kafka_produce\<close> and its result\<close>
  | Poll nat                     \<comment> \<open>\<open>rd_kafka_poll\<close> with its time-out\<close>
  | Flush nat

datatype p_error = BeforeBuffer  \<comment> \<open>\<open>buf[-1]\<close> is read\<close>

text \<open>The code from the label \<open>retry\<close>: the number of calls before and after, and the events.\<close>

partial_function (option) p_retry ::
  "(nat \<Rightarrow> produced) \<Rightarrow> u8 list \<Rightarrow> nat \<Rightarrow> p_event list \<Rightarrow> (nat \<times> p_event list) option" where
  "p_retry r msg k out =
     (if r k = QueueFull then p_retry r msg (k + 1) (out @ [Produce msg QueueFull, Poll 1000])
      else Some (k + 1, out @ [Produce msg (r k)]))"

text \<open>The loop. \<open>sig i\<close> says whether the signal that clears \<open>run\<close> arrives in the \<open>i\<close>-th round, after its
  line has been read.\<close>

function p_loop ::
  "(nat \<Rightarrow> produced) \<Rightarrow> (nat \<Rightarrow> bool) \<Rightarrow> nat \<Rightarrow> nat \<Rightarrow> bool \<Rightarrow> u8 list \<Rightarrow> p_event list \<Rightarrow>
     (p_error + p_event list) option" where
  "p_loop r sig i k run input out =
     (if \<not> run then Some (Inr out)
      else case fgets 512 input of
          None \<Rightarrow> Some (Inr out)
        | Some (buf, rest) \<Rightarrow>
            let s = c_text buf
            in if s = [] then Some (Inl BeforeBuffer)
               else let msg = (if last s = 10 then butlast s else s); run' = (if sig i then False else run)
                 in if msg = [] then p_loop r sig (i + 1) k run' rest (out @ [Poll 0])
                    else case p_retry r msg k out of
                        None \<Rightarrow> None
                      | Some (k', out') \<Rightarrow> p_loop r sig (i + 1) k' run' rest (out' @ [Poll 0]))"
  by pat_completeness auto
termination
  by (relation "measure (\<lambda>(r, sig, i, k, run, input, out). length input)") (auto dest: fgets_shorter)

declare p_loop.simps [simp del]

section \<open>main\<close>

record p_setup =
  p_conf_set :: "string \<Rightarrow> bool"
  p_new :: bool
  p_topic_new :: "string \<Rightarrow> bool"

datatype p_exit =
    Usage | ConfFailed | NewFailed | TopicFailed
  | Finished "p_event list"

definition p_status :: "p_exit \<Rightarrow> int" where
  "p_status x = (case x of Finished out \<Rightarrow> 0 | _ \<Rightarrow> 1)"

definition p_main ::
  "p_setup \<Rightarrow> string list \<Rightarrow> (nat \<Rightarrow> produced) \<Rightarrow> (nat \<Rightarrow> bool) \<Rightarrow> u8 list \<Rightarrow> (p_error + p_exit) option" where
  "p_main K argv r sig input =
     (if length argv \<noteq> 3 then Some (Inr Usage)
      else if \<not> p_conf_set K (argv ! 1) then Some (Inr ConfFailed)
      else if \<not> p_new K then Some (Inr NewFailed)
      else if \<not> p_topic_new K (argv ! 2) then Some (Inr TopicFailed)
      else map_option (map_sum id (\<lambda>out. Finished (out @ [Flush 10000]))) (p_loop r sig 0 0 True input []))"

section \<open>The callback and test\<close>

text \<open>\<open>dr_msg_cb\<close> reports each delivery.\<close>

datatype delivery = DeliveryFailed nat | Delivered "64 word" "32 word"

definition dr_msg_cb :: "nat \<Rightarrow> 64 word \<Rightarrow> 32 word \<Rightarrow> delivery" where
  "dr_msg_cb err len part = (if err \<noteq> 0 then DeliveryFailed err else Delivered len part)"

text \<open>\<open>test\<close>, which \<open>main\<close> does not call. Its first message goes to \<open>printf\<close> with the stream as the format,
  which is undefined: \<open>None\<close>. Otherwise the result is the message, if there is one, and the handles that are
  set, of the producer and of the topic.\<close>

datatype p_test_failure = BufferingFailed | ProducerFailed | TopicObjectFailed

definition p_test ::
  "(string \<Rightarrow> string \<Rightarrow> bool) \<Rightarrow> nat option \<Rightarrow> (string \<Rightarrow> nat option) \<Rightarrow>
     (p_test_failure option \<times> nat option \<times> nat option) option" where
  "p_test conf_set kafka_new topic_new =
     (if \<not> conf_set ''bootstrap.servers'' ''192.168.0.18:9092'' then None
      else if \<not> conf_set ''queue.buffering.max.ms'' ''1'' then Some (Some BufferingFailed, None, None)
      else case kafka_new of
          None \<Rightarrow> Some (Some ProducerFailed, None, None)
        | Some rk1 \<Rightarrow>
            (case topic_new ''test_one'' of
               None \<Rightarrow> Some (Some TopicObjectFailed, Some rk1, None)
             | Some rkt \<Rightarrow> Some (None, Some rk1, Some rkt)))"

section \<open>What is to be sent\<close>

text \<open>The lines of the input, each cut into pieces of at most 511 bytes.\<close>

fun lines_of :: "u8 list \<Rightarrow> u8 list list" where
  "lines_of [] = [[]]"
| "lines_of (c # cs) =
     (if c = 10 then [] # lines_of cs
      else case lines_of cs of [] \<Rightarrow> [[c]] | l # ls \<Rightarrow> (c # l) # ls)"

function pieces_of :: "u8 list \<Rightarrow> u8 list list" where
  "pieces_of l = (if l = [] then [] else take 511 l # pieces_of (drop 511 l))"
  by pat_completeness auto
termination by (relation "measure length") auto

declare pieces_of.simps [simp del]

definition pieces :: "u8 list \<Rightarrow> u8 list list" where
  "pieces input = concat (map pieces_of (lines_of input))"

text \<open>The messages the library has taken, or refused for good, and those it has taken.\<close>

definition settled :: "p_event list \<Rightarrow> u8 list list" where
  "settled out = concat (map (\<lambda>e. case e of Produce m x \<Rightarrow> if x = QueueFull then [] else [m] | _ \<Rightarrow> []) out)"

definition sent :: "p_event list \<Rightarrow> u8 list list" where
  "sent out = concat (map (\<lambda>e. case e of Produce m x \<Rightarrow> if x = Enqueued then [m] else [] | _ \<Rightarrow> []) out)"

lemma settled_simps [simp]:
  "settled [] = []" "settled (xs @ ys) = settled xs @ settled ys"
  "settled (Produce m x # out) = (if x = QueueFull then [] else [m]) @ settled out"
  "settled (Poll t # out) = settled out" "settled (Flush t # out) = settled out"
  by (simp_all add: settled_def)

lemma sent_simps [simp]:
  "sent [] = []" "sent (xs @ ys) = sent xs @ sent ys"
  "sent (Produce m x # out) = (if x = Enqueued then [m] else []) @ sent out"
  "sent (Poll t # out) = sent out" "sent (Flush t # out) = sent out"
  by (simp_all add: sent_def)

lemma lines_of_nonempty: "lines_of s \<noteq> []"
  by (induction s) (auto split: list.split)

lemma lines_of_prefix: "10 \<notin> set p \<Longrightarrow> lines_of t = l # ls \<Longrightarrow> lines_of (p @ t) = (p @ l) # ls"
  by (induction p) auto

lemma pieces_of_short: "l \<noteq> [] \<Longrightarrow> length l \<le> 511 \<Longrightarrow> pieces_of l = [l]"
  by (simp add: pieces_of.simps [of l] pieces_of.simps [of "[]"])

lemma pieces_Nil [simp]: "pieces [] = []"
  by (simp add: pieces_def pieces_of.simps)

lemma pieces_long: "10 \<notin> set p \<Longrightarrow> length p = 511 \<Longrightarrow> pieces (p @ t) = p # pieces t"
proof -
  assume p: "10 \<notin> set p" "length p = 511"
  obtain l ls where t: "lines_of t = l # ls" using lines_of_nonempty by (meson neq_Nil_conv)
  have "pieces_of (p @ l) = p # pieces_of l" using p(2) by (subst pieces_of.simps) auto
  then show ?thesis using lines_of_prefix [OF p(1) t] t by (simp add: pieces_def)
qed

lemma pieces_line: "10 \<notin> set p \<Longrightarrow> length p < 511 \<Longrightarrow> pieces (p @ 10 # t) = (if p = [] then [] else [p]) @ pieces t"
  using lines_of_prefix [of p "10 # t" "[]" "lines_of t"] pieces_of_short [of p]
  by (simp add: pieces_def pieces_of.simps [of "[]"])

lemma pieces_last: "10 \<notin> set p \<Longrightarrow> p \<noteq> [] \<Longrightarrow> length p < 511 \<Longrightarrow> pieces p = [p]"
  using lines_of_prefix [of p "[]" "[]" "[]"] pieces_of_short [of p] by (simp add: pieces_def)

lemma input_cases:
  fixes s :: "u8 list"
  assumes "s \<noteq> []"
  obtains (long) p t where "s = p @ t" "10 \<notin> set p" "length p = 511"
    | (line) p t where "s = p @ 10 # t" "10 \<notin> set p" "length p < 511"
    | (final) "10 \<notin> set s" "length s < 511"
proof -
  let ?p = "takeWhile (\<lambda>c. c \<noteq> 10) s" and ?t = "dropWhile (\<lambda>c. c \<noteq> 10) s"
  have s: "s = ?p @ ?t" and p: "10 \<notin> set ?p" by (simp, auto dest: set_takeWhileD)
  show thesis
  proof (cases "511 \<le> length ?p")
    case True
    have "s = take 511 ?p @ (drop 511 ?p @ ?t)" using s by (metis append.assoc append_take_drop_id)
    then show thesis using long [of "take 511 ?p"] True p by (auto dest: in_set_takeD)
  next
    case False
    show thesis
    proof (cases ?t)
      case Nil
      then have "?p = s" using s by simp
      then show thesis using p False final by (metis not_le)
    next
      case (Cons c t)
      then have "c = 10" by (metis (mono_tags, lifting) dropWhile_eq_Cons_conv)
      then show thesis using line [of ?p t] Cons s p False by auto
    qed
  qed
qed

text \<open>One call of \<open>fgets\<close> takes one piece off the input, or an empty line.\<close>

definition chomp :: "u8 list \<Rightarrow> u8 list" where
  "chomp buf = (if last buf = 10 then butlast buf else buf)"

lemma fgets_piece:
  assumes "fgets 512 s = Some (buf, rest)"
  shows "buf \<noteq> []" and "s = buf @ rest"
    and "pieces s = (if chomp buf = [] then [] else [chomp buf]) @ pieces rest"
proof -
  have s: "s \<noteq> []" using assms by (auto simp: fgets_def)
  from s have "buf \<noteq> [] \<and> s = buf @ rest \<and> pieces s = (if chomp buf = [] then [] else [chomp buf]) @ pieces rest"
  proof (cases rule: input_cases)
    case (long p t)
    have "takeWhile (\<lambda>c. c \<noteq> 10) (p @ t) = p @ takeWhile (\<lambda>c. c \<noteq> 10) t" using long(2) by (induction p) auto
    then have "min 511 (length (takeWhile (\<lambda>c. c \<noteq> 10) s) + 1) = 511" using long by simp
    then have b: "buf = p" "rest = t" using assms s long by (auto simp: fgets_def Let_def)
    have "last p \<noteq> 10" "p \<noteq> []" using long(2,3) by (cases p; auto dest: last_in_set)+
    then show ?thesis using b long pieces_long by (simp add: chomp_def)
  next
    case (line p t)
    have "takeWhile (\<lambda>c. c \<noteq> 10) (p @ 10 # t) = p" using line(2) by (induction p) auto
    then have "min 511 (length (takeWhile (\<lambda>c. c \<noteq> 10) s) + 1) = length p + 1" using line(1,3) by simp
    then have "buf = p @ [10]" "rest = t" using assms s line(1) by (simp_all add: fgets_def)
    then show ?thesis using line pieces_line by (simp add: chomp_def)
  next
    case final
    have tw: "takeWhile (\<lambda>c. c \<noteq> 10) s = s" using final(1) by (induction s) auto
    have "Some (take (min 511 (length s + 1)) s, drop (min 511 (length s + 1)) s) = Some (buf, rest)"
      using assms s unfolding fgets_def tw Let_def by simp
    then have b: "buf = s" "rest = []" using final(2) by auto
    have "last s \<noteq> 10" using s final(1) last_in_set by metis
    then show ?thesis using b s final pieces_last by (simp add: chomp_def)
  qed
  then show "buf \<noteq> []" and "s = buf @ rest"
    and "pieces s = (if chomp buf = [] then [] else [chomp buf]) @ pieces rest" by blast+
qed

section \<open>Trying again\<close>

lemma p_retry_settles:
  assumes "r j \<noteq> QueueFull" and "k \<le> j"
  shows "\<exists>k' out'. p_retry r msg k out = Some (k', out') \<and> settled out' = settled out @ [msg] \<and>
    ((\<forall>i x. r i \<noteq> Refused x) \<longrightarrow> sent out' = sent out @ [msg])"
  using assms(2)
proof (induction "j - k" arbitrary: k out)
  case 0
  then have "r k \<noteq> QueueFull" using assms(1) by simp
  then show ?case by (cases "r k") (auto simp: p_retry.simps [of r msg k])
next
  case (Suc d)
  show ?case
  proof (cases "r k = QueueFull")
    case True
    have "d = j - (k + 1)" "k + 1 \<le> j" using Suc.hyps(2) by simp_all
    from Suc.hyps(1) [OF this, of "out @ [Produce msg QueueFull, Poll 1000]"] show ?thesis
      using True by (simp add: p_retry.simps [of r msg k])
  next
    case False
    then show ?thesis by (cases "r k") (auto simp: p_retry.simps [of r msg k])
  qed
qed

lemma p_retry_stuck: "p_retry r msg k out = Some y \<Longrightarrow> \<exists>j \<ge> k. r j \<noteq> QueueFull"
proof (rule p_retry.raw_induct [where P = "\<lambda>r msg k out y. \<exists>j \<ge> k. r j \<noteq> QueueFull"])
  fix retry :: "(nat \<Rightarrow> produced) \<Rightarrow> u8 list \<Rightarrow> nat \<Rightarrow> p_event list \<Rightarrow> (nat \<times> p_event list) option"
  fix r msg k out y
  assume IH: "\<And>r msg k out y. retry r msg k out = Some y \<Longrightarrow> \<exists>j \<ge> k. r j \<noteq> QueueFull"
    and run: "(if r k = QueueFull then retry r msg (k + 1) (out @ [Produce msg QueueFull, Poll 1000])
      else Some (k + 1, out @ [Produce msg (r k)])) = Some y"
  show "\<exists>j \<ge> k. r j \<noteq> QueueFull"
  proof (cases "r k = QueueFull")
    case True
    with run have "retry r msg (k + 1) (out @ [Produce msg QueueFull, Poll 1000]) = Some y" by simp
    from IH [OF this] obtain j where "k + 1 \<le> j" "r j \<noteq> QueueFull" by blast
    then show ?thesis by (intro exI [of _ j]) simp
  qed auto
qed

lemma c_text_all: "0 \<notin> set buf \<Longrightarrow> c_text buf = buf"
  by (induction buf) (auto simp: c_text_def)

lemma p_loop_line:
  assumes "fgets 512 input = Some (buf, rest)" and "0 \<notin> set input"
  shows "p_loop r sig i k True input out =
    (if chomp buf = [] then p_loop r sig (i + 1) k (\<not> sig i) rest (out @ [Poll 0])
     else case p_retry r (chomp buf) k out of
         None \<Rightarrow> None
       | Some (k', out') \<Rightarrow> p_loop r sig (i + 1) k' (\<not> sig i) rest (out' @ [Poll 0]))"
proof -
  have "c_text buf = buf" using fgets_piece(2) [OF assms(1)] assms(2) by (intro c_text_all) auto
  then show ?thesis
    using assms(1) fgets_piece(1) [OF assms(1)]
    by (simp add: p_loop.simps [of r sig i k True input] chomp_def Let_def split: option.split)
qed

lemma p_loop_stopped: "p_loop r sig i k False input out = Some (Inr out)"
  by (simp add: p_loop.simps)

lemma p_loop_sends:
  assumes "\<forall>k. \<exists>j \<ge> k. r j \<noteq> QueueFull" and "0 \<notin> set input"
  shows "\<exists>out' n. p_loop r sig i k True input out = Some (Inr out') \<and>
    settled out' = settled out @ take n (pieces input) \<and>
    ((\<forall>i. \<not> sig i) \<longrightarrow> length (pieces input) \<le> n) \<and>
    ((\<forall>i x. r i \<noteq> Refused x) \<longrightarrow> sent out' = sent out @ take n (pieces input))"
  using assms(2)
proof (induction "length input" arbitrary: input i k out rule: less_induct)
  case less
  show ?case
  proof (cases "fgets 512 input")
    case None
    then have "input = []" by (auto simp: fgets_def Let_def split: if_splits)
    then show ?thesis by (simp add: p_loop.simps [of r sig i k True "[]"] fgets_def)
  next
    case (Some br)
    obtain buf rest where f: "fgets 512 input = Some (buf, rest)" using Some by (cases br) auto
    note piece = fgets_piece [OF f]
    have rest: "length rest < length input" "0 \<notin> set rest" using piece(1,2) less.prems by auto
    have cont: "\<exists>out' n. p_loop r sig (i + 1) k' (\<not> sig i) rest out1 = Some (Inr out') \<and>
        settled out' = settled out1 @ take n (pieces rest) \<and>
        ((\<forall>i. \<not> sig i) \<longrightarrow> length (pieces rest) \<le> n) \<and>
        ((\<forall>i x. r i \<noteq> Refused x) \<longrightarrow> sent out' = sent out1 @ take n (pieces rest))" for k' out1
    proof (cases "sig i")
      case True
      then show ?thesis by (intro exI [of _ out1] exI [of _ 0]) (auto simp: p_loop_stopped)
    next
      case False
      then show ?thesis using less.hyps [OF rest(1,2)] by simp
    qed
    show ?thesis
    proof (cases "chomp buf = []")
      case True
      then show ?thesis using cont [of k "out @ [Poll 0]"] piece(3) by (simp add: p_loop_line [OF f less.prems])
    next
      case False
      obtain j where "r j \<noteq> QueueFull" "k \<le> j" using assms(1) by blast
      from p_retry_settles [where r = r and k = k and j = j, OF this, of "chomp buf" out] obtain k' out1
        where o1: "p_retry r (chomp buf) k out = Some (k', out1)" "settled out1 = settled out @ [chomp buf]"
          "(\<forall>i x. r i \<noteq> Refused x) \<longrightarrow> sent out1 = sent out @ [chomp buf]" by blast
      from cont [of k' "out1 @ [Poll 0]"] obtain out' n
        where "p_loop r sig (i + 1) k' (\<not> sig i) rest (out1 @ [Poll 0]) = Some (Inr out')"
          "settled out' = settled out1 @ take n (pieces rest)" "(\<forall>i. \<not> sig i) \<longrightarrow> length (pieces rest) \<le> n"
          "(\<forall>i x. r i \<noteq> Refused x) \<longrightarrow> sent out' = sent out1 @ take n (pieces rest)" by auto
      then show ?thesis
        using o1 False piece(3)
        by (intro exI [of _ out'] exI [of _ "Suc n"]) (simp add: p_loop_line [OF f less.prems])
    qed
  qed
qed

lemma p_loop_stuck:
  assumes "\<forall>j. r j = QueueFull" and "\<forall>i. \<not> sig i" and "0 \<notin> set input" and "pieces input \<noteq> []"
  shows "p_loop r sig i k True input out = None"
  using assms(3,4)
proof (induction "length input" arbitrary: input i k out rule: less_induct)
  case less
  have "input \<noteq> []" using less.prems(2) by auto
  then obtain buf rest where f: "fgets 512 input = Some (buf, rest)" by (auto simp: fgets_def Let_def)
  note piece = fgets_piece [OF f]
  show ?case
  proof (cases "chomp buf = []")
    case True
    have "p_loop r sig (i + 1) k True rest (out @ [Poll 0]) = None"
      using less.hyps [of rest] piece less.prems True by auto
    then show ?thesis using True assms(2) by (simp add: p_loop_line [OF f less.prems(1)])
  next
    case False
    have "p_retry r (chomp buf) k out = None"
      using p_retry_stuck [of r "chomp buf" k out] assms(1) by (cases "p_retry r (chomp buf) k out") auto
    then show ?thesis using False by (simp add: p_loop_line [OF f less.prems(1)])
  qed
qed

section \<open>Properties\<close>

text \<open>C31: On input without zero bytes and a library whose queue is not full for ever, the
  program hands over the lines of its input in order, each cut into pieces of at most 511 bytes and empty
  ones left out, every piece until it is taken or refused for good; after a signal a beginning of them.
  If nothing is refused, exactly these are enqueued once each. Then it flushes and returns.\<close>

theorem producer_sends:
  assumes "length argv = 3" and "p_conf_set K (argv ! 1)" and "p_new K" and "p_topic_new K (argv ! 2)"
    and "\<forall>k. \<exists>j \<ge> k. r j \<noteq> QueueFull" and "0 \<notin> set input"
  shows "\<exists>out n. p_main K argv r sig input = Some (Inr (Finished (out @ [Flush 10000]))) \<and>
    settled out = take n (pieces input) \<and>
    ((\<forall>i. \<not> sig i) \<longrightarrow> settled out = pieces input) \<and>
    ((\<forall>i x. r i \<noteq> Refused x) \<longrightarrow> sent out = settled out)"
proof -
  from p_loop_sends [OF assms(5,6), of sig 0 0 "[]"] obtain out n
    where "p_loop r sig 0 0 True input [] = Some (Inr out)" "settled out = take n (pieces input)"
      "(\<forall>i. \<not> sig i) \<longrightarrow> length (pieces input) \<le> n"
      "(\<forall>i x. r i \<noteq> Refused x) \<longrightarrow> sent out = take n (pieces input)" by auto
  then show ?thesis
    using assms(1-4) by (intro exI [of _ out] exI [of _ n]) (simp add: p_main_def)
qed

definition p_good :: p_setup where
  "p_good = \<lparr>p_conf_set = (\<lambda>b. True), p_new = True, p_topic_new = (\<lambda>t. True)\<rparr>"

theorem producer_sends_witness:
  "\<exists>out n. p_main p_good [''producer'', ''broker'', ''topic''] (\<lambda>k. if even k then QueueFull else Enqueued) (\<lambda>i. False)
      [104, 105, 10, 10, 120] = Some (Inr (Finished (out @ [Flush 10000]))) \<and>
    settled out = take n (pieces [104, 105, 10, 10, 120]) \<and>
    ((\<forall>i :: nat. \<not> False) \<longrightarrow> settled out = pieces [104, 105, 10, 10, 120]) \<and>
    ((\<forall>i x. (if even (i :: nat) then QueueFull else Enqueued) \<noteq> Refused x) \<longrightarrow> sent out = settled out)"
proof -
  have "\<forall>k. \<exists>j \<ge> k. (if even (j :: nat) then QueueFull else Enqueued) \<noteq> QueueFull"
  proof
    fix k :: nat
    show "\<exists>j \<ge> k. (if even j then QueueFull else Enqueued) \<noteq> QueueFull" by (rule exI [of _ "2 * k + 1"]) simp
  qed
  then show ?thesis by (intro producer_sends) (simp_all add: p_good_def)
qed

text \<open>If the queue stays full, the program never returns from its first piece: it
  polls and tries again without end, and the flag that the signal clears is not tested.\<close>

theorem full_queue_hangs:
  assumes "length argv = 3" and "p_conf_set K (argv ! 1)" and "p_new K" and "p_topic_new K (argv ! 2)"
    and "\<forall>j. r j = QueueFull" and "0 \<notin> set input" and "pieces input \<noteq> []" and "\<forall>i. \<not> sig i"
  shows "p_main K argv r sig input = None"
  using p_loop_stuck [OF assms(5,8,6,7)] assms(1-4) by (simp add: p_main_def)

theorem full_queue_hangs_witness:
  "p_main p_good [''producer'', ''broker'', ''topic''] (\<lambda>k. QueueFull) (\<lambda>i. False) [10, 120] = None"
  by (rule full_queue_hangs) (simp_all add: p_good_def pieces_def pieces_of.simps)

text \<open>A line that begins with a zero byte has length 0, and the program reads the byte
  before its buffer.\<close>

theorem zero_line:
  assumes "length argv = 3" and "p_conf_set K (argv ! 1)" and "p_new K" and "p_topic_new K (argv ! 2)"
  shows "p_main K argv r sig (0 # input) = Some (Inl BeforeBuffer)"
  using assms by (simp add: p_main_def p_loop.simps [of r sig 0 0 True "0 # input"] fgets_def Let_def c_text_def
      take_Cons split: nat.split)

theorem zero_line_witness:
  "p_main p_good [''producer'', ''broker'', ''topic''] (\<lambda>k. Enqueued) (\<lambda>i. False) [0, 10] = Some (Inl BeforeBuffer)"
  by (rule zero_line) (simp_all add: p_good_def)

end
