(* ===== verification/ClickHouse.thy ===== *)
theory ClickHouse
  imports Prelude
begin

text \<open>
  learnclickhouse/src/main.cpp: \<open>StandardTest\<close>, which collects the addresses of two queries, \<open>BasicTest\<close>,
  which fills and reads a table, and \<open>main\<close>. The client library is a parameter: a state of the server and
  what each call does to it. A query hands its callback one block after another; a block is what the
  callbacks see of it, its row count and its columns.
\<close>

section \<open>The client\<close>

datatype column = ColumnUInt64 "u64 list" | ColumnString "string list"

record block =
  row_count :: nat
  columns :: "(string \<times> column) list"

record 's client =
  Execute :: "string \<Rightarrow> 's \<Rightarrow> 's"
  Insert :: "string \<Rightarrow> block \<Rightarrow> 's \<Rightarrow> 's"
  Select :: "string \<Rightarrow> 's \<Rightarrow> block list"

record client_options =
  user :: string
  host :: string
  default_database :: string
  password :: string

datatype ch_error =
    NoColumn     \<comment> \<open>\<open>block[k]\<close> beyond the columns\<close>
  | WrongType    \<comment> \<open>\<open>As\<close> gives a null pointer, which is dereferenced\<close>
  | NoRow        \<comment> \<open>\<open>At\<close> beyond the column\<close>

text \<open>\<open>block[k]->As<ColumnString>()->At(i)\<close> and the same for \<open>ColumnUInt64\<close>.\<close>

definition string_at :: "block \<Rightarrow> nat \<Rightarrow> nat \<Rightarrow> ch_error + string" where
  "string_at b k i =
     (if length (columns b) \<le> k then Inl NoColumn
      else case snd (columns b ! k) of
          ColumnUInt64 xs \<Rightarrow> Inl WrongType
        | ColumnString xs \<Rightarrow> if i < length xs then Inr (xs ! i) else Inl NoRow)"

definition uint_at :: "block \<Rightarrow> nat \<Rightarrow> nat \<Rightarrow> ch_error + u64" where
  "uint_at b k i =
     (if length (columns b) \<le> k then Inl NoColumn
      else case snd (columns b ! k) of
          ColumnString xs \<Rightarrow> Inl WrongType
        | ColumnUInt64 xs \<Rightarrow> if i < length xs then Inr (xs ! i) else Inl NoRow)"

section \<open>StandardTest\<close>

text \<open>The callback: the loop over the rows, from row \<open>i\<close>, appends to the vector.\<close>

function collect_rows :: "block \<Rightarrow> nat \<Rightarrow> string list \<Rightarrow> ch_error + string list" where
  "collect_rows b i vect_address =
     (if i < row_count b then
        (case string_at b 0 i of
           Inl e \<Rightarrow> Inl e
         | Inr address \<Rightarrow> collect_rows b (i + 1) (vect_address @ [address]))
      else Inr vect_address)"
  by pat_completeness auto
termination by (relation "measure (\<lambda>(b, i, v). row_count b - i)") auto

declare collect_rows.simps [simp del]

fun collect :: "block list \<Rightarrow> string list \<Rightarrow> ch_error + string list" where
  "collect [] vect_address = Inr vect_address"
| "collect (b # bs) vect_address =
     (case collect_rows b 0 vect_address of Inl e \<Rightarrow> Inl e | Inr v \<Rightarrow> collect bs v)"

datatype ch_line = FromSize nat | TotalSize nat | Address string | Row u64 string

definition standard_options :: client_options where
  "standard_options = \<lparr>user = ''default'', host = ''192.168.1.27'', default_database = ''wallet_report_prod'',
     password = ''123456''\<rparr>"

definition from_query :: string where
  "from_query = ''SELECT  DISTINCT `from` from block_number_transaction;''"

definition to_query :: string where
  "to_query = ''SELECT  DISTINCT `to` from block_number_transaction;''"

text \<open>\<open>connect\<close> makes the client from its options.\<close>

definition StandardTest :: "(client_options \<Rightarrow> 's client) \<Rightarrow> 's \<Rightarrow> ch_error + ch_line list" where
  "StandardTest connect s =
     (let client = connect standard_options
      in case collect (Select client from_query s) [] of
           Inl e \<Rightarrow> Inl e
         | Inr v1 \<Rightarrow>
             (case collect (Select client to_query s) v1 of
                Inl e \<Rightarrow> Inl e
              | Inr v2 \<Rightarrow>
                  Inr ([FromSize (length v1), TotalSize (length v2)] @ map (\<lambda>i. Address (v2 ! i)) [0..<length v2])))"

definition ch_main :: "(client_options \<Rightarrow> 's client) \<Rightarrow> 's \<Rightarrow> ch_error + ch_line list \<times> int" where
  "ch_main connect s = map_sum id (\<lambda>out. (out, 0)) (StandardTest connect s)"

section \<open>BasicTest\<close>

definition basic_options :: client_options where
  "basic_options = \<lparr>user = ''default'', host = ''172.31.35.1'', default_database = ''default'', password = ''abcd4321''\<rparr>"

text \<open>\<open>id\<close> and \<open>name\<close> get two rows each.\<close>

definition basic_block :: block where
  "basic_block = \<lparr>row_count = 2,
     columns = [(''id'', ColumnUInt64 ([] @ [1] @ [7])), (''name'', ColumnString ([] @ [''one''] @ [''seven'']))]\<rparr>"

function print_rows :: "block \<Rightarrow> nat \<Rightarrow> ch_line list \<Rightarrow> ch_error + ch_line list" where
  "print_rows b i out =
     (if i < row_count b then
        (case uint_at b 0 i of
           Inl e \<Rightarrow> Inl e
         | Inr n \<Rightarrow>
             (case string_at b 1 i of
                Inl e \<Rightarrow> Inl e
              | Inr name \<Rightarrow> print_rows b (i + 1) (out @ [Row n name])))
      else Inr out)"
  by pat_completeness auto
termination by (relation "measure (\<lambda>(b, i, v). row_count b - i)") auto

declare print_rows.simps [simp del]

fun print_blocks :: "block list \<Rightarrow> ch_line list \<Rightarrow> ch_error + ch_line list" where
  "print_blocks [] out = Inr out"
| "print_blocks (b # bs) out = (case print_rows b 0 out of Inl e \<Rightarrow> Inl e | Inr out' \<Rightarrow> print_blocks bs out')"

definition BasicTest :: "(client_options \<Rightarrow> 's client) \<Rightarrow> 's \<Rightarrow> 's \<times> (ch_error + ch_line list)" where
  "BasicTest connect s =
     (let client = connect basic_options;
          s1 = Execute client ''CREATE TABLE IF NOT EXISTS numbers (id UInt64, name String) ENGINE = Memory'' s;
          s2 = Insert client ''numbers'' basic_block s1
      in (s2, print_blocks (Select client ''SELECT id, name FROM numbers'' s2) []))"

section \<open>Rows\<close>

text \<open>A block whose first column has a string for every row, and one of numbers and strings.\<close>

definition addresses_of :: "block \<Rightarrow> string list option" where
  "addresses_of b =
     (case columns b of
        (n, ColumnString xs) # cs \<Rightarrow> if length xs = row_count b then Some xs else None
      | _ \<Rightarrow> None)"

definition rows_of :: "block \<Rightarrow> ch_line list option" where
  "rows_of b =
     (case columns b of
        (n, ColumnUInt64 xs) # (m, ColumnString ys) # cs \<Rightarrow>
          if length xs = row_count b \<and> length ys = row_count b then Some (map2 Row xs ys) else None
      | _ \<Rightarrow> None)"

lemma collect_rows_drop:
  assumes "addresses_of b = Some xs"
  shows "collect_rows b i v = Inr (v @ drop i xs)"
proof (induction "row_count b - i" arbitrary: i v)
  case 0
  have "length xs = row_count b"
    using assms by (auto simp: addresses_of_def split: list.splits column.splits if_splits)
  with 0 show ?case by (simp add: collect_rows.simps [of b i v])
next
  case (Suc k)
  from assms obtain n cs where cs: "columns b = (n, ColumnString xs) # cs" "length xs = row_count b"
    by (auto simp: addresses_of_def split: list.splits column.splits if_splits)
  moreover have i: "i < row_count b" using Suc.hyps(2) by simp
  ultimately have "collect_rows b i v = collect_rows b (i + 1) (v @ [xs ! i])"
    by (simp add: collect_rows.simps [of b i v] string_at_def)
  then show ?case
    using Suc.hyps(1) [of "i + 1" "v @ [xs ! i]"] Suc.hyps(2) i cs(2) by (simp add: Cons_nth_drop_Suc)
qed

lemma collect_all:
  "list_all2 (\<lambda>b xs. addresses_of b = Some xs) bs xss \<Longrightarrow> collect bs v = Inr (v @ concat xss)"
proof (induction arbitrary: v rule: list_all2_induct)
  case (Cons b bs xs xss)
  then show ?case by (simp add: collect_rows_drop)
qed simp

lemma print_rows_drop:
  assumes "rows_of b = Some ls"
  shows "print_rows b i out = Inr (out @ drop i ls)"
proof (induction "row_count b - i" arbitrary: i out)
  case 0
  have "length ls = row_count b"
    using assms by (auto simp: rows_of_def split: list.splits column.splits if_splits prod.splits)
  with 0 show ?case by (simp add: print_rows.simps [of b i out])
next
  case (Suc k)
  from assms obtain n m cs xs ys where cs: "columns b = (n, ColumnUInt64 xs) # (m, ColumnString ys) # cs"
    "length xs = row_count b" "length ys = row_count b" "ls = map2 Row xs ys"
    by (auto simp: rows_of_def split: list.splits column.splits if_splits prod.splits)
  moreover have i: "i < row_count b" using Suc.hyps(2) by simp
  ultimately have "print_rows b i out = print_rows b (i + 1) (out @ [ls ! i])"
    by (simp add: print_rows.simps [of b i out] string_at_def uint_at_def)
  moreover have "i < length ls" using i cs by simp
  then have "ls ! i # drop (i + 1) ls = drop i ls" by (simp add: Cons_nth_drop_Suc)
  ultimately show ?case
    using Suc.hyps(1) [of "i + 1" "out @ [ls ! i]"] Suc.hyps(2) by simp
qed

lemma print_all:
  "list_all2 (\<lambda>b ls. rows_of b = Some ls) bs lss \<Longrightarrow> print_blocks bs out = Inr (out @ concat lss)"
proof (induction arbitrary: out rule: list_all2_induct)
  case (Cons b bs ls lss)
  then show ?case by (simp add: print_rows_drop)
qed simp

section \<open>Properties\<close>

text \<open>C38: If the blocks of both queries have a string for every row in their first
  column, the program prints the number of senders, then the number of senders and receivers together, then
  every sender and every receiver in the order of the blocks and rows. Nothing is removed in between: an
  address that sends and receives is counted and printed twice, although each query asks for distinct ones.\<close>

theorem addresses_collected:
  assumes "list_all2 (\<lambda>b xs. addresses_of b = Some xs) (Select (connect standard_options) from_query s) froms"
    and "list_all2 (\<lambda>b xs. addresses_of b = Some xs) (Select (connect standard_options) to_query s) tos"
  shows "ch_main connect s = Inr (FromSize (length (concat froms)) #
      TotalSize (length (concat froms) + length (concat tos)) # map Address (concat froms @ concat tos), 0)"
proof -
  have all: "map (\<lambda>i. Address (v ! i)) [0..<length v] = map Address v" for v :: "string list"
    by (rule nth_equalityI) simp_all
  show ?thesis
    unfolding ch_main_def StandardTest_def Let_def collect_all [OF assms(1)] sum.case append_Nil
      collect_all [OF assms(2)] all by simp
qed

definition two_blocks :: "client_options \<Rightarrow> unit client" where
  "two_blocks opts = \<lparr>Execute = (\<lambda>q s. s), Insert = (\<lambda>t b s. s), Select = (\<lambda>q s.
     if q = from_query then [\<lparr>row_count = 1, columns = [(''from'', ColumnString [''a''])]\<rparr>,
       \<lparr>row_count = 1, columns = [(''from'', ColumnString [''b''])]\<rparr>]
     else [\<lparr>row_count = 1, columns = [(''to'', ColumnString [''a''])]\<rparr>])\<rparr>"

theorem addresses_collected_witness:
  "ch_main two_blocks () = Inr ([FromSize 2, TotalSize 3, Address ''a'', Address ''b'', Address ''a''], 0)"
  using addresses_collected [of two_blocks "()" "[[''a''], [''b'']]" "[[''a'']]"]
  by (simp add: two_blocks_def addresses_of_def from_query_def to_query_def)

text \<open>If inserting into the table makes the inserted block the last one that the query over
  the table returns, and the earlier blocks have the table's two columns, \<open>BasicTest\<close> prints the earlier rows
  and then its own two.\<close>

theorem basic_rows:
  assumes "\<forall>s b. Select (connect basic_options) ''SELECT id, name FROM numbers'' (Insert (connect basic_options) ''numbers'' b s)
      = Select (connect basic_options) ''SELECT id, name FROM numbers'' s @ [b]"
    and "list_all2 (\<lambda>b ls. rows_of b = Some ls) (Select (connect basic_options) ''SELECT id, name FROM numbers''
      (Execute (connect basic_options) ''CREATE TABLE IF NOT EXISTS numbers (id UInt64, name String) ENGINE = Memory'' s)) old"
  shows "snd (BasicTest connect s) = Inr (concat old @ [Row 1 ''one'', Row 7 ''seven''])"
proof -
  let ?rows = "[Row 1 ''one'', Row 7 ''seven'']"
  have "rows_of basic_block = Some ?rows" by (simp add: rows_of_def basic_block_def)
  then have "list_all2 (\<lambda>b ls. rows_of b = Some ls) (Select (connect basic_options) ''SELECT id, name FROM numbers''
      (Execute (connect basic_options) ''CREATE TABLE IF NOT EXISTS numbers (id UInt64, name String) ENGINE = Memory'' s)
      @ [basic_block]) (old @ [?rows])"
    using assms(2) by (intro list_all2_appendI) auto
  from print_all [OF this, of "[]"] show ?thesis by (simp add: BasicTest_def Let_def assms(1))
qed

definition one_table :: "client_options \<Rightarrow> block list client" where
  "one_table opts = \<lparr>Execute = (\<lambda>q s. s), Insert = (\<lambda>t b s. s @ [b]), Select = (\<lambda>q s. s)\<rparr>"

theorem basic_rows_witness:
  "snd (BasicTest one_table [basic_block]) = Inr [Row 1 ''one'', Row 7 ''seven'', Row 1 ''one'', Row 7 ''seven'']"
  using basic_rows [of one_table "[basic_block]" "[[Row 1 ''one'', Row 7 ''seven'']]"]
  by (simp add: one_table_def rows_of_def basic_block_def)

end
