(* ===== verification/TestSetup.thy ===== *)
theory TestSetup
  imports Prelude
begin

text \<open>
  boost_util_test: the global fixture \<open>StartupShutdown\<close> of testingsetup.cpp, which reads the command line before the
  first test, the fixture \<open>TestingSetup\<close>, and the test cases of test_for_test.cpp and test_io.cpp. The option
  parser of boost is the record \<open>program_options\<close> of the calls the fixture makes; which test cases run is up to
  the test framework, and a parameter.
\<close>

section \<open>The options\<close>

text \<open>An entry of \<open>options_description\<close>: with a value or not, and if \<open>required()\<close> is set.\<close>

record option_entry =
  o_name :: string
  o_value :: bool
  o_required :: bool
  o_text :: string

type_synonym options_description = "option_entry list"
type_synonym variables_map = "string \<Rightarrow> string option"

text \<open>\<open>store(parse_command_line(argc, argv, desc), map)\<close> gives the map or throws; \<open>desc\<close> can be printed. \<open>notify\<close>,
  which checks that required options are there, is the third call.\<close>

record 'e program_options =
  po_store :: "string list \<Rightarrow> options_description \<Rightarrow> variables_map \<Rightarrow> 'e + variables_map"
  po_print :: "options_description \<Rightarrow> string"
  po_notify :: "options_description \<Rightarrow> variables_map \<Rightarrow> 'e option"

definition optDef :: options_description where
  "optDef =
     [\<lparr>o_name = ''testhelp'', o_value = False, o_required = False, o_text = ''program options information''\<rparr>,
      \<lparr>o_name = ''log_level'', o_value = False, o_required = False,
       o_text = ''set boost logging (all, test_suite, message, warning, error, ...)''\<rparr>,
      \<lparr>o_name = ''log_bitcoin'', o_value = True, o_required = True,
       o_text = ''test logging destination (console, none)''\<rparr>]"

text \<open>How a call ends: it returns, leaves the program with \<open>exit\<close>, or throws.\<close>

datatype ('e, 'a) call_end = Returns 'a | Exits int | Throws 'e

text \<open>The constructor of \<open>StartupShutdown\<close>, with what it prints; the value of \<open>log_bitcoin\<close> goes into a local
  variable that is not used.\<close>

definition StartupShutdown :: "'e program_options \<Rightarrow> string list \<Rightarrow> string list \<times> ('e, unit) call_end" where
  "StartupShutdown po argv =
     (case po_store po argv optDef Map.empty of
        Inl e \<Rightarrow> ([], Throws e)
      | Inr opts \<Rightarrow>
          if opts ''testhelp'' \<noteq> None then ([po_print po optDef @ [CHR 0x0A]], Exits 0)
          else let s = (if opts ''log_bitcoin'' \<noteq> None then the (opts ''log_bitcoin'') else '''')
            in ([], Returns ()))"

text \<open>The three functions the tested code may call.\<close>

definition Shutdown :: "('e, unit) call_end" where
  "Shutdown = Exits 0"

definition StartShutdown :: "('e, unit) call_end" where
  "StartShutdown = Exits 0"

definition ShutdownRequested :: bool where
  "ShutdownRequested = False"

section \<open>The test cases\<close>

datatype test_event = Out string | Check bool

text \<open>The fixture \<open>TestingSetup\<close> has an empty constructor and an empty destructor, as has \<open>BasicTestingSetup\<close>.\<close>

definition TestingSetup :: "test_event list" where
  "TestingSetup = []"

definition delete_TestingSetup :: "test_event list" where
  "delete_TestingSetup = []"

definition out_line :: "string \<Rightarrow> test_event" where
  "out_line s = Out (s @ [CHR 0x0A])"

definition test1 :: "test_event list" where
  "test1 = (let unmutatedMutated = True in [out_line ''this is test_for_test'', Check (unmutatedMutated = True)])"

definition test2 :: "test_event list" where
  "test2 = [out_line ''this is test2'']"

definition cpp_test :: "test_event list" where
  "cpp_test = [out_line ''This is C++  io test!'', out_line ''begin -------------------'', out_line ''end ---------------------'']"

definition c_test :: "test_event list" where
  "c_test = [out_line ''This is C io test!'', out_line ''begin ------------------------'',
     out_line ''end --------------------------'']"

definition make_test :: "test_event list" where
  "make_test = [out_line ''This is make test!'', out_line ''begin ---------------------------'',
     out_line ''end -----------------------------'']"

definition test_for_test :: "(string \<times> test_event list) list" where
  "test_for_test = [(''test1'', test1), (''test2'', test2)]"

definition test_io :: "(string \<times> test_event list) list" where
  "test_io = [(''cpp_test'', cpp_test), (''c_test'', c_test), (''make_test'', make_test)]"

text \<open>A test case of a suite runs between the constructor and the destructor of the fixture.\<close>

definition run_case :: "test_event list \<Rightarrow> test_event list" where
  "run_case body = TestingSetup @ body @ delete_TestingSetup"

text \<open>The program: the global fixture, then the selected cases of the suites in the order given.\<close>

definition util_test ::
  "'e program_options \<Rightarrow> (string \<times> (string \<times> test_event list) list) list \<Rightarrow> (string \<Rightarrow> string \<Rightarrow> bool) \<Rightarrow>
    string list \<Rightarrow> test_event list \<times> ('e, unit) call_end" where
  "util_test po suites selected argv =
     (case StartupShutdown po argv of
        (out, Returns u) \<Rightarrow>
          (map Out out @ concat (map (\<lambda>(suite, cases).
             concat (map (\<lambda>(name, body). if selected suite name then run_case body else []) cases)) suites), Returns ())
      | (out, e) \<Rightarrow> (map Out out, e))"

definition all_suites :: "(string \<times> (string \<times> test_event list) list) list" where
  "all_suites = [(''test_for_test'', test_for_test), (''test_io'', test_io)]"

lemmas test_bodies = test1_def test2_def cpp_test_def c_test_def make_test_def out_line_def
lemmas fixtures = run_case_def TestingSetup_def delete_TestingSetup_def

section \<open>Properties\<close>

text \<open>A parser for the concrete runs: \<open>--name\<close> for an option without, \<open>--name value\<close> for one with a value.\<close>

fun parse_plain :: "string list \<Rightarrow> options_description \<Rightarrow> variables_map \<Rightarrow> string + variables_map" where
  "parse_plain [] d m = Inr m"
| "parse_plain (a # as) d m =
     (case List.find (\<lambda>e. a = ''--'' @ o_name e) d of
        None \<Rightarrow> Inl a
      | Some e \<Rightarrow>
          if \<not> o_value e then parse_plain as d (m(o_name e \<mapsto> ''''))
          else case as of [] \<Rightarrow> Inl a | v # as' \<Rightarrow> parse_plain as' d (m(o_name e \<mapsto> v)))"

definition plain_options :: "string program_options" where
  "plain_options = \<lparr>po_store = parse_plain, po_print = (\<lambda>d. concat (map o_name d)),
     po_notify = (\<lambda>d m. map_option o_name (List.find (\<lambda>e. o_required e \<and> m (o_name e) = None) d))\<rparr>"

text \<open>the global fixture decides before the first test, from what the parser stores: an
  exception of the parser goes on, \<open>testhelp\<close> prints the options and leaves the program with 0 before any test,
  and in every other case the selected tests run, and every check in them holds.\<close>

theorem startup_outcomes:
  "case po_store po argv optDef Map.empty of
     Inl e \<Rightarrow> util_test po all_suites selected argv = ([], Throws e)
   | Inr opts \<Rightarrow>
       if opts ''testhelp'' \<noteq> None
       then util_test po all_suites selected argv = ([Out (po_print po optDef @ [CHR 0x0A])], Exits 0)
       else snd (util_test po all_suites selected argv) = Returns () \<and>
         (\<forall>b. Check b \<in> set (fst (util_test po all_suites selected argv)) \<longrightarrow> b)"
  by (auto simp: util_test_def StartupShutdown_def all_suites_def test_for_test_def test_io_def fixtures test_bodies
      split: sum.splits if_splits)

theorem startup_outcomes_witness:
  "util_test plain_options all_suites (\<lambda>_ _. True) [''--testhelp''] =
     ([Out (''testhelplog_levellog_bitcoin'' @ [CHR 0x0A])], Exits 0)"
  using startup_outcomes [of plain_options "\<lambda>_ _. True" "[''--testhelp'']"]
  by (simp add: plain_options_def optDef_def)

text \<open>\<open>log_bitcoin\<close> is declared as required, and \<open>notify\<close> would throw without it; but the fixture never calls
  \<open>notify\<close>, so the tests run.\<close>

theorem required_not_enforced:
  "po_notify plain_options optDef Map.empty = Some ''log_bitcoin'' \<and>
   snd (util_test plain_options all_suites selected []) = Returns ()"
  by (simp add: plain_options_def optDef_def util_test_def StartupShutdown_def)

text \<open>Whatever the value of \<open>log_bitcoin\<close> is, nothing depends on it.\<close>

lemma log_bitcoin_unused:
  assumes "po_store po argv optDef Map.empty = Inr opts"
    and "po_store po argv' optDef Map.empty = Inr (opts(''log_bitcoin'' := v))"
  shows "util_test po suites selected argv = util_test po suites selected argv'"
  using assms by (simp add: util_test_def StartupShutdown_def Let_def)

end
