(* ===== verification/Spec2Isabelle.thy ===== *)
theory Spec2Isabelle
  imports CheckQueue_Main Semaphore_Grant LockAnnotations UdpTracker TorrentServers EccTest EcdhDemo KeccakCheck
    KafkaConsumer KafkaConsumerC KafkaProducer ClickHouse TestSetup
begin

text \<open>
  A verification library for the programs of this repository, a collection of small C++ studies of
  frameworks. Each directory under src/ is a program of its own, and the theories follow them.

  \<^bold>\<open>boostthreadcontrol/: the verification queue.\<close> checkqueue.h holds a queue of checks that a master
  fills and that the master and its workers empty in batches.
  \<open>CheckQueue\<close> has the record \<open>chkq\<close> of the fields and one function per critical section of
  \<open>CCheckQueue\<close>: \<open>loop_cleanup\<close>, \<open>loop_test\<close>, \<open>loop_top\<close> and \<open>loop_wake\<close> for \<open>Loop\<close>, and \<open>Add\<close>. The
  class of the checks is the record \<open>check_ops\<close> of what the queue calls of it.
  \<open>CheckQueue_System\<close> puts threads around it: \<open>cq_step\<close> runs one critical section or one check of
  one thread, with notifications, spurious wake-ups and any scheduling; mutual exclusion is the
  atomicity of the step. Its lemmas are the invariants: \<open>nTodo\<close>, \<open>nTotal\<close> and \<open>nIdle\<close> count what they
  should, and no job is lost or doubled. \<open>CheckQueue_Correct\<close> has what callers rely on: the verdict
  of \<open>Wait\<close>, that a waiting thread is woken when work comes, that every run of a fixed amount of work
  ends. \<open>CheckQueue_Control\<close> is \<open>CCheckQueueControl\<close> for any number of clients, with \<open>ControlMutex\<close>,
  and shows that it refines the queue; \<open>CheckQueue_Main\<close> is \<open>TaskCheck\<close> and the \<open>main\<close> of main.cpp.

  \<^bold>\<open>boostthreadcontrol/: synchronisation.\<close> \<open>Semaphore\<close> is \<open>CSemaphore\<close> of sync.h with its threads, the
  notification sent outside the lock. \<open>Semaphore_Grant\<close> is \<open>CSemaphoreGrant\<close> over a store of objects,
  a client of the locale \<open>semaphore\<close>, whose laws \<open>CSemaphore\<close> is shown to meet. \<open>StdMap\<close> gives
  the laws of \<open>std::map\<close> as the locale \<open>ordered_map\<close> with the sorted list as its interpretation.
  \<open>LockOrder\<close> is sync.cpp: the lock stack, the order maps, \<open>push_lock\<close>, \<open>DeleteLock\<close> and the
  assertions of the DEBUG_LOCKORDER build. \<open>MutexLock\<close> is \<open>CMutexLock\<close> and the LOCK macros in both
  builds, a client of the locale \<open>boost_mutex\<close>, with the two mutexes of boost as its interpretations.
  \<open>LockSystem\<close> composes the two: threads with their open scopes, the mutexes and the checker, where asking for
  a mutex (\<open>EnterCritical\<close>) and getting it are separate steps. It shows that the checker only ever stops a
  program (\<open>debug_refines_release\<close>), that an order in which one thread took two mutexes binds all threads until
  one of the two is destroyed (\<open>orders_agree\<close>), and that no two threads of a checked program wait for each other
  (\<open>no_two_thread_deadlock\<close>, \<open>two_threads_progress\<close>), the latter for mutexes that meet the locale \<open>owned_mutex\<close>; scopes
  and sections must nest, and \<open>leave_out_of_order\<close> shows why; \<open>three_threads_deadlock\<close> shows that cycles of
  three threads are not covered. \<open>LockAnnotations\<close> is threadsafety.h: the macros,
  the contracts of the annotated functions of sync.h, and what code gains that keeps to them.

  \<^bold>\<open>learntorrent/: the servers.\<close> \<open>NetUtil\<close> is util.h, the time stamps and \<open>BaseServer\<close>, with the locale
  \<open>server_loop\<close> for what the receive loops share. \<open>UdpTracker\<close> is tracker.cpp: \<open>onUdpReceive\<close> case by
  case, over the locale \<open>net_codec\<close> of the big-endian readers and writers. \<open>TorrentServers\<close> is dht.cpp
  and peer.cpp, which interpret \<open>server_loop\<close>, and the lookup of main.cpp. The destructors are part of both:
  \<open>stopping\<close> has the circumstances in which the socket is cancelled and closed, \<open>abandoned\<close> is what asio completes
  the operations of the thread with, and \<open>ended\<close> tells whether the program survives and \<open>join\<close> returns.

  \<^bold>\<open>learnopenssl/ and learneth/: text, bytes and keys.\<close> \<open>HexUtil\<close> is the table and the conversions of
  learnopenssl/src/main.cpp over memory as a list of bytes, where an access outside is an error value.
  \<open>DatumParser\<close> is \<open>RandomizedTransfer\<close> and \<open>PutDecodedDatumInto\<close> of learneth/src/main.cpp as partial
  functions to \<open>option\<close>: a call that does not return is \<open>None\<close>, and \<open>datum_bytes\<close> says what a datum
  stands for without the queue and the random chunks; \<open>datum_decoded\<close> is their equality. \<open>OpenEcc\<close> is
  open_ecc.cpp (two identical copies): the object with its indeterminate fields, one function per member
  function, and \<open>ecc_do\<close> and \<open>ecc_run\<close> for calls in sequence; OpenSSL is the record \<open>openssl\<close> of the
  functions the class calls. \<open>EccTest\<close> is \<open>TestOpenEcc\<close> and \<open>main\<close> of learnopenssl/src/main.cpp,
  \<open>EcdhDemo\<close> the key exchange behind the first return of that \<open>main\<close>, which is never executed, and
  \<open>KeccakCheck\<close> is \<open>main\<close> of learneth/src/main.cpp, which composes the parser and the printing of bytes.

  \<^bold>\<open>producer_consumer_librdkafka/.\<close> \<open>HandlerLoop\<close> is the locale of a loop over events with its handler;
  both consumers interpret it. \<open>KafkaConsumer\<close> is cconsumer.cpp and its main.cpp: \<open>Init\<close>, \<open>consumer\<close> for
  one message, the loop of \<open>Consume\<close> over rounds, each a message and perhaps a signal. \<open>KafkaConsumerC\<close>
  is consumer/main.c: the options, \<open>initKafka\<close>, \<open>msg_consume\<close>, the polling loop with the signals before
  and after each message, and the shutdown. \<open>KafkaProducer\<close> is producer/main.c: the lines of the
  input as \<open>fgets\<close> delivers them, the retry loop as a partial function, and \<open>pieces\<close> as what is to be sent.
  librdkafka is what its calls return: records of results for the set-up, lists of rounds, and the
  sequence of results of \<open>rd_kafka_produce\<close>.

  \<^bold>\<open>learnclickhouse/.\<close> \<open>ClickHouse\<close> is main.cpp: the callbacks over the blocks of a query, \<open>StandardTest\<close>
  and \<open>BasicTest\<close>, with the client library as a record over the state of the server.

  \<^bold>\<open>boost_util_test/.\<close> \<open>TestSetup\<close> is the global fixture of testingsetup.cpp, which reads the options, and the
  test cases; the option parser and the selection of the cases are parameters.

  \<^bold>\<open>Errors.\<close> A read of an indeterminate or null pointer, an access outside a buffer or a column, and an
  exception are values of an error type for each program, on the left of a sum; where a call may not
  return, the sum is inside an option. The theorems state which of them can occur, and when.

  \<^bold>\<open>Bounds.\<close> \<open>unsigned int\<close> is a 32 bit word in the queue and the tracker, with its wrap-around, and so is the
  \<open>std::atomic<int>\<close> of \<open>BaseServer\<close>, read as a signed number; offsets and lengths of messages are 64 bit words.
  The \<open>int\<close> of \<open>CSemaphore\<close> is a number whose increment is undefined, \<open>None\<close>, at \<open>int_max\<close>; any other \<open>int\<close> is
  a number where the code cannot reach the end of its range, with the truncation written out where it can
  (\<open>int_of_count\<close>, \<open>int_len\<close>, \<open>int_of_size\<close>). No definition takes
  fuel: loops are structural, have a measure, are steps of a relation, or are partial functions to \<open>option\<close>.

  \<^bold>\<open>Not modelled.\<close> Output text beyond what a property needs; when SIGUSR1 arrives in consumer/main.c, whose
  handler only prints a dump of the library; a signal while producer/main.c waits in \<open>fgets\<close>, whose handler closes
  the input under it: the signals of the model come after a line has been read; the empty functions \<open>send\<close> and \<open>transfer\<close> of learnopenssl/src/main.cpp;
  the static analysis of clang itself, of which only the documented contracts of the attributes are used.
\<close>

end
